(* ===== verification/Prelude.thy ===== *)
theory Prelude
  imports Main "HOL-Library.Word"
begin

text \<open>
  What the components share: the machine integers of the source, the ways a C++ call can
  fail to return normally, sequencing of calls that may fail, and the collections of
  simplification rules the component proofs use.
\<close>

section \<open>Machine integers and identifiers\<close>

type_synonym u32 = "32 word"
type_synonym u64 = "64 word"
type_synonym tid = u64 \<comment> \<open>what \<open>GetThreadId\<close> returns\<close>

section \<open>Calls that do not return normally\<close>

text \<open>
  \<open>AssertFail\<close> is a failed \<open>DDG_ASSERT\<close> (the process aborts), \<open>Exn\<close> a C++ exception
  that leaves the call, \<open>UB\<close> undefined behaviour of the language or of a library call
  (a null dereference, an iterator moved past the end, an unlock of a lock that is not
  held), \<open>Blocked\<close> a call that waits for another thread and does not return.
  \<open>OutOfFuel\<close> is no outcome of the code: it says that the bound given to a loop of the model
  was too small.
\<close>

datatype failure = AssertFail string | Exn string | UB string | Blocked | OutOfFuel

type_synonym 'a result = "failure + 'a"

fun and_then :: "'a result \<Rightarrow> ('a \<Rightarrow> 'b result) \<Rightarrow> 'b result" where
  "and_then (Inl e) f = Inl e"
| "and_then (Inr a) f = f a"

lemma and_then_Inr_iff [simp]:
  "and_then x f = Inr b \<longleftrightarrow> (\<exists>a. x = Inr a \<and> f a = Inr b)"
  by (cases x) auto

lemma and_then_Inl_iff:
  "and_then x f = Inl e \<longleftrightarrow> x = Inl e \<or> (\<exists>a. x = Inr a \<and> f a = Inl e)"
  by (cases x) auto

lemma and_then_assoc: "and_then (and_then x f) g = and_then x (\<lambda>a. and_then (f a) g)"
  by (cases x) auto

lemma and_then_Inr_right [simp]: "and_then x Inr = x"
  by (cases x) auto

lemma and_then_cong [fundef_cong]:
  "x = y \<Longrightarrow> (\<And>a. y = Inr a \<Longrightarrow> f a = g a) \<Longrightarrow> and_then x f = and_then y g"
  by (cases y) auto

text \<open>\<open>DDG_ASSERT(x)\<close>: nothing when \<open>x\<close> holds, otherwise the process aborts.\<close>

definition ddg_assert :: "string \<Rightarrow> bool \<Rightarrow> unit result" where
  "ddg_assert what x = (if x then Inr () else Inl (AssertFail what))"

lemma ddg_assert_Inr [simp]: "ddg_assert w x = Inr u \<longleftrightarrow> x"
  by (simp add: ddg_assert_def)

lemma ddg_assert_True [simp]: "ddg_assert w True = Inr ()"
  by (simp add: ddg_assert_def)

lemma ddg_assert_False [simp]: "ddg_assert w False = Inl (AssertFail w)"
  by (simp add: ddg_assert_def)

lemma ddg_assert_Inl [simp]: "ddg_assert w x = Inl e \<longleftrightarrow> \<not> x \<and> e = AssertFail w"
  by (auto simp: ddg_assert_def)

section \<open>Collections\<close>

named_theorems lock_simps \<open>how a lock operation acts on the lock it is given\<close>
named_theorems fuel_free \<open>operations that contain no loop with a bound\<close>
named_theorems step_intros \<open>introduction rules of the step relations\<close>

text \<open>\<open>OutOfFuel\<close> can only come from a loop with a bound.\<close>

lemma and_then_fuel_free [fuel_free]:
  "x \<noteq> Inl OutOfFuel \<Longrightarrow> (\<And>a. x = Inr a \<Longrightarrow> f a \<noteq> Inl OutOfFuel) \<Longrightarrow> and_then x f \<noteq> Inl OutOfFuel"
  by (auto simp: and_then_Inl_iff)

lemma ddg_assert_fuel_free [fuel_free]: "ddg_assert what b \<noteq> Inl OutOfFuel"
  by simp

end
