(* ===== verification/Fiber.thy ===== *)
theory Fiber
  imports Prelude
begin

text \<open>
  \<open>ddg/fiber.h\<close> and \<open>ddg/fiber.cc\<close>: the fiber's states, its object, the counters and the
  thread-local pointers of the module, creation, reset and destruction, and the context
  switches. A user callback is a \<open>body\<close>: what the callback does between two points where it
  gives control back. \<open>swapcontext\<close> saves where the current stack will go on (\<open>m_ctx\<close>) and
  goes on where the other context was saved, so \<open>swapIn\<close> runs the target up to its next
  switch and returns when that switch comes back to the fiber that called it.
\<close>

section \<open>States\<close>

datatype State = S_UNKNOW | S_UNINIT | S_INIT | S_HOLD | S_EXEC | S_TERM | S_READY | S_EXCEPT

definition State_ToString :: "State \<Rightarrow> string" where
  "State_ToString type =
     (case type of
        S_UNINIT \<Rightarrow> ''UNINIT''
      | S_INIT \<Rightarrow> ''INIT''
      | S_HOLD \<Rightarrow> ''HOLD''
      | S_EXEC \<Rightarrow> ''EXEC''
      | S_TERM \<Rightarrow> ''TERM''
      | S_READY \<Rightarrow> ''READY''
      | S_EXCEPT \<Rightarrow> ''EXCEPT''
      | _ \<Rightarrow> ''Unknow'')"

definition State_FromString :: "string \<Rightarrow> State" where
  "State_FromString name =
     (if ''UNINIT'' = name then S_UNINIT
      else if ''INIT'' = name then S_INIT
      else if ''HOLD'' = name then S_HOLD
      else if ''EXEC'' = name then S_EXEC
      else if ''TERM'' = name then S_TERM
      else if ''READY'' = name then S_READY
      else if ''EXCEPT'' = name then S_EXCEPT
      else S_UNKNOW)"

section \<open>Callbacks, contexts and the fiber object\<close>

type_synonym fid = nat \<comment> \<open>the address of a fiber object\<close>

text \<open>
  What a callback does: it returns, throws (an exception of any type), yields
  (\<open>YieldToReady\<close>, which is also \<open>Yield\<close>, or \<open>YieldToHold\<close>), or performs some other
  action of the library, whose meaning is a parameter of the run.
\<close>

datatype 'a body =
    BReturn
  | BThrow
  | BYieldToReady "'a body"
  | BYieldToHold "'a body"
  | BDo 'a "'a body"

datatype entry = MainFunc | CallerMainFunc

text \<open>
  A saved context: not yet entered, inside the callback with \<open>body\<close> still to do, past the
  last switch of the entry function, or inside a \<open>swapIn\<close> or \<open>call\<close> that waits for the
  fiber it switched to.
\<close>

datatype 'a ucontext = CtxEntry entry | CtxBody entry "'a body" | CtxFinished | CtxCalling

record 'a fiber =
  m_id :: u64
  m_stacksize :: u32
  m_state :: State
  m_stack :: bool
  m_cb :: "'a body option"
  m_ctx :: "'a ucontext"

text \<open>
  The module's state: the fiber objects by address, the static counters, the set of ids in
  use, the configured stack size, and the thread-local pointers (\<open>t_scheduler_fiber\<close> is
  declared in \<open>scheduler.cc\<close> and read here through \<open>Scheduler::GetMainFiber\<close>).
\<close>

record 'a fibers =
  heap :: "fid \<Rightarrow> 'a fiber option"
  next_fid :: fid
  s_fiber_id :: u64
  s_fiber_id_set :: "u64 set"
  s_fiber_count :: u64
  g_fiber_stack_size :: u32
  t_fiber :: "tid \<Rightarrow> fid option"
  t_threadFiber :: "tid \<Rightarrow> fid option"
  t_scheduler_fiber :: "tid \<Rightarrow> fid option"

text \<open>The statics before the first use; \<open>g_fiber_stack_size\<close> is 128 KiB by default.\<close>

definition no_fibers :: "'a fibers" where
  "no_fibers = \<lparr>heap = Map.empty, next_fid = 0, s_fiber_id = 0, s_fiber_id_set = {},
     s_fiber_count = 0, g_fiber_stack_size = 128 * 1024, t_fiber = Map.empty,
     t_threadFiber = Map.empty, t_scheduler_fiber = Map.empty\<rparr>"

definition upd_fiber :: "fid \<Rightarrow> ('a fiber \<Rightarrow> 'a fiber) \<Rightarrow> ('a, 'z) fibers_scheme \<Rightarrow> ('a, 'z) fibers_scheme" where
  "upd_fiber f g w = w\<lparr>heap := (heap w)(f := map_option g (heap w f))\<rparr>"

text \<open>A member call through a fiber pointer: undefined if no object lives there.\<close>

definition fiber_at :: "fid \<Rightarrow> ('a, 'z) fibers_scheme \<Rightarrow> 'a fiber result" where
  "fiber_at f w = (case heap w f of None \<Rightarrow> Inl (UB ''no such fiber'') | Some fb \<Rightarrow> Inr fb)"

definition getState :: "fid \<Rightarrow> ('a, 'z) fibers_scheme \<Rightarrow> State result" where
  "getState f w = and_then (fiber_at f w) (\<lambda>fb. Inr (m_state fb))"

definition setState :: "fid \<Rightarrow> State \<Rightarrow> ('a, 'z) fibers_scheme \<Rightarrow> ('a, 'z) fibers_scheme" where
  "setState f st w = upd_fiber f (\<lambda>fb. fb\<lparr>m_state := st\<rparr>) w"

definition set_ctx :: "fid \<Rightarrow> 'a ucontext \<Rightarrow> ('a, 'z) fibers_scheme \<Rightarrow> ('a, 'z) fibers_scheme" where
  "set_ctx f c w = upd_fiber f (\<lambda>fb. fb\<lparr>m_ctx := c\<rparr>) w"

definition SetThis :: "tid \<Rightarrow> fid option \<Rightarrow> ('a, 'z) fibers_scheme \<Rightarrow> ('a, 'z) fibers_scheme" where
  "SetThis t f w = w\<lparr>t_fiber := (t_fiber w)(t := f)\<rparr>"

section \<open>Identifiers and counters\<close>

definition kMaxFiberId :: u64 where "kMaxFiberId = 18446744073709551615 - 1"

lemma unat_kMaxFiberId: "unat kMaxFiberId = 18446744073709551614"
  by (simp add: kMaxFiberId_def)

lemma le_kMaxFiberId_succ: "i \<le> kMaxFiberId \<Longrightarrow> unat (i + 1) = unat i + 1"
  by (simp add: word_le_nat_alt unat_kMaxFiberId unat_word_ariths)

text \<open>The search loop of \<open>safeFiberIdIncr\<close>: the value of \<open>i\<close> when it is left.\<close>

function find_free_id :: "u64 \<Rightarrow> u64 set \<Rightarrow> u64" where
  "find_free_id i ids =
     (if i \<le> kMaxFiberId then (if i \<notin> ids then i else find_free_id (i + 1) ids) else i)"
  by pat_completeness auto
termination
proof (relation "measure (\<lambda>(i, ids). 2 ^ 64 - unat i)")
  fix i :: u64 and ids :: "u64 set"
  assume "i \<le> kMaxFiberId"
  then have "unat (i + 1) = unat i + 1"
    by (rule le_kMaxFiberId_succ)
  moreover have "unat i < 2 ^ 64"
    using unsigned_less [of i] by simp
  ultimately show "((i + 1, ids), (i, ids)) \<in> measure (\<lambda>(i, ids). 2 ^ 64 - unat i)"
    by simp
qed auto

declare find_free_id.simps [simp del]

text \<open>The new id and the updated counter and set, or a failed assertion.\<close>

definition safeFiberIdIncr :: "('a, 'z) fibers_scheme \<Rightarrow> (u64 \<times> ('a, 'z) fibers_scheme) result" where
  "safeFiberIdIncr w =
     (if s_fiber_id w \<le> kMaxFiberId - 1 then
        (let i = s_fiber_id w + 1
         in Inr (i, w\<lparr>s_fiber_id := i, s_fiber_id_set := insert i (s_fiber_id_set w)\<rparr>))
      else
        (let i = find_free_id 0 (s_fiber_id_set w)
         in if i = kMaxFiberId + 1
            then Inl (AssertFail ''Fiber::safeFiberIdIncr too many fiber'')
            else Inr (i, w\<lparr>s_fiber_id_set := insert i (s_fiber_id_set w)\<rparr>)))"

definition safeFiberCountIncr :: "('a, 'z) fibers_scheme \<Rightarrow> ('a, 'z) fibers_scheme" where
  "safeFiberCountIncr w = w\<lparr>s_fiber_count := s_fiber_count w + 1\<rparr>"

definition safeFiberCountDesc :: "('a, 'z) fibers_scheme \<Rightarrow> ('a, 'z) fibers_scheme" where
  "safeFiberCountDesc w = w\<lparr>s_fiber_count := s_fiber_count w - 1\<rparr>"

definition TotalFibers :: "('a, 'z) fibers_scheme \<Rightarrow> u64" where
  "TotalFibers w = s_fiber_count w"

section \<open>Creation, reset, destruction\<close>

definition new_fiber :: "'a fiber \<Rightarrow> ('a, 'z) fibers_scheme \<Rightarrow> fid \<times> ('a, 'z) fibers_scheme" where
  "new_fiber fb w =
     (next_fid w, w\<lparr>heap := (heap w)(next_fid w \<mapsto> fb), next_fid := next_fid w + 1\<rparr>)"

text \<open>
  \<open>Fiber::Fiber()\<close>, the fiber of a thread's own stack: no stack, no callback, id 0, running.
\<close>

definition Fiber_main :: "tid \<Rightarrow> ('a, 'z) fibers_scheme \<Rightarrow> fid \<times> ('a, 'z) fibers_scheme" where
  "Fiber_main t w =
     (let (f, w1) = new_fiber \<lparr>m_id = 0, m_stacksize = 0, m_state = S_EXEC, m_stack = False,
            m_cb = None, m_ctx = CtxCalling\<rparr> w
      in (f, safeFiberCountIncr (SetThis t (Some f) w1)))"

text \<open>
  \<open>Fiber::Fiber(cb, stacksize, use_caller)\<close>; \<open>stk\<close> says whether \<open>malloc\<close> returned a
  block. The \<open>size_t\<close> stack size is stored in 32 bits.
\<close>

definition Fiber_new ::
  "bool \<Rightarrow> 'a body option \<Rightarrow> u64 \<Rightarrow> bool \<Rightarrow> ('a, 'z) fibers_scheme \<Rightarrow> (fid \<times> ('a, 'z) fibers_scheme) result" where
  "Fiber_new stk cb stacksize use_caller w =
     and_then (safeFiberIdIncr w) (\<lambda>(i, w1).
       let w2 = safeFiberCountIncr w1;
           size = (if stacksize \<noteq> 0 then ucast stacksize else g_fiber_stack_size w2)
       in Inr (new_fiber \<lparr>m_id = i, m_stacksize = size, m_state = S_INIT, m_stack = stk,
            m_cb = cb,
            m_ctx = CtxEntry (if \<not> use_caller then MainFunc else CallerMainFunc)\<rparr> w2))"

definition Fiber_dtor :: "tid \<Rightarrow> fid \<Rightarrow> ('a, 'z) fibers_scheme \<Rightarrow> ('a, 'z) fibers_scheme result" where
  "Fiber_dtor t f w =
     and_then (fiber_at f w) (\<lambda>fb.
       let w1 = safeFiberCountDesc w
       in and_then
         (if m_stack fb then
            and_then (ddg_assert ''m_state == TERM || m_state == EXCEPT || m_state == INIT''
                (m_state fb = S_TERM \<or> m_state fb = S_EXCEPT \<or> m_state fb = S_INIT))
              (\<lambda>_. Inr w1)
          else
            and_then (ddg_assert ''m_cb == nullptr && m_state == EXEC''
                (m_cb fb = None \<and> m_state fb = S_EXEC))
              (\<lambda>_. Inr (if t_fiber w1 t = Some f then SetThis t None w1 else w1)))
         (\<lambda>w2. Inr (w2\<lparr>heap := (heap w2)(f := None)\<rparr>)))"

definition Fiber_reset :: "'a body option \<Rightarrow> fid \<Rightarrow> ('a, 'z) fibers_scheme \<Rightarrow> ('a, 'z) fibers_scheme result" where
  "Fiber_reset cb f w =
     and_then (fiber_at f w) (\<lambda>fb.
     and_then (ddg_assert ''m_stack'' (m_stack fb)) (\<lambda>_.
     and_then (ddg_assert ''m_state == TERM || m_state == EXCEPT || m_state == INIT''
        (m_state fb = S_TERM \<or> m_state fb = S_EXCEPT \<or> m_state fb = S_INIT)) (\<lambda>_.
     Inr (upd_fiber f (\<lambda>fb. fb\<lparr>m_cb := cb, m_ctx := CtxEntry MainFunc, m_state := S_INIT\<rparr>) w))))"

text \<open>
  \<open>Fiber::GetThis\<close>: the current fiber of the thread; the first call on a thread makes the
  fiber of its own stack.
\<close>

definition GetThis :: "tid \<Rightarrow> ('a, 'z) fibers_scheme \<Rightarrow> (fid \<times> ('a, 'z) fibers_scheme) result" where
  "GetThis t w =
     (case t_fiber w t of
        Some f \<Rightarrow> and_then (fiber_at f w) (\<lambda>_. Inr (f, w))
      | None \<Rightarrow>
          (let (f, w1) = Fiber_main t w
           in and_then (ddg_assert ''t_fiber == main_fiber.get()'' (t_fiber w1 t = Some f)) (\<lambda>_.
              Inr (f, w1\<lparr>t_threadFiber := (t_threadFiber w1)(t := Some f)\<rparr>))))"

definition GetFiberId :: "tid \<Rightarrow> ('a, 'z) fibers_scheme \<Rightarrow> u64 result" where
  "GetFiberId t w =
     (case t_fiber w t of
        Some f \<Rightarrow> and_then (fiber_at f w) (\<lambda>fb. Inr (m_id fb))
      | None \<Rightarrow> Inr 0)"

section \<open>Context switches\<close>

text \<open>\<open>Scheduler::GetMainFiber()->m_ctx\<close> and \<open>t_threadFiber->m_ctx\<close>: null is undefined.\<close>

definition deref_fiber :: "fid option \<Rightarrow> ('a, 'z) fibers_scheme \<Rightarrow> fid result" where
  "deref_fiber p w =
     (case p of None \<Rightarrow> Inl (UB ''null fiber pointer'')
      | Some f \<Rightarrow> and_then (fiber_at f w) (\<lambda>_. Inr f))"

text \<open>
  The two ways out of a fiber, up to the moment the other context is loaded: the result is
  the fiber that goes on, and \<open>c\<close> is where the fiber left will go on itself.
\<close>

definition swapOut :: "tid \<Rightarrow> fid \<Rightarrow> 'a ucontext \<Rightarrow> ('a, 'z) fibers_scheme \<Rightarrow> (fid \<times> ('a, 'z) fibers_scheme) result" where
  "swapOut t f c w =
     (let w1 = SetThis t (t_scheduler_fiber w t) w
      in and_then (deref_fiber (t_scheduler_fiber w1 t) w1) (\<lambda>m. Inr (m, set_ctx f c w1)))"

definition Fiber_back :: "tid \<Rightarrow> fid \<Rightarrow> 'a ucontext \<Rightarrow> ('a, 'z) fibers_scheme \<Rightarrow> (fid \<times> ('a, 'z) fibers_scheme) result" where
  "Fiber_back t f c w =
     (let w1 = SetThis t (t_threadFiber w t) w
      in and_then (deref_fiber (t_threadFiber w1 t) w1) (\<lambda>m. Inr (m, set_ctx f c w1)))"

text \<open>
  \<open>YieldToReady\<close> and \<open>YieldToHold\<close>: the state is changed and the fiber swapped out; \<open>c\<close>
  is the rest of the callback.
\<close>

definition yield_to :: "State \<Rightarrow> tid \<Rightarrow> 'a ucontext \<Rightarrow> ('a, 'z) fibers_scheme \<Rightarrow> (fid \<times> ('a, 'z) fibers_scheme) result" where
  "yield_to st t c w =
     and_then (GetThis t w) (\<lambda>(cur, w1).
     and_then (getState cur w1) (\<lambda>s.
     and_then (ddg_assert ''cur->m_state == State::EXEC'' (s = S_EXEC)) (\<lambda>_.
     swapOut t cur c (setState cur st w1))))"

definition YieldToReady :: "tid \<Rightarrow> 'a ucontext \<Rightarrow> ('a, 'z) fibers_scheme \<Rightarrow> (fid \<times> ('a, 'z) fibers_scheme) result" where
  "YieldToReady = yield_to S_READY"

definition YieldToHold :: "tid \<Rightarrow> 'a ucontext \<Rightarrow> ('a, 'z) fibers_scheme \<Rightarrow> (fid \<times> ('a, 'z) fibers_scheme) result" where
  "YieldToHold = yield_to S_HOLD"

text \<open>
  The end of \<open>MainFunc\<close> and \<open>CallerMainFunc\<close>, after the callback returned or threw: the
  fiber leaves through \<open>swapOut\<close> or \<open>back\<close>; coming back is a failed assertion (at once,
  when the fiber switched to itself).
\<close>

definition leave_entry :: "entry \<Rightarrow> tid \<Rightarrow> fid \<Rightarrow> ('a, 'z) fibers_scheme \<Rightarrow> (fid \<times> ('a, 'z) fibers_scheme) result" where
  "leave_entry e t f w =
     and_then (case e of MainFunc \<Rightarrow> swapOut t f CtxFinished w
               | CallerMainFunc \<Rightarrow> Fiber_back t f CtxFinished w) (\<lambda>(m, w1).
     and_then (ddg_assert ''never reach'' (m \<noteq> f)) (\<lambda>_. Inr (m, w1)))"

text \<open>
  A callback that runs on the current fiber \<open>f\<close> of thread \<open>t\<close>, up to the switch that
  leaves it; a yield of the fiber that is its own scheduler fiber switches nowhere and the
  callback goes on. \<open>act\<close> gives the other actions their meaning.
\<close>

primrec run_body ::
  "(tid \<Rightarrow> 'a \<Rightarrow> ('a, 'z) fibers_scheme \<Rightarrow> ('a, 'z) fibers_scheme result) \<Rightarrow> entry \<Rightarrow> tid \<Rightarrow> fid \<Rightarrow>
   'a body \<Rightarrow> ('a, 'z) fibers_scheme \<Rightarrow> (fid \<times> ('a, 'z) fibers_scheme) result" where
  "run_body act e t f BReturn w =
     leave_entry e t f (upd_fiber f (\<lambda>fb. fb\<lparr>m_cb := None, m_state := S_TERM\<rparr>) w)"
| "run_body act e t f BThrow w = leave_entry e t f (setState f S_EXCEPT w)"
| "run_body act e t f (BYieldToReady b) w =
     and_then (YieldToReady t (CtxBody e b) w) (\<lambda>(m, w1).
       if m = f then run_body act e t f b w1 else Inr (m, w1))"
| "run_body act e t f (BYieldToHold b) w =
     and_then (YieldToHold t (CtxBody e b) w) (\<lambda>(m, w1).
       if m = f then run_body act e t f b w1 else Inr (m, w1))"
| "run_body act e t f (BDo a b) w = and_then (act t a w) (\<lambda>w1. run_body act e t f b w1)"

text \<open>
  Loading the context of fiber \<open>f\<close>. Entering \<open>MainFunc\<close> or \<open>CallerMainFunc\<close> calls
  \<open>m_cb\<close>; an empty \<open>std::function\<close> throws \<open>std::bad_function_call\<close>.
\<close>

definition resume ::
  "(tid \<Rightarrow> 'a \<Rightarrow> ('a, 'z) fibers_scheme \<Rightarrow> ('a, 'z) fibers_scheme result) \<Rightarrow> tid \<Rightarrow> fid \<Rightarrow>
   ('a, 'z) fibers_scheme \<Rightarrow> (fid \<times> ('a, 'z) fibers_scheme) result" where
  "resume act t f w =
     and_then (fiber_at f w) (\<lambda>fb.
       case m_ctx fb of
         CtxEntry e \<Rightarrow>
           (if \<not> m_stack fb then Inl (UB ''no stack'')
            else and_then (GetThis t w) (\<lambda>(cur, w1).
                 and_then (fiber_at cur w1) (\<lambda>cb.
                   run_body act e t cur (case m_cb cb of Some b \<Rightarrow> b | None \<Rightarrow> BThrow) w1)))
       | CtxBody e b \<Rightarrow> run_body act e t f b w
       | CtxFinished \<Rightarrow> Inl (AssertFail ''never reach'')
       | CtxCalling \<Rightarrow> Inl (UB ''context of a running stack''))"

text \<open>
  \<open>swapcontext(&from->m_ctx, &f->m_ctx)\<close> inside \<open>swapIn\<close> or \<open>call\<close>. The call returns when
  some switch loads the context saved in \<open>from\<close>; a switch to any other fiber takes
  control out of the modelled call.
\<close>

definition switch_to ::
  "(tid \<Rightarrow> 'a \<Rightarrow> ('a, 'z) fibers_scheme \<Rightarrow> ('a, 'z) fibers_scheme result) \<Rightarrow> tid \<Rightarrow> fid \<Rightarrow> fid \<Rightarrow>
   ('a, 'z) fibers_scheme \<Rightarrow> ('a, 'z) fibers_scheme result" where
  "switch_to act t from f w =
     (if f = from then Inr w
      else and_then (resume act t f (set_ctx from CtxCalling w)) (\<lambda>(m, w1).
        if m = from then Inr w1 else Inl (UB ''control left for another context'')))"

definition swapIn ::
  "(tid \<Rightarrow> 'a \<Rightarrow> ('a, 'z) fibers_scheme \<Rightarrow> ('a, 'z) fibers_scheme result) \<Rightarrow> tid \<Rightarrow> fid \<Rightarrow>
   ('a, 'z) fibers_scheme \<Rightarrow> ('a, 'z) fibers_scheme result" where
  "swapIn act t f w =
     (let w1 = SetThis t (Some f) w
      in and_then (getState f w1) (\<lambda>s.
         and_then (ddg_assert ''m_state != State::EXEC'' (s \<noteq> S_EXEC)) (\<lambda>_.
         let w2 = setState f S_EXEC w1
         in and_then (deref_fiber (t_scheduler_fiber w2 t) w2) (\<lambda>m.
            switch_to act t m f w2))))"

definition Fiber_call ::
  "(tid \<Rightarrow> 'a \<Rightarrow> ('a, 'z) fibers_scheme \<Rightarrow> ('a, 'z) fibers_scheme result) \<Rightarrow> tid \<Rightarrow> fid \<Rightarrow>
   ('a, 'z) fibers_scheme \<Rightarrow> ('a, 'z) fibers_scheme result" where
  "Fiber_call act t f w =
     (let w1 = SetThis t (Some f) w
      in and_then (getState f w1) (\<lambda>_.
         let w2 = setState f S_EXEC w1
         in and_then (deref_fiber (t_threadFiber w2 t) w2) (\<lambda>m.
            switch_to act t m f w2)))"

section \<open>Elementary facts\<close>

lemma heap_upd_fiber [simp]: "heap (upd_fiber f g w) = (heap w)(f := map_option g (heap w f))"
  by (simp add: upd_fiber_def)

lemma upd_fiber_frame [simp]:
  "t_fiber (upd_fiber f g w) = t_fiber w"
  "t_threadFiber (upd_fiber f g w) = t_threadFiber w"
  "t_scheduler_fiber (upd_fiber f g w) = t_scheduler_fiber w"
  "next_fid (upd_fiber f g w) = next_fid w"
  "s_fiber_id (upd_fiber f g w) = s_fiber_id w"
  "s_fiber_id_set (upd_fiber f g w) = s_fiber_id_set w"
  "s_fiber_count (upd_fiber f g w) = s_fiber_count w"
  "g_fiber_stack_size (upd_fiber f g w) = g_fiber_stack_size w"
  "fibers.more (upd_fiber f g w) = fibers.more w"
  by (simp_all add: upd_fiber_def)

lemma SetThis_frame [simp]:
  "heap (SetThis t p w) = heap w"
  "t_fiber (SetThis t p w) = (t_fiber w)(t := p)"
  "t_threadFiber (SetThis t p w) = t_threadFiber w"
  "t_scheduler_fiber (SetThis t p w) = t_scheduler_fiber w"
  "next_fid (SetThis t p w) = next_fid w"
  "s_fiber_id (SetThis t p w) = s_fiber_id w"
  "s_fiber_id_set (SetThis t p w) = s_fiber_id_set w"
  "s_fiber_count (SetThis t p w) = s_fiber_count w"
  "g_fiber_stack_size (SetThis t p w) = g_fiber_stack_size w"
  "fibers.more (SetThis t p w) = fibers.more w"
  by (simp_all add: SetThis_def)

lemma fiber_at_Inr [simp]: "fiber_at f w = Inr fb \<longleftrightarrow> heap w f = Some fb"
  by (auto simp: fiber_at_def split: option.splits)

lemma fiber_at_Some: "heap w f = Some fb \<Longrightarrow> fiber_at f w = Inr fb"
  by simp

lemma getState_Some: "heap w f = Some fb \<Longrightarrow> getState f w = Inr (m_state fb)"
  by (simp add: getState_def fiber_at_Some)

lemma deref_fiber_Some: "heap w f = Some fb \<Longrightarrow> deref_fiber (Some f) w = Inr f"
  by (simp add: deref_fiber_def fiber_at_Some)

lemma GetThis_current: "t_fiber w t = Some f \<Longrightarrow> heap w f = Some fb \<Longrightarrow> GetThis t w = Inr (f, w)"
  by (simp add: GetThis_def fiber_at_Some)

lemmas fiber_ops = setState_def set_ctx_def fiber_at_Some getState_Some deref_fiber_Some

text \<open>\<open>find_free_id\<close>: the least free id from \<open>i\<close> on, or \<open>kMaxFiberId + 1\<close> if none is free.\<close>

lemma find_free_id_result:
  "find_free_id i ids \<noteq> kMaxFiberId + 1 \<Longrightarrow> i \<le> kMaxFiberId + 1 \<Longrightarrow>
    find_free_id i ids \<notin> ids \<and> i \<le> find_free_id i ids \<and> find_free_id i ids \<le> kMaxFiberId
    \<and> (\<forall>j. i \<le> j \<longrightarrow> j < find_free_id i ids \<longrightarrow> j \<in> ids)"
proof (induction i ids rule: find_free_id.induct)
  case (1 i ids)
  show ?case
  proof (cases "i \<le> kMaxFiberId")
    case False
    then have "i = kMaxFiberId + 1"
      using "1.prems"(2) by (simp add: word_le_nat_alt unat_word_ariths unat_kMaxFiberId word_unat_eq_iff)
    moreover have "find_free_id i ids = i"
      using False by (subst find_free_id.simps) simp
    ultimately show ?thesis using "1.prems"(1) by simp
  next
    case le: True
    show ?thesis
    proof (cases "i \<in> ids")
      case False
      with le show ?thesis by (auto simp: find_free_id.simps [of i])
    next
      case True
      have step: "find_free_id i ids = find_free_id (i + 1) ids"
        using le True by (simp add: find_free_id.simps [of i])
      have next_le: "i + 1 \<le> kMaxFiberId + 1"
        using le le_kMaxFiberId_succ [OF le] le_kMaxFiberId_succ [of kMaxFiberId]
        by (simp add: word_le_nat_alt)
      have IH: "find_free_id (i + 1) ids \<notin> ids \<and> i + 1 \<le> find_free_id (i + 1) ids
        \<and> find_free_id (i + 1) ids \<le> kMaxFiberId
        \<and> (\<forall>j. i + 1 \<le> j \<longrightarrow> j < find_free_id (i + 1) ids \<longrightarrow> j \<in> ids)"
        using "1.IH" [OF le] "1.prems"(1) True step next_le by simp
      have "j = i \<or> i + 1 \<le> j" if "i \<le> j" for j
        using that le_kMaxFiberId_succ [OF le] by (auto simp: word_le_nat_alt word_unat_eq_iff)
      moreover have "i \<le> i + 1"
        using le_kMaxFiberId_succ [OF le] by (simp add: word_le_nat_alt)
      ultimately show ?thesis
        using IH True step by (metis order_trans)
    qed
  qed
qed

section \<open>One run of a fiber up to its next switch\<close>

text \<open>
  What the rest of a callback comes to: the state it leaves the fiber in and the context it
  saves at its first switch, and the actions it performs on the way.
\<close>

primrec next_stop :: "entry \<Rightarrow> 'a body \<Rightarrow> State \<times> 'a ucontext" where
  "next_stop e BReturn = (S_TERM, CtxFinished)"
| "next_stop e BThrow = (S_EXCEPT, CtxFinished)"
| "next_stop e (BYieldToReady b) = (S_READY, CtxBody e b)"
| "next_stop e (BYieldToHold b) = (S_HOLD, CtxBody e b)"
| "next_stop e (BDo a b) = next_stop e b"

primrec actions_to_stop :: "'a body \<Rightarrow> 'a list" where
  "actions_to_stop BReturn = []"
| "actions_to_stop BThrow = []"
| "actions_to_stop (BYieldToReady b) = []"
| "actions_to_stop (BYieldToHold b) = []"
| "actions_to_stop (BDo a b) = a # actions_to_stop b"

primrec body_actions :: "'a body \<Rightarrow> 'a list" where
  "body_actions BReturn = []"
| "body_actions BThrow = []"
| "body_actions (BYieldToReady b) = body_actions b"
| "body_actions (BYieldToHold b) = body_actions b"
| "body_actions (BDo a b) = a # body_actions b"

lemma actions_to_stop_subset: "set (actions_to_stop b) \<subseteq> set (body_actions b)"
  by (induction b) auto

text \<open>Doing a list of actions in order.\<close>

fun run_actions :: "(tid \<Rightarrow> 'a \<Rightarrow> 'w \<Rightarrow> 'w result) \<Rightarrow> tid \<Rightarrow> 'a list \<Rightarrow> 'w \<Rightarrow> 'w result" where
  "run_actions act t [] w = Inr w"
| "run_actions act t (a # as) w = and_then (act t a w) (run_actions act t as)"

text \<open>The part of the state that belongs to the fibers, which an action must leave alone.\<close>

definition same_fibers :: "('a, 'z) fibers_scheme \<Rightarrow> ('a, 'z) fibers_scheme \<Rightarrow> bool" where
  "same_fibers w w' \<longleftrightarrow> heap w' = heap w \<and> t_fiber w' = t_fiber w
     \<and> t_threadFiber w' = t_threadFiber w \<and> t_scheduler_fiber w' = t_scheduler_fiber w
     \<and> next_fid w' = next_fid w"

lemma same_fibers_refl [simp]: "same_fibers w w"
  by (simp add: same_fibers_def)

lemma same_fibers_trans: "same_fibers w w1 \<Longrightarrow> same_fibers w1 w2 \<Longrightarrow> same_fibers w w2"
  by (simp add: same_fibers_def)

text \<open>
  The rest of the callback of a fiber that \<open>swapIn\<close> can enter (entered through \<open>MainFunc\<close>
  and not finished), the number of its yields, and the state it ends in.
\<close>

definition todo :: "'a fiber \<Rightarrow> 'a body option" where
  "todo fb =
     (case m_ctx fb of
        CtxEntry MainFunc \<Rightarrow>
          (if m_stack fb then Some (case m_cb fb of Some b \<Rightarrow> b | None \<Rightarrow> BThrow) else None)
      | CtxBody MainFunc b \<Rightarrow> Some b
      | _ \<Rightarrow> None)"

primrec yields :: "'a body \<Rightarrow> nat" where
  "yields BReturn = 0"
| "yields BThrow = 0"
| "yields (BYieldToReady b) = Suc (yields b)"
| "yields (BYieldToHold b) = Suc (yields b)"
| "yields (BDo a b) = yields b"

primrec last_state :: "'a body \<Rightarrow> State" where
  "last_state BReturn = S_TERM"
| "last_state BThrow = S_EXCEPT"
| "last_state (BYieldToReady b) = last_state b"
| "last_state (BYieldToHold b) = last_state b"
| "last_state (BDo a b) = last_state b"

lemma next_stop_last: "yields b = 0 \<Longrightarrow> next_stop e b = (last_state b, CtxFinished)"
  by (induction b) auto

lemma next_stop_yield:
  "yields b = Suc n \<Longrightarrow> \<exists>st b'. next_stop e b = (st, CtxBody e b') \<and> yields b' = n
    \<and> last_state b' = last_state b \<and> (st = S_READY \<or> st = S_HOLD)
    \<and> set (body_actions b') \<subseteq> set (body_actions b)"
  by (induction b) auto

lemma last_state_cases: "last_state b = S_TERM \<or> last_state b = S_EXCEPT"
  by (induction b) auto

text \<open>A fiber after the run of its callback up to the next switch.\<close>

definition stopped_at :: "'a body \<Rightarrow> 'a fiber \<Rightarrow> 'a fiber" where
  "stopped_at b fb = fb\<lparr>m_state := fst (next_stop MainFunc b), m_ctx := snd (next_stop MainFunc b),
     m_cb := (if fst (next_stop MainFunc b) = S_TERM then None else m_cb fb)\<rparr>"

lemma stopped_at_simps [simp]:
  "m_state (stopped_at b fb) = fst (next_stop MainFunc b)"
  "m_ctx (stopped_at b fb) = snd (next_stop MainFunc b)"
  "m_id (stopped_at b fb) = m_id fb"
  "m_stack (stopped_at b fb) = m_stack fb"
  "stopped_at (BDo a b) fb = stopped_at b fb"
  "stopped_at b (fb\<lparr>m_state := st\<rparr>) = stopped_at b fb"
  by (simp_all add: stopped_at_def)

text \<open>\<open>swapIn\<close> a number of times in a row.\<close>

fun swapIn_times ::
  "(tid \<Rightarrow> 'a \<Rightarrow> ('a, 'z) fibers_scheme \<Rightarrow> ('a, 'z) fibers_scheme result) \<Rightarrow> tid \<Rightarrow> fid \<Rightarrow> nat \<Rightarrow>
   ('a, 'z) fibers_scheme \<Rightarrow> ('a, 'z) fibers_scheme result" where
  "swapIn_times act t f 0 w = Inr w"
| "swapIn_times act t f (Suc n) w = and_then (swapIn act t f w) (swapIn_times act t f n)"

text \<open>The situation in which the scheduler switches to fiber \<open>f\<close> on thread \<open>t\<close>.\<close>

definition swappable :: "tid \<Rightarrow> fid \<Rightarrow> fid \<Rightarrow> ('a, 'z) fibers_scheme \<Rightarrow> bool" where
  "swappable t m f w \<longleftrightarrow> t_scheduler_fiber w t = Some m \<and> m \<noteq> f \<and> heap w m \<noteq> None \<and>
     (case heap w f of None \<Rightarrow> False | Some fb \<Rightarrow> m_state fb \<noteq> S_EXEC)"

text \<open>
  The interface between fibers and the rest of the library: an action that is possible
  (\<open>ok\<close>) returns normally, does not touch the fibers and keeps every other action possible,
  and what is possible does not depend on the fibers.
\<close>

locale fiber_actions =
  fixes act :: "tid \<Rightarrow> 'a \<Rightarrow> ('a, 'z) fibers_scheme \<Rightarrow> ('a, 'z) fibers_scheme result"
    and ok :: "'a \<Rightarrow> ('a, 'z) fibers_scheme \<Rightarrow> bool"
  assumes act_returns: "ok a w \<Longrightarrow> \<exists>w'. act t a w = Inr w' \<and> same_fibers w w'"
    and ok_kept: "act t a w = Inr w' \<Longrightarrow> ok a' w \<Longrightarrow> ok a' w'"
    and ok_more: "fibers.more w' = fibers.more w \<Longrightarrow> ok a w' = ok a w"
begin

lemma run_actions_returns:
  "(\<forall>a \<in> set as. ok a w) \<Longrightarrow> \<exists>w'. run_actions act t as w = Inr w' \<and> same_fibers w w'
    \<and> (\<forall>a. ok a w \<longrightarrow> ok a w')"
proof (induction as arbitrary: w)
  case (Cons a as)
  obtain w1 where w1: "act t a w = Inr w1" "same_fibers w w1"
    using act_returns Cons.prems by (metis list.set_intros(1))
  have ok1: "ok a' w1" if "ok a' w" for a'
    using ok_kept [OF w1(1) that] .
  then obtain w2 where "run_actions act t as w1 = Inr w2" "same_fibers w1 w2"
    "\<forall>a. ok a w1 \<longrightarrow> ok a w2"
    using Cons.IH [of w1] Cons.prems by auto
  with w1 ok1 show ?case by (auto intro: same_fibers_trans)
qed simp

text \<open>Leaving through \<open>swapOut\<close>, from the fiber that runs.\<close>

lemma run_body_stops:
  assumes "heap w f = Some fb" "m_state fb = S_EXEC" "t_fiber w t = Some f"
    and "t_scheduler_fiber w t = Some m" "heap w m = Some mb" "m \<noteq> f"
    and "\<forall>a \<in> set (actions_to_stop b). ok a w"
  shows "\<exists>w1. run_actions act t (actions_to_stop b) w = Inr w1 \<and> same_fibers w w1
    \<and> run_body act MainFunc t f b w = Inr (m,
        w1\<lparr>heap := (heap w)(f \<mapsto> stopped_at b fb), t_fiber := (t_fiber w)(t \<mapsto> m)\<rparr>)"
  using assms
proof (induction b arbitrary: w)
  case BReturn
  then show ?case
    by (simp add: leave_entry_def swapOut_def fiber_ops Let_def stopped_at_def)
      (rule fibers.equality; auto simp: fun_eq_iff)
next
  case BThrow
  then show ?case
    by (simp add: leave_entry_def swapOut_def fiber_ops Let_def stopped_at_def)
      (rule fibers.equality; auto simp: fun_eq_iff)
next
  case (BYieldToReady b)
  then show ?case
    by (simp add: YieldToReady_def yield_to_def swapOut_def fiber_ops GetThis_current Let_def stopped_at_def)
      (rule fibers.equality; auto simp: fun_eq_iff)
next
  case (BYieldToHold b)
  then show ?case
    by (simp add: YieldToHold_def yield_to_def swapOut_def fiber_ops GetThis_current Let_def stopped_at_def)
      (rule fibers.equality; auto simp: fun_eq_iff)
next
  case (BDo a b)
  obtain w1 where w1: "act t a w = Inr w1" "same_fibers w w1"
    using act_returns BDo.prems(7) by (metis actions_to_stop.simps(5) list.set_intros(1))
  have ok1: "\<forall>a \<in> set (actions_to_stop b). ok a w1"
    using ok_kept [OF w1(1)] BDo.prems(7) by auto
  from w1 have same: "heap w1 = heap w" "t_fiber w1 = t_fiber w"
    "t_scheduler_fiber w1 = t_scheduler_fiber w"
    by (simp_all add: same_fibers_def)
  obtain w2 where w2: "run_actions act t (actions_to_stop b) w1 = Inr w2" "same_fibers w1 w2"
    "run_body act MainFunc t f b w1 = Inr (m,
        w2\<lparr>heap := (heap w)(f \<mapsto> stopped_at b fb), t_fiber := (t_fiber w)(t \<mapsto> m)\<rparr>)"
    using BDo.IH [of w1, unfolded same, OF BDo.prems(1-6) ok1] by blast
  have "run_actions act t (actions_to_stop (BDo a b)) w = Inr w2"
    using w1(1) w2(1) by simp
  moreover have "run_body act MainFunc t f (BDo a b) w = Inr (m,
      w2\<lparr>heap := (heap w)(f \<mapsto> stopped_at (BDo a b) fb), t_fiber := (t_fiber w)(t \<mapsto> m)\<rparr>)"
    using w1(1) w2(3) by (simp only: run_body.simps and_then.simps stopped_at_simps)
  ultimately show ?case
    using same_fibers_trans [OF w1(2) w2(2)] by blast
qed

lemma swapIn_stops:
  assumes sw: "swappable t m f w" and fb: "heap w f = Some fb" and b: "todo fb = Some b"
    and mb: "heap w m = Some mb" and ok: "\<forall>a \<in> set (actions_to_stop b). ok a w"
  shows "\<exists>w1. run_actions act t (actions_to_stop b)
        (set_ctx m CtxCalling (setState f S_EXEC (SetThis t (Some f) w))) = Inr w1
    \<and> same_fibers (set_ctx m CtxCalling (setState f S_EXEC (SetThis t (Some f) w))) w1
    \<and> swapIn act t f w = Inr (w1\<lparr>
        heap := (heap w)(m \<mapsto> mb\<lparr>m_ctx := CtxCalling\<rparr>, f \<mapsto> stopped_at b fb),
        t_fiber := (t_fiber w)(t \<mapsto> m)\<rparr>)"
proof -
  let ?w0 = "set_ctx m CtxCalling (setState f S_EXEC (SetThis t (Some f) w))"
  let ?fe = "fb\<lparr>m_state := S_EXEC\<rparr>"
  have st: "m_state fb \<noteq> S_EXEC" and m: "t_scheduler_fiber w t = Some m" "m \<noteq> f"
    using sw fb by (auto simp: swappable_def)
  have w0: "heap ?w0 f = Some ?fe" "m_state ?fe = S_EXEC" "t_fiber ?w0 t = Some f"
    "t_scheduler_fiber ?w0 t = Some m" "heap ?w0 m = Some (mb\<lparr>m_ctx := CtxCalling\<rparr>)"
    using fb mb m by (auto simp: fiber_ops)
  have ok0: "\<forall>a \<in> set (actions_to_stop b). ok a ?w0"
    using ok ok_more [of ?w0 w] by (auto simp: fiber_ops)
  have resume: "resume act t f ?w0 = run_body act MainFunc t f b ?w0"
    using b w0 GetThis_current [OF w0(3,1)]
    by (auto simp: resume_def todo_def fiber_at_Some split: ucontext.splits entry.splits if_splits)
  have swap: "swapIn act t f w = and_then (resume act t f ?w0)
      (\<lambda>(m', w1). if m' = m then Inr w1 else Inl (UB ''control left for another context''))"
    using st m fb mb by (simp add: swapIn_def switch_to_def fiber_ops Let_def)
  obtain w1 where run: "run_actions act t (actions_to_stop b) ?w0 = Inr w1" "same_fibers ?w0 w1"
      "run_body act MainFunc t f b ?w0 = Inr (m,
        w1\<lparr>heap := (heap ?w0)(f \<mapsto> stopped_at b fb), t_fiber := (t_fiber ?w0)(t \<mapsto> m)\<rparr>)"
    using run_body_stops [OF w0 m(2) ok0] by auto
  moreover have "w1\<lparr>heap := (heap ?w0)(f \<mapsto> stopped_at b fb), t_fiber := (t_fiber ?w0)(t \<mapsto> m)\<rparr>
      = w1\<lparr>heap := (heap w)(m \<mapsto> mb\<lparr>m_ctx := CtxCalling\<rparr>, f \<mapsto> stopped_at b fb),
          t_fiber := (t_fiber w)(t \<mapsto> m)\<rparr>"
    using fb mb m by (intro fibers.equality) (auto simp: fiber_ops fun_eq_iff)
  ultimately show ?thesis using swap resume by auto
qed

lemma swapIn_once:
  assumes sw: "swappable t m f w" and fb: "heap w f = Some fb" and b: "todo fb = Some b"
    and ok: "\<forall>a \<in> set (body_actions b). ok a w"
  shows "\<exists>w'. swapIn act t f w = Inr w' \<and> heap w' f = Some (stopped_at b fb)
    \<and> t_fiber w' t = Some m \<and> t_scheduler_fiber w' = t_scheduler_fiber w
    \<and> t_threadFiber w' = t_threadFiber w \<and> next_fid w' = next_fid w
    \<and> (\<forall>g. g \<noteq> f \<longrightarrow> g \<noteq> m \<longrightarrow> heap w' g = heap w g) \<and> heap w' m \<noteq> None
    \<and> (\<forall>a. ok a w \<longrightarrow> ok a w')"
proof -
  let ?w0 = "set_ctx m CtxCalling (setState f S_EXEC (SetThis t (Some f) w))"
  obtain mb where mb: "heap w m = Some mb"
    using sw by (auto simp: swappable_def)
  have ok': "\<forall>a \<in> set (actions_to_stop b). ok a w"
    using ok actions_to_stop_subset [of b] by auto
  have ok0: "ok a ?w0 = ok a w" for a
    by (rule ok_more) (simp add: fiber_ops)
  obtain w1 where w1: "run_actions act t (actions_to_stop b) ?w0 = Inr w1" "same_fibers ?w0 w1"
    "swapIn act t f w = Inr (w1\<lparr>
        heap := (heap w)(m \<mapsto> mb\<lparr>m_ctx := CtxCalling\<rparr>, f \<mapsto> stopped_at b fb),
        t_fiber := (t_fiber w)(t \<mapsto> m)\<rparr>)"
    using swapIn_stops [OF sw fb b mb ok'] by blast
  have "ok a w1" if "ok a w" for a
    using run_actions_returns [of "actions_to_stop b" ?w0 t] ok' that w1(1) by (auto simp: ok0)
  moreover have "ok a (w1\<lparr>heap := h, t_fiber := tf\<rparr>) = ok a w1" for a h tf
    by (rule ok_more) simp
  ultimately have ok'': "\<forall>a. ok a w \<longrightarrow> ok a (w1\<lparr>
        heap := (heap w)(m \<mapsto> mb\<lparr>m_ctx := CtxCalling\<rparr>, f \<mapsto> stopped_at b fb),
        t_fiber := (t_fiber w)(t \<mapsto> m)\<rparr>)"
    by blast
  have "m \<noteq> f" using sw by (simp add: swappable_def)
  then show ?thesis
    using w1(2) by (intro exI conjI) (rule w1(3) ok'' | simp add: same_fibers_def fiber_ops)+
qed

text \<open>A callback with \<open>n\<close> yields is over after \<open>n + 1\<close> switches, and not before.\<close>

lemma swapIn_times_ends:
  assumes "swappable t m f w" "heap w f = Some fb" "todo fb = Some b"
    and "\<forall>a \<in> set (body_actions b). ok a w" "yields b = n"
  shows "\<exists>w' fb'. swapIn_times act t f (Suc n) w = Inr w' \<and> heap w' f = Some fb'
    \<and> m_state fb' = last_state b \<and> m_ctx fb' = CtxFinished \<and> swappable t m f w'"
  using assms
proof (induction n arbitrary: w fb b)
  case 0
  from swapIn_once [OF "0.prems"(1-4)] next_stop_last [OF "0.prems"(5), of MainFunc]
    last_state_cases [of b] "0.prems"(1)
  show ?case by (fastforce simp: swappable_def)
next
  case (Suc n)
  obtain st b' where nb: "next_stop MainFunc b = (st, CtxBody MainFunc b')" "yields b' = n"
    "last_state b' = last_state b" "st = S_READY \<or> st = S_HOLD"
    "set (body_actions b') \<subseteq> set (body_actions b)"
    using next_stop_yield [OF Suc.prems(5)] by blast
  obtain w' where w': "swapIn act t f w = Inr w'" "heap w' f = Some (stopped_at b fb)"
    "t_scheduler_fiber w' = t_scheduler_fiber w" "heap w' m \<noteq> None" "\<forall>a. ok a w \<longrightarrow> ok a w'"
    using swapIn_once [OF Suc.prems(1-4)] by blast
  have "\<forall>a \<in> set (body_actions b'). ok a w'"
    using Suc.prems(4) nb(5) w'(5) by blast
  moreover have "swappable t m f w'"
    using Suc.prems(1) w' nb by (auto simp: swappable_def)
  moreover have "todo (stopped_at b fb) = Some b'"
    using nb(1) by (simp add: todo_def)
  ultimately obtain w2 fb2 where "swapIn_times act t f (Suc n) w' = Inr w2" "heap w2 f = Some fb2"
    "m_state fb2 = last_state b'" "m_ctx fb2 = CtxFinished" "swappable t m f w2"
    using Suc.IH w'(2) nb(2) by blast
  then show ?case using w'(1) nb(3) by auto
qed

lemma swapIn_finished:
  assumes "swappable t m f w" "heap w f = Some fb" "m_ctx fb = CtxFinished"
  shows "swapIn act t f w = Inl (AssertFail ''never reach'')"
  using assms
  by (auto simp: swappable_def swapIn_def switch_to_def resume_def fiber_ops Let_def)

end

section \<open>Identifiers are never given out twice\<close>

definition ids_inv :: "('a, 'z) fibers_scheme \<Rightarrow> bool" where
  "ids_inv w \<longleftrightarrow> s_fiber_id w \<le> kMaxFiberId \<and>
     (s_fiber_id_set w = {1..s_fiber_id w} \<or>
      (s_fiber_id w = kMaxFiberId \<and> s_fiber_id_set w = {0..kMaxFiberId}))"

lemma ids_inv_no_fibers: "ids_inv no_fibers"
  by (simp add: ids_inv_def no_fibers_def)

lemma kMaxFiberId_minus: "s \<le> kMaxFiberId - 1 \<Longrightarrow> unat s < unat kMaxFiberId"
  by (simp add: word_le_nat_alt kMaxFiberId_def)

lemma not_le_kMaxFiberId_minus: "s \<le> kMaxFiberId \<Longrightarrow> \<not> s \<le> kMaxFiberId - 1 \<Longrightarrow> s = kMaxFiberId"
  by (simp add: word_le_nat_alt kMaxFiberId_def word_unat_eq_iff)

lemma atLeastAtMost_Suc_word:
  assumes "unat (s + 1) = unat (s :: u64) + 1"
  shows "insert (s + 1) {1..s} = {1..s + 1}"
proof -
  have "x \<in> insert (s + 1) {1..s} \<longleftrightarrow> x \<in> {1..s + 1}" for x
    using assms by (auto simp: word_le_nat_alt word_unat_eq_iff)
  then show ?thesis by blast
qed

lemma zero_in_range: "(0 :: u64) \<notin> {1..n}"
  by simp

lemma insert_zero_range: "insert (0 :: u64) {1..n} = {0..n}"
proof -
  have "x \<in> insert 0 {1..n} \<longleftrightarrow> x \<in> {0..n}" for x :: u64
    by (cases "x = 0") (auto simp: word_le_nat_alt unat_gt_0 Suc_le_eq)
  then show ?thesis by blast
qed

lemma find_free_id_full: "find_free_id 0 {0..kMaxFiberId} = kMaxFiberId + 1"
proof (rule ccontr)
  assume "find_free_id 0 {0..kMaxFiberId} \<noteq> kMaxFiberId + 1"
  from find_free_id_result [OF this] show False by force
qed

lemma safeFiberIdIncr_counter:
  assumes "s_fiber_id w \<le> kMaxFiberId - 1" and "s_fiber_id_set w = {1..s_fiber_id w}"
  shows "\<exists>w'. safeFiberIdIncr w = Inr (s_fiber_id w + 1, w') \<and> ids_inv w'
    \<and> s_fiber_id_set w' = insert (s_fiber_id w + 1) (s_fiber_id_set w)
    \<and> s_fiber_id w + 1 \<notin> s_fiber_id_set w"
proof -
  have lt: "unat (s_fiber_id w) < unat kMaxFiberId"
    using assms(1) by (rule kMaxFiberId_minus)
  then have suc: "unat (s_fiber_id w + 1) = unat (s_fiber_id w) + 1"
    by (intro le_kMaxFiberId_succ) (simp add: word_le_nat_alt)
  then have "s_fiber_id w + 1 \<le> kMaxFiberId" "s_fiber_id w + 1 \<notin> {1..s_fiber_id w}"
    using lt by (simp_all add: word_le_nat_alt)
  then show ?thesis
    using assms atLeastAtMost_Suc_word [OF suc] by (simp add: safeFiberIdIncr_def Let_def ids_inv_def)
qed

section \<open>Properties\<close>



text \<open>
  The fiber of a thread's own stack. On a thread without a current fiber \<open>GetThis\<close> makes
  exactly one: running, without stack, callback and id, counted, and installed as both the
  current and the thread fiber; calling \<open>GetThis\<close> again returns it and changes nothing.
\<close>

theorem GetThis_makes_thread_fiber:
  assumes "t_fiber w t = None"
  shows "\<exists>w'. GetThis t w = Inr (next_fid w, w')
    \<and> heap w' = (heap w)(next_fid w \<mapsto> \<lparr>m_id = 0, m_stacksize = 0, m_state = S_EXEC,
        m_stack = False, m_cb = None, m_ctx = CtxCalling\<rparr>)
    \<and> t_fiber w' t = Some (next_fid w) \<and> t_threadFiber w' t = Some (next_fid w)
    \<and> s_fiber_count w' = s_fiber_count w + 1 \<and> s_fiber_id_set w' = s_fiber_id_set w
    \<and> GetThis t w' = Inr (next_fid w, w')"
  using assms
  by (simp add: GetThis_def Fiber_main_def new_fiber_def safeFiberCountIncr_def Let_def fiber_ops)

theorem GetThis_makes_thread_fiber_witness:
  "\<exists>w'. GetThis 5 (no_fibers :: unit fibers) = Inr (0, w') \<and> GetThis 5 w' = Inr (0, w')"
  using GetThis_makes_thread_fiber [of "no_fibers :: unit fibers" 5] by (auto simp: no_fibers_def)

text \<open>
  Destruction and reuse of a fiber with a stack. Both \<open>reset\<close> and the destructor accept exactly
  the fibers that have not started or are over; a suspended or running one is a failed
  assertion. After \<open>reset\<close> the fiber is as new: its next run executes the new callback from
  its start, through \<open>MainFunc\<close>.
\<close>

theorem Fiber_reset_and_dtor:
  assumes "heap w f = Some fb" and "m_stack fb"
  defines "over \<equiv> m_state fb \<in> {S_TERM, S_EXCEPT, S_INIT}"
  shows "(if over
      then (\<exists>w' fb'. Fiber_reset (Some b) f w = Inr w' \<and> heap w' = (heap w)(f \<mapsto> fb')
              \<and> m_state fb' = S_INIT \<and> m_id fb' = m_id fb \<and> todo fb' = Some b)
        \<and> (\<exists>w'. Fiber_dtor t f w = Inr w' \<and> heap w' f = None
              \<and> s_fiber_count w' = s_fiber_count w - 1 \<and> s_fiber_id_set w' = s_fiber_id_set w)
      else (\<exists>e. Fiber_reset (Some b) f w = Inl (AssertFail e))
        \<and> (\<exists>e. Fiber_dtor t f w = Inl (AssertFail e)))"
  using assms
  by (auto simp: Fiber_reset_def Fiber_dtor_def fiber_ops Let_def safeFiberCountDesc_def todo_def
    ddg_assert_def fun_upd_def)

theorem Fiber_reset_and_dtor_witness:
  "\<exists>w :: unit fibers. \<exists>fb. heap w 0 = Some fb \<and> m_stack fb \<and> m_state fb = S_HOLD
    \<and> (\<exists>e. Fiber_dtor 1 0 w = Inl (AssertFail e))"
proof -
  let ?fb = "\<lparr>m_id = 1, m_stacksize = 4096, m_state = S_HOLD, m_stack = True, m_cb = None,
    m_ctx = CtxBody MainFunc BReturn\<rparr> :: unit fiber"
  let ?w = "(no_fibers\<lparr>heap := [0 \<mapsto> ?fb]\<rparr>) :: unit fibers"
  have "\<exists>e. Fiber_dtor 1 0 ?w = Inl (AssertFail e)"
    using Fiber_reset_and_dtor [of ?w 0 ?fb BReturn 1] by simp
  then show ?thesis by (intro exI [of _ ?w] exI [of _ ?fb]) simp
qed

text \<open>The names of the fiber states are read back as the state they name.\<close>

theorem State_FromString_ToString: "State_FromString (State_ToString s) = s"
  by (cases s) (simp_all add: State_ToString_def State_FromString_def)

end
