(* ===== verification/Scheduler.thy ===== *)
theory Scheduler
  imports Fiber "HOL-Library.Multiset" "HOL-Library.Sublist"
begin

text \<open>
  \<open>ddg/scheduler.h\<close> and \<open>ddg/scheduler.cc\<close>: the task queue and the loop that every worker
  thread runs. The scheduler objects live in a store next to the fibers, because the
  callbacks that run on the fibers schedule tasks themselves. \<open>IOManager\<close> overrides
  \<open>tickle\<close> and \<open>isStoped\<close>; the two virtual calls dispatch on \<open>iom\<close>, the part of the object
  that only an \<open>IOManager\<close> has. The queue's lock is a \<open>Mutex\<close> held by a scoped guard, so
  every block under it is one atomic step.
\<close>

section \<open>Tasks and the scheduler object\<close>

type_synonym sid = nat \<comment> \<open>the address of a scheduler object\<close>

text \<open>
  What a callback does to the rest of the library: it schedules a callback or a fiber on a
  scheduler, for a given thread (0: any). \<open>ARun\<close> is \<open>std::bind(&Scheduler::run, this)\<close>, the
  callback of the root fiber and of the worker threads; \<open>run\<close> is protected, no other
  callback can be made from it.
\<close>

datatype action = AScheduleCb sid "action body" u64 | AScheduleFiber sid fid u64 | ARun sid

record task = \<comment> \<open>\<open>FiberAndThread\<close>\<close>
  ft_fiber :: "fid option"
  ft_cb :: "action body option"
  ft_thread :: u64

record iom_part =
  pipe_bytes :: nat \<comment> \<open>unread bytes in the pipe \<open>m_tickle_fds\<close>\<close>
  m_pendingEventCount :: u64

record sched =
  sched_name :: string
  m_threads :: "tid option list"
  m_fibers :: "task list"
  m_rootFiber :: "fid option"
  m_threadIds :: "u64 list"
  m_threadCount :: u64
  m_activeThreadCount :: u64
  m_idleThreadCount :: u64
  m_stopping :: bool
  m_autoStop :: bool
  m_rootThread :: u64
  iom :: "iom_part option"

record sworld = "action fibers" +
  scheds :: "sid \<Rightarrow> sched option"
  t_scheduler :: "tid \<Rightarrow> sid option"

definition sched_at :: "sid \<Rightarrow> 'z sworld_scheme \<Rightarrow> sched result" where
  "sched_at s w = (case scheds w s of None \<Rightarrow> Inl (UB ''no such scheduler'') | Some sc \<Rightarrow> Inr sc)"

definition upd_sched :: "sid \<Rightarrow> (sched \<Rightarrow> sched) \<Rightarrow> 'z sworld_scheme \<Rightarrow> 'z sworld_scheme" where
  "upd_sched s g w = w\<lparr>scheds := (scheds w)(s := map_option g (scheds w s))\<rparr>"

section \<open>Virtual functions\<close>

definition hasIdleThreads :: "sched \<Rightarrow> bool" where
  "hasIdleThreads sc \<longleftrightarrow> m_idleThreadCount sc > 0"

text \<open>\<open>IOManager::tickle\<close>: one byte into the pipe when some thread is idle.\<close>

definition IOManager_tickle :: "iom_part \<Rightarrow> sched \<Rightarrow> sched" where
  "IOManager_tickle io sc =
     (if \<not> hasIdleThreads sc then sc else sc\<lparr>iom := Some (io\<lparr>pipe_bytes := pipe_bytes io + 1\<rparr>)\<rparr>)"

text \<open>\<open>Scheduler::tickle\<close> only logs.\<close>

definition tickle :: "sched \<Rightarrow> sched" where
  "tickle sc = (case iom sc of None \<Rightarrow> sc | Some io \<Rightarrow> IOManager_tickle io sc)"

definition Scheduler_isStoped :: "sched \<Rightarrow> bool" where
  "Scheduler_isStoped sc \<longleftrightarrow>
     m_autoStop sc \<and> m_stopping sc \<and> m_fibers sc = [] \<and> m_activeThreadCount sc = 0"

definition isStoped :: "sched \<Rightarrow> bool" where
  "isStoped sc \<longleftrightarrow>
     (case iom sc of None \<Rightarrow> Scheduler_isStoped sc
      | Some io \<Rightarrow> m_pendingEventCount io = 0 \<and> Scheduler_isStoped sc)"

section \<open>Scheduling\<close>

text \<open>
  The template \<open>schedule(fc, uint64_t thread)\<close> hands the thread id to
  \<open>scheduleNoLock(fc, int thread)\<close>, which hands it to a \<open>uint64_t\<close> member: the low 32 bits,
  sign-extended.
\<close>

definition thread_arg :: "u64 \<Rightarrow> u64" where
  "thread_arg thread = scast (ucast thread :: 32 word)"

definition FiberAndThread_fiber :: "fid option \<Rightarrow> u64 \<Rightarrow> task" where
  "FiberAndThread_fiber f thr = \<lparr>ft_fiber = f, ft_cb = None, ft_thread = thr\<rparr>"

definition FiberAndThread_cb :: "action body option \<Rightarrow> u64 \<Rightarrow> task" where
  "FiberAndThread_cb cb thr = \<lparr>ft_fiber = None, ft_cb = cb, ft_thread = thr\<rparr>"

definition scheduleNoLock :: "task \<Rightarrow> sched \<Rightarrow> bool \<times> sched" where
  "scheduleNoLock ft sc =
     (let sc1 = (if ft_fiber ft \<noteq> None \<or> ft_cb ft \<noteq> None
                 then sc\<lparr>m_fibers := m_fibers sc @ [ft]\<rparr> else sc)
      in (m_fibers sc1 \<noteq> [], sc1))"

definition schedule_ft :: "task \<Rightarrow> sched \<Rightarrow> sched" where
  "schedule_ft ft sc =
     (let (need_tickle, sc1) = scheduleNoLock ft sc in if need_tickle then tickle sc1 else sc1)"

definition schedule_cb :: "action body option \<Rightarrow> u64 \<Rightarrow> sched \<Rightarrow> sched" where
  "schedule_cb cb thread sc =
     (let (need_tickle, sc1) = scheduleNoLock (FiberAndThread_cb cb (thread_arg thread)) sc
      in if need_tickle then tickle sc1 else sc1)"

definition schedule_fiber :: "fid option \<Rightarrow> u64 \<Rightarrow> sched \<Rightarrow> sched" where
  "schedule_fiber f thread sc =
     (let (need_tickle, sc1) = scheduleNoLock (FiberAndThread_fiber f (thread_arg thread)) sc
      in if need_tickle then tickle sc1 else sc1)"

text \<open>
  \<open>schedule(begin, end)\<close> over a vector of callbacks: each one is swapped out of the vector
  into a task for any thread; the result is the vector of emptied callbacks too.
\<close>

fun schedule_loop :: "action body option list \<Rightarrow> bool \<Rightarrow> sched \<Rightarrow> bool \<times> action body option list \<times> sched" where
  "schedule_loop [] need_tickle sc = (need_tickle, [], sc)"
| "schedule_loop (cb # cbs) need_tickle sc =
     (let (nt, sc1) = scheduleNoLock (FiberAndThread_cb cb (thread_arg 0)) sc;
          (nt', cbs', sc2) = schedule_loop cbs (nt \<or> need_tickle) sc1
      in (nt', None # cbs', sc2))"

definition schedule_range :: "action body option list \<Rightarrow> sched \<Rightarrow> action body option list \<times> sched" where
  "schedule_range cbs sc =
     (let (need_tickle, cbs', sc1) = schedule_loop cbs False sc
      in (cbs', if need_tickle then tickle sc1 else sc1))"

text \<open>The meaning of a callback's actions.\<close>

fun sched_act :: "tid \<Rightarrow> action \<Rightarrow> sworld \<Rightarrow> sworld result" where
  "sched_act t (AScheduleCb s b thread) w =
     and_then (sched_at s w) (\<lambda>_. Inr (upd_sched s (schedule_cb (Some b) thread) w))"
| "sched_act t (AScheduleFiber s f thread) w =
     and_then (sched_at s w) (\<lambda>_. Inr (upd_sched s (schedule_fiber (Some f) thread) w))"
| "sched_act t (ARun s) w = Inl (UB ''Scheduler::run as a task'')"

section \<open>The scan of the queue\<close>

text \<open>
  The \<open>for\<close> loop over \<open>m_fibers\<close> in \<open>run\<close>: \<open>pre\<close> is the part of the list behind the
  iterator, the last list the part from the iterator on. An element pinned to this very
  thread is passed over. A fiber in state \<open>INIT\<close> or \<open>HOLD\<close> is made \<open>READY\<close> and passed over,
  one in state \<open>EXEC\<close> is passed over, one in any other state but \<open>READY\<close> is erased: the
  iterator then stands on the next element and the loop's own increment skips that one
  too, and there must be one to skip. The first other element is taken out of the list and
  ends the loop.
\<close>

fun scan :: "tid \<Rightarrow> bool \<Rightarrow> task list \<Rightarrow> task list \<Rightarrow> 'z sworld_scheme \<Rightarrow>
    (task option \<times> bool \<times> task list \<times> 'z sworld_scheme) result" where
  "scan t tickle_me pre [] w = Inr (None, tickle_me, pre, w)"
| "scan t tickle_me pre (x # xs) w =
     (if ft_thread x \<noteq> 0 \<and> ft_thread x = t then scan t True (pre @ [x]) xs w
      else case ft_fiber x of
        None \<Rightarrow> Inr (Some x, True, pre @ xs, w)
      | Some f \<Rightarrow> and_then (getState f w) (\<lambda>st.
          if st = S_INIT \<or> st = S_HOLD then scan t tickle_me (pre @ [x]) xs (setState f S_READY w)
          else if st = S_EXEC then scan t tickle_me (pre @ [x]) xs w
          else if st = S_READY then Inr (Some x, True, pre @ xs, w)
          else (case xs of
            [] \<Rightarrow> Inl (UB ''iterator moved past the end of m_fibers'')
          | y # ys \<Rightarrow> scan t tickle_me (pre @ [y]) ys w)))"

text \<open>The block under the queue's lock, with the counter that goes up when a task is taken.\<close>

definition take_task :: "tid \<Rightarrow> sid \<Rightarrow> 'z sworld_scheme \<Rightarrow> (task option \<times> bool \<times> 'z sworld_scheme) result" where
  "take_task t s w =
     and_then (sched_at s w) (\<lambda>sc.
     and_then (scan t False [] (m_fibers sc) w) (\<lambda>(found, tickle_me, q, w1).
       Inr (found, tickle_me,
         upd_sched s (\<lambda>sc. sc\<lparr>m_fibers := q,
           m_activeThreadCount := (if found = None then m_activeThreadCount sc
                                   else m_activeThreadCount sc + 1)\<rparr>) w1)))"

section \<open>The loop of a worker thread\<close>

text \<open>
  What follows the scan when a task was taken, in three parts, between which the other
  threads can see the state. A callback gets a fiber of its own, and the fiber is entered;
  the active count goes down; then the task is queued again if the fiber yielded as ready,
  and the fiber parked if it stopped in any other unfinished state.
\<close>

definition task_fiber :: "task \<Rightarrow> sworld \<Rightarrow> (fid \<times> task \<times> sworld) result" where
  "task_fiber ft w =
     (case ft_fiber ft of
        Some f \<Rightarrow> Inr (f, ft, w)
      | None \<Rightarrow> and_then (Fiber_new True (ft_cb ft) 0 False w) (\<lambda>(f, w1).
          Inr (f, ft\<lparr>ft_cb := None, ft_fiber := Some f\<rparr>, w1)))"

definition run_enter :: "tid \<Rightarrow> task \<Rightarrow> sworld \<Rightarrow> (fid \<times> task \<times> sworld) result" where
  "run_enter t ft w =
     and_then (task_fiber ft w) (\<lambda>(f, ft1, w1).
     and_then (swapIn sched_act t f (setState f S_READY w1)) (\<lambda>w2. Inr (f, ft1, w2)))"

definition run_account :: "sid \<Rightarrow> sworld \<Rightarrow> sworld" where
  "run_account s w = upd_sched s (\<lambda>sc. sc\<lparr>m_activeThreadCount := m_activeThreadCount sc - 1\<rparr>) w"

definition run_settle :: "sid \<Rightarrow> fid \<Rightarrow> task \<Rightarrow> sworld \<Rightarrow> sworld result" where
  "run_settle s f ft w =
     and_then (getState f w) (\<lambda>st.
        if st = S_READY then Inr (upd_sched s (schedule_ft ft) w)
        else if st \<noteq> S_TERM \<and> st \<noteq> S_EXCEPT then Inr (setState f S_HOLD w)
        else Inr w)"

definition run_task :: "tid \<Rightarrow> sid \<Rightarrow> task \<Rightarrow> sworld \<Rightarrow> sworld result" where
  "run_task t s ft w =
     and_then (run_enter t ft w) (\<lambda>(f, ft1, w1). run_settle s f ft1 (run_account s w1))"

text \<open>What follows a scan that found nothing: the idle fiber runs, or the loop ends.\<close>

datatype run_result = Continue "fid option" sworld | Break sworld

definition run_idle :: "tid \<Rightarrow> sid \<Rightarrow> fid option \<Rightarrow> sworld \<Rightarrow> run_result result" where
  "run_idle t s idle_ft w =
     (case idle_ft of
        None \<Rightarrow> Inr (Break w)
      | Some f \<Rightarrow>
          and_then (swapIn sched_act t f
              (upd_sched s (\<lambda>sc. sc\<lparr>m_idleThreadCount := m_idleThreadCount sc + 1\<rparr>) w)) (\<lambda>w1.
          let w2 = upd_sched s (\<lambda>sc. sc\<lparr>m_idleThreadCount := m_idleThreadCount sc - 1\<rparr>) w1
          in and_then (getState f w2) (\<lambda>st.
             if st = S_EXEC then Inr (Continue idle_ft (setState f S_HOLD w2))
             else if st = S_TERM \<or> st = S_EXCEPT then Inr (Continue None w2)
             else Inr (Continue idle_ft w2))))"

text \<open>One iteration of \<open>while (true)\<close>.\<close>

definition run_iter :: "tid \<Rightarrow> sid \<Rightarrow> fid option \<Rightarrow> sworld \<Rightarrow> run_result result" where
  "run_iter t s idle_ft w =
     and_then (take_task t s w) (\<lambda>(found, tickle_me, w1).
     let w2 = (if tickle_me then upd_sched s tickle w1 else w1)
     in case found of
          Some ft \<Rightarrow>
            if ft_fiber ft \<noteq> None \<or> ft_cb ft \<noteq> None
            then and_then (run_task t s ft w2) (\<lambda>w3. Inr (Continue idle_ft w3))
            else Inr (Continue idle_ft (run_account s w2))
        | None \<Rightarrow> run_idle t s idle_ft w2)"

fun run_loop :: "nat \<Rightarrow> tid \<Rightarrow> sid \<Rightarrow> fid option \<Rightarrow> sworld \<Rightarrow> sworld result" where
  "run_loop 0 t s idle_ft w = Inl OutOfFuel"
| "run_loop (Suc fuel) t s idle_ft w =
     (case run_iter t s idle_ft w of
        Inl e \<Rightarrow> Inl e
      | Inr (Break w1) \<Rightarrow> Inr w1
      | Inr (Continue idle1 w1) \<Rightarrow> run_loop fuel t s idle1 w1)"

text \<open>
  \<open>Scheduler::idle\<close> only logs and returns; \<open>iom_idle\<close> stands for the body of the override.
  The part of \<open>run\<close> before the loop, and \<open>run\<close>.
\<close>

definition idle_body :: "action body \<Rightarrow> sched \<Rightarrow> action body" where
  "idle_body iom_idle sc = (case iom sc of None \<Rightarrow> BReturn | Some _ \<Rightarrow> iom_idle)"

definition run_prologue :: "action body \<Rightarrow> tid \<Rightarrow> sid \<Rightarrow> sworld \<Rightarrow> (fid \<times> sworld) result" where
  "run_prologue iom_idle t s w =
     and_then (sched_at s w) (\<lambda>sc.
     let w1 = w\<lparr>t_scheduler := (t_scheduler w)(t := Some s)\<rparr>
     in and_then (if t \<noteq> m_rootThread sc
                  then and_then (GetThis t w1) (\<lambda>(f, w2).
                    Inr (w2\<lparr>t_scheduler_fiber := (t_scheduler_fiber w2)(t := Some f)\<rparr>))
                  else Inr w1) (\<lambda>w3.
        Fiber_new True (Some (idle_body iom_idle sc)) 0 False w3))"

definition run :: "action body \<Rightarrow> nat \<Rightarrow> tid \<Rightarrow> sid \<Rightarrow> sworld \<Rightarrow> sworld result" where
  "run iom_idle fuel t s w =
     and_then (run_prologue iom_idle t s w) (\<lambda>(f, w1). run_loop fuel t s (Some f) w1)"

text \<open>The actions of the root fiber's callback, and entering the root fiber.\<close>

fun root_act :: "action body \<Rightarrow> nat \<Rightarrow> tid \<Rightarrow> action \<Rightarrow> sworld \<Rightarrow> sworld result" where
  "root_act iom_idle fuel t (ARun s) w = run iom_idle fuel t s w"
| "root_act iom_idle fuel t a w = sched_act t a w"

section \<open>Construction, start and stop\<close>

text \<open>
  The constructor, for the object at address \<open>s\<close>; \<open>sub\<close> is the part that an \<open>IOManager\<close>
  adds. The thread's name, which \<open>SetName\<close> changes, is not part of this state.
\<close>

definition Scheduler_new ::
  "iom_part option \<Rightarrow> tid \<Rightarrow> sid \<Rightarrow> u64 \<Rightarrow> bool \<Rightarrow> string \<Rightarrow> 'z sworld_scheme \<Rightarrow> 'z sworld_scheme result" where
  "Scheduler_new sub t s threads use_caller name w =
     (let sc = \<lparr>sched_name = name, m_threads = [], m_fibers = [], m_rootFiber = None,
                m_threadIds = [], m_threadCount = 0, m_activeThreadCount = 0,
                m_idleThreadCount = 0, m_stopping = True, m_autoStop = False,
                m_rootThread = 0, iom = sub\<rparr>
      in and_then (ddg_assert ''threads > 0'' (threads > 0)) (\<lambda>_.
         if use_caller then
           and_then (GetThis t w) (\<lambda>(_, w1).
           and_then (ddg_assert ''GetThis() == nullptr'' (t_scheduler w1 t = None)) (\<lambda>_.
           let w2 = w1\<lparr>t_scheduler := (t_scheduler w1)(t := Some s)\<rparr>
           in and_then (Fiber_new True (Some (BDo (ARun s) BReturn)) 0 True w2) (\<lambda>(f, w3).
              Inr (w3\<lparr>t_scheduler_fiber := (t_scheduler_fiber w3)(t := Some f),
                      scheds := (scheds w3)(s := Some (sc\<lparr>m_rootFiber := Some f,
                        m_rootThread := t, m_threadIds := [t], m_threadCount := threads - 1\<rparr>))\<rparr>))))
         else Inr (w\<lparr>scheds := (scheds w)(s := Some (sc\<lparr>m_threadCount := threads\<rparr>))\<rparr>)))"

text \<open>
  The loop of \<open>start\<close>: \<open>spawn i\<close> is the id of the thread that \<open>pthread_create\<close> makes for the
  \<open>i\<close>-th worker, or nothing when it fails, which the thread's constructor turns into an
  exception.
\<close>

fun start_loop :: "(nat \<Rightarrow> tid option) \<Rightarrow> nat \<Rightarrow> nat \<Rightarrow> sched \<Rightarrow> sched result" where
  "start_loop spawn i 0 sc = Inr sc"
| "start_loop spawn i (Suc n) sc =
     (case spawn i of
        None \<Rightarrow> Inl (Exn ''pthread_create error'')
      | Some u \<Rightarrow> start_loop spawn (Suc i) n
          (sc\<lparr>m_threads := (m_threads sc)[i := Some u], m_threadIds := m_threadIds sc @ [u]\<rparr>))"

definition start :: "(nat \<Rightarrow> tid option) \<Rightarrow> sched \<Rightarrow> sched result" where
  "start spawn sc =
     (let sc1 = sc\<lparr>m_stopping := False\<rparr>
      in and_then (ddg_assert ''m_threads.empty()'' (m_threads sc1 = [])) (\<lambda>_.
         start_loop spawn 0 (unat (m_threadCount sc1))
           (sc1\<lparr>m_threads := replicate (unat (m_threadCount sc1)) None\<rparr>)))"

text \<open>
  \<open>stop\<close>, in four steps: the early returns; the assertions, the flag and the wake-ups; the
  root fiber, which joins the scheduling of the caller's thread; and the joins, after which
  no worker is left.
\<close>

definition stop_early :: "sid \<Rightarrow> sworld \<Rightarrow> (bool \<times> sworld) result" where
  "stop_early s w =
     and_then (sched_at s w) (\<lambda>sc.
     let sc1 = sc\<lparr>m_autoStop := True\<rparr>; w1 = upd_sched s (\<lambda>_. sc1) w
     in if isStoped sc1 then Inr (True, w1)
        else case m_rootFiber sc1 of
          None \<Rightarrow> Inr (False, w1)
        | Some f \<Rightarrow> and_then (getState f w1) (\<lambda>st.
            if st = S_TERM \<or> st = S_EXCEPT
            then (let sc2 = sc1\<lparr>m_stopping := True\<rparr>
                  in Inr (isStoped sc2, upd_sched s (\<lambda>_. sc2) w1))
            else Inr (False, w1)))"

definition stop_signal :: "tid \<Rightarrow> sid \<Rightarrow> sworld \<Rightarrow> sworld result" where
  "stop_signal t s w =
     and_then (sched_at s w) (\<lambda>sc.
     and_then (if m_rootThread sc \<noteq> 0
               then ddg_assert ''GetThis() == this'' (t_scheduler w t = Some s)
               else ddg_assert ''GetThis() != this'' (t_scheduler w t \<noteq> Some s)) (\<lambda>_.
     let sc1 = (tickle ^^ unat (m_threadCount sc)) (sc\<lparr>m_stopping := True\<rparr>);
         sc2 = (if m_rootFiber sc1 \<noteq> None then tickle sc1 else sc1)
     in Inr (upd_sched s (\<lambda>_. sc2) w)))"

definition stop_root :: "action body \<Rightarrow> nat \<Rightarrow> tid \<Rightarrow> sid \<Rightarrow> sworld \<Rightarrow> sworld result" where
  "stop_root iom_idle fuel t s w =
     and_then (sched_at s w) (\<lambda>sc.
     case m_rootFiber sc of
       None \<Rightarrow> Inr w
     | Some f \<Rightarrow>
         let w1 = setState f S_EXEC w
         in if \<not> isStoped sc then Fiber_call (root_act iom_idle fuel) t f w1 else Inr w1)"

definition stop :: "action body \<Rightarrow> nat \<Rightarrow> tid \<Rightarrow> sid \<Rightarrow> sworld \<Rightarrow> sworld result" where
  "stop iom_idle fuel t s w =
     and_then (stop_early s w) (\<lambda>(stopped, w1).
     if stopped then Inr w1
     else and_then (stop_signal t s w1) (\<lambda>w2.
          and_then (stop_root iom_idle fuel t s w2) (\<lambda>w3.
          Inr (upd_sched s (\<lambda>sc. sc\<lparr>m_threads := []\<rparr>) w3))))"

section \<open>Elementary facts\<close>

lemma scheds_upd_sched [simp]:
  "scheds (upd_sched s g w) = (scheds w)(s := map_option g (scheds w s))"
  by (simp add: upd_sched_def)

lemma upd_sched_frame [simp]:
  "heap (upd_sched s g w) = heap w"
  "next_fid (upd_sched s g w) = next_fid w"
  "t_fiber (upd_sched s g w) = t_fiber w"
  "t_threadFiber (upd_sched s g w) = t_threadFiber w"
  "t_scheduler_fiber (upd_sched s g w) = t_scheduler_fiber w"
  "t_scheduler (upd_sched s g w) = t_scheduler w"
  by (simp_all add: upd_sched_def)

lemma sched_at_Inr [simp]: "sched_at s w = Inr sc \<longleftrightarrow> scheds w s = Some sc"
  by (auto simp: sched_at_def split: option.splits)

lemma sched_at_Some: "scheds w s = Some sc \<Longrightarrow> sched_at s w = Inr sc"
  by simp

text \<open>An action is possible when it schedules on a scheduler that exists.\<close>

fun action_ok :: "action \<Rightarrow> sworld \<Rightarrow> bool" where
  "action_ok (AScheduleCb s b thread) w \<longleftrightarrow> scheds w s \<noteq> None"
| "action_ok (AScheduleFiber s f thread) w \<longleftrightarrow> scheds w s \<noteq> None"
| "action_ok (ARun s) w \<longleftrightarrow> False"

lemma sched_act_returns:
  "action_ok a w \<Longrightarrow> \<exists>w'. sched_act t a w = Inr w' \<and> same_fibers w w'"
  by (cases a) (auto simp: sched_at_Some same_fibers_def)

lemma sched_act_kept: "sched_act t a w = Inr w' \<Longrightarrow> action_ok a' w \<Longrightarrow> action_ok a' w'"
  by (cases a; cases a') auto

lemma sworld_scheds_more: "fibers.more w' = fibers.more w \<Longrightarrow> scheds w' = scheds (w :: sworld)"
  by (cases w; cases w') simp

lemma action_ok_more: "fibers.more w' = fibers.more w \<Longrightarrow> action_ok a w' = action_ok a w"
  by (cases a) (auto dest: sworld_scheds_more)

interpretation sa: fiber_actions sched_act action_ok
  by unfold_locales (use sched_act_returns sched_act_kept action_ok_more in blast)+

section \<open>What one scan does to the queue\<close>

text \<open>A task that holds a fiber that is over (or was never initialised).\<close>

definition live_state :: "State \<Rightarrow> bool" where
  "live_state st \<longleftrightarrow> st \<in> {S_INIT, S_HOLD, S_EXEC, S_READY}"

definition task_over :: "'z sworld_scheme \<Rightarrow> task \<Rightarrow> bool" where
  "task_over w x \<longleftrightarrow>
     (\<exists>f fb. ft_fiber x = Some f \<and> heap w f = Some fb \<and> \<not> live_state (m_state fb))"

text \<open>The change a scan makes to the fibers: some that were \<open>INIT\<close> or \<open>HOLD\<close> are \<open>READY\<close>.\<close>

definition promoted_to :: "'a fiber option \<Rightarrow> 'a fiber option \<Rightarrow> bool" where
  "promoted_to o1 o2 \<longleftrightarrow> o2 = o1 \<or>
     (\<exists>fb. o1 = Some fb \<and> m_state fb \<in> {S_INIT, S_HOLD} \<and> o2 = Some (fb\<lparr>m_state := S_READY\<rparr>))"

definition promoted :: "'z sworld_scheme \<Rightarrow> 'z sworld_scheme \<Rightarrow> bool" where
  "promoted w w' \<longleftrightarrow> w' = w\<lparr>heap := heap w'\<rparr> \<and> (\<forall>g. promoted_to (heap w g) (heap w' g))"

lemma promoted_to_refl [simp]: "promoted_to x x"
  by (simp add: promoted_to_def)

lemma promoted_to_trans: "promoted_to x y \<Longrightarrow> promoted_to y z \<Longrightarrow> promoted_to x z"
  by (auto simp: promoted_to_def)

lemma promoted_refl [simp]: "promoted w w"
  by (simp add: promoted_def)

lemma promoted_setState:
  "getState f w = Inr st \<Longrightarrow> st = S_INIT \<or> st = S_HOLD \<Longrightarrow> promoted w (setState f S_READY w)"
  by (auto simp: promoted_def promoted_to_def getState_def setState_def upd_fiber_def)

lemma promoted_ready:
  "heap w f = Some fb \<Longrightarrow> m_state fb \<in> {S_INIT, S_HOLD} \<Longrightarrow> promoted w (setState f S_READY w)"
  by (rule promoted_setState [where st = "m_state fb"]) (auto simp: getState_Some)

lemma promoted_trans:
  assumes "promoted w w1" "promoted w1 w2" shows "promoted w w2"
proof -
  have "w2 = w1\<lparr>heap := heap w2\<rparr>" "w1 = w\<lparr>heap := heap w1\<rparr>"
    using assms by (simp_all add: promoted_def)
  then have "w2 = w\<lparr>heap := heap w2\<rparr>"
    by (metis fibers.update_convs(1) fibers.surjective fibers.select_convs fibers.ext_inject)
  then show ?thesis using assms promoted_to_trans unfolding promoted_def by blast
qed

lemma promoted_to_over:
  "promoted_to (heap w f) (heap w' f) \<Longrightarrow>
    (\<exists>fb. heap w' f = Some fb \<and> \<not> live_state (m_state fb)) = (\<exists>fb. heap w f = Some fb \<and> \<not> live_state (m_state fb))"
  by (cases "heap w f"; cases "heap w' f") (auto simp: promoted_to_def live_state_def)

lemma promoted_over: "promoted w w' \<Longrightarrow> task_over w' x = task_over w x"
  unfolding task_over_def promoted_def
  by (cases "ft_fiber x") (simp_all add: promoted_to_over)

text \<open>The six ways the loop body treats the task at the iterator.\<close>

lemma scan_Cons_cases:
  assumes "scan t tm pre (x # xs) w = Inr (found, tm', q, w')"
  obtains
    (pinned) "ft_thread x \<noteq> 0" "ft_thread x = t" "scan t True (pre @ [x]) xs w = Inr (found, tm', q, w')"
  | (callback) "ft_thread x = 0 \<or> ft_thread x \<noteq> t" "ft_fiber x = None"
      "found = Some x" "tm'" "q = pre @ xs" "w' = w"
  | (promote) f fb where "ft_thread x = 0 \<or> ft_thread x \<noteq> t" "ft_fiber x = Some f"
      "heap w f = Some fb" "m_state fb \<in> {S_INIT, S_HOLD}"
      "scan t tm (pre @ [x]) xs (setState f S_READY w) = Inr (found, tm', q, w')"
  | (running) f fb where "ft_thread x = 0 \<or> ft_thread x \<noteq> t" "ft_fiber x = Some f"
      "heap w f = Some fb" "m_state fb = S_EXEC" "scan t tm (pre @ [x]) xs w = Inr (found, tm', q, w')"
  | (ready) f fb where "ft_thread x = 0 \<or> ft_thread x \<noteq> t" "ft_fiber x = Some f"
      "heap w f = Some fb" "m_state fb = S_READY" "found = Some x" "tm'" "q = pre @ xs" "w' = w"
  | (over) f fb y ys where "ft_thread x = 0 \<or> ft_thread x \<noteq> t" "ft_fiber x = Some f"
      "heap w f = Some fb" "\<not> live_state (m_state fb)" "xs = y # ys"
      "scan t tm (pre @ [y]) ys w = Inr (found, tm', q, w')"
proof (cases "ft_thread x \<noteq> 0 \<and> ft_thread x = t")
  case True
  with assms pinned show thesis by auto
next
  case unpinned: False
  show thesis
  proof (cases "ft_fiber x")
    case None
    with assms unpinned callback show thesis by simp
  next
    case (Some f)
    with assms unpinned obtain fb where fb: "heap w f = Some fb"
      by (auto simp: getState_def)
    with assms unpinned Some promote [OF _ Some fb] running [OF _ Some fb] ready [OF _ Some fb]
      over [OF _ Some fb] show thesis
      by (auto simp: getState_Some live_state_def split: if_splits list.splits)
  qed
qed

text \<open>
  Nothing is lost, nothing is made twice and the order is kept: the queue is the tasks
  behind the iterator and ahead of it, less the one found and some whose fiber is over.
\<close>

lemma scan_conserves:
  "scan t tm pre xs w = Inr (found, tm', q, w') \<Longrightarrow>
     \<exists>dropped kept. q = pre @ kept \<and> subseq kept xs
       \<and> mset xs = mset kept + mset (case found of None \<Rightarrow> [] | Some x \<Rightarrow> [x]) + mset dropped
       \<and> (\<forall>x \<in> set dropped. task_over w x) \<and> promoted w w'"
proof (induction "length xs" arbitrary: tm pre xs w rule: less_induct)
  case less
  show ?case
  proof (cases xs)
    case Nil
    with less.prems show ?thesis by auto
  next
    case (Cons x xs')
    from less.prems [unfolded Cons] show ?thesis
    proof (cases rule: scan_Cons_cases)
      case pinned
      from less.hyps [OF _ pinned(3)] Cons show ?thesis by fastforce
    next
      case callback
      with Cons show ?thesis by (intro exI [of _ "[]"] exI [of _ xs']) auto
    next
      case (promote f fb)
      then have p: "promoted w (setState f S_READY w)"
        by (blast intro: promoted_ready)
      from less.hyps [OF _ promote(5)] Cons obtain dropped kept where
        "q = (pre @ [x]) @ kept" "subseq kept xs'"
        "mset xs' = mset kept + mset (case found of None \<Rightarrow> [] | Some x \<Rightarrow> [x]) + mset dropped"
        "\<forall>x \<in> set dropped. task_over (setState f S_READY w) x" "promoted (setState f S_READY w) w'"
        by auto
      with p Cons show ?thesis
        by (intro exI [of _ dropped] exI [of _ "x # kept"])
          (auto simp: promoted_over [OF p] intro: promoted_trans)
    next
      case (running f fb)
      from less.hyps [OF _ running(5)] Cons show ?thesis by fastforce
    next
      case (ready f fb)
      with Cons show ?thesis by (intro exI [of _ "[]"] exI [of _ xs']) auto
    next
      case (over f fb y ys)
      from less.hyps [OF _ over(6)] Cons over(5) obtain dropped kept where
        "q = (pre @ [y]) @ kept" "subseq kept ys"
        "mset ys = mset kept + mset (case found of None \<Rightarrow> [] | Some x \<Rightarrow> [x]) + mset dropped"
        "\<forall>x \<in> set dropped. task_over w x" "promoted w w'"
        by auto
      with over Cons show ?thesis
        by (intro exI [of _ "x # dropped"] exI [of _ "y # kept"]) (auto simp: task_over_def)
    qed
  qed
qed

text \<open>What is found can run: it is not pinned to this thread, and is a callback or a ready fiber.\<close>

lemma scan_found:
  "scan t tm pre xs w = Inr (Some x, tm', q, w') \<Longrightarrow>
     x \<in> set xs \<and> tm' \<and> (ft_thread x = 0 \<or> ft_thread x \<noteq> t)
     \<and> (case ft_fiber x of None \<Rightarrow> True | Some f \<Rightarrow> \<exists>fb. heap w' f = Some fb \<and> m_state fb = S_READY)"
proof (induction "length xs" arbitrary: tm pre xs w rule: less_induct)
  case less
  show ?case
  proof (cases xs)
    case Nil
    with less.prems show ?thesis by auto
  next
    case (Cons y xs')
    from less.prems [unfolded Cons] show ?thesis
    proof (cases rule: scan_Cons_cases)
      case pinned
      from less.hyps [OF _ pinned(3)] Cons show ?thesis by simp
    next
      case (promote f fb)
      from less.hyps [OF _ promote(5)] Cons show ?thesis by simp
    next
      case (running f fb)
      from less.hyps [OF _ running(5)] Cons show ?thesis by simp
    next
      case (over f fb y' ys)
      from less.hyps [OF _ over(6)] Cons over(5) show ?thesis by simp
    qed (use Cons in auto)
  qed
qed

text \<open>
  What an unsuccessful scan leaves behind, when no queued fiber is over: tasks pinned to this
  thread, fibers that are running, and fibers that are now ready.
\<close>

definition passed_over :: "tid \<Rightarrow> 'z sworld_scheme \<Rightarrow> task \<Rightarrow> bool" where
  "passed_over t w x \<longleftrightarrow> ft_thread x \<noteq> 0 \<and> ft_thread x = t \<or>
     (\<exists>f fb. ft_fiber x = Some f \<and> heap w f = Some fb \<and> m_state fb \<in> {S_EXEC, S_READY})"

lemma promoted_to_ready:
  "promoted_to x y \<Longrightarrow> x = Some fb \<Longrightarrow> m_state fb \<in> {S_EXEC, S_READY} \<Longrightarrow> y = Some fb"
  by (auto simp: promoted_to_def)

lemma passed_over_promoted: "promoted w w' \<Longrightarrow> passed_over t w x \<Longrightarrow> passed_over t w' x"
  unfolding passed_over_def promoted_def by (metis promoted_to_ready)

lemma scan_none:
  "scan t tm pre xs w = Inr (None, tm', q, w') \<Longrightarrow> \<forall>x \<in> set xs. \<not> task_over w x \<Longrightarrow>
     q = pre @ xs \<and> (\<forall>x \<in> set xs. passed_over t w' x)"
proof (induction "length xs" arbitrary: tm pre xs w rule: less_induct)
  case less
  show ?case
  proof (cases xs)
    case Nil
    with less.prems show ?thesis by auto
  next
    case (Cons x xs')
    from less.prems(1) [unfolded Cons] show ?thesis
    proof (cases rule: scan_Cons_cases)
      case pinned
      from less.hyps [OF _ pinned(3)] Cons less.prems(2) pinned(1,2) show ?thesis
        by (simp add: passed_over_def)
    next
      case (promote f fb)
      have p: "promoted w (setState f S_READY w)"
        using promote by (blast intro: promoted_ready)
      have "passed_over t (setState f S_READY w) x"
        using promote(2,3) by (simp add: passed_over_def fiber_ops)
      moreover from scan_conserves [OF promote(5)] have "promoted (setState f S_READY w) w'" by blast
      ultimately show ?thesis
        using less.hyps [OF _ promote(5)] Cons less.prems(2) passed_over_promoted
        by (auto simp: promoted_over [OF p])
    next
      case (running f fb)
      then have "passed_over t w x" by (simp add: passed_over_def)
      moreover from scan_conserves [OF running(5)] have "promoted w w'" by blast
      ultimately show ?thesis
        using less.hyps [OF _ running(5)] Cons less.prems(2) passed_over_promoted by auto
    next
      case (over f fb y ys)
      with less.prems(2) Cons show ?thesis by (auto simp: task_over_def)
    qed auto
  qed
qed

text \<open>A second scan finds a task, if there was one that can run here at all.\<close>

lemma scan_ready_prefix:
  "\<forall>x \<in> set xs. passed_over t w x \<Longrightarrow> x \<in> set xs \<Longrightarrow> ft_thread x = 0 \<or> ft_thread x \<noteq> t \<Longrightarrow>
     ft_fiber x = Some f \<Longrightarrow> heap w f = Some fb \<Longrightarrow> m_state fb = S_READY \<Longrightarrow>
     \<exists>y q. scan t tm pre xs w = Inr (Some y, True, q, w)"
proof (induction xs arbitrary: tm pre)
  case (Cons y xs)
  show ?case
  proof (cases "ft_thread y \<noteq> 0 \<and> ft_thread y = t")
    case True
    with Cons.prems Cons.IH show ?thesis by auto
  next
    case False
    with Cons.prems(1) obtain g gb where g: "ft_fiber y = Some g" "heap w g = Some gb"
      "m_state gb = S_EXEC \<or> m_state gb = S_READY"
      by (auto simp: passed_over_def)
    from g(3) show ?thesis
    proof
      assume "m_state gb = S_EXEC"
      with Cons False g show ?thesis by (auto simp: getState_Some)
    next
      assume "m_state gb = S_READY"
      with False g show ?thesis by (auto simp: getState_Some)
    qed
  qed
qed simp

lemma take_task_scan:
  assumes "take_task t s w = Inr (found, tm, w')" and "scheds w s = Some sc"
  obtains q w1 where "scan t False [] (m_fibers sc) w = Inr (found, tm, q, w1)"
    and "w' = upd_sched s (\<lambda>sc. sc\<lparr>m_fibers := q,
           m_activeThreadCount := (if found = None then m_activeThreadCount sc
                                   else m_activeThreadCount sc + 1)\<rparr>) w1"
  using assms by (auto simp: take_task_def sched_at_Some)

lemma promoted_scheds:
  assumes "promoted w w'" shows "scheds w' = scheds w"
proof -
  have "scheds (w\<lparr>heap := h\<rparr>) = scheds w" for h by simp
  moreover have "w' = w\<lparr>heap := heap w'\<rparr>" using assms by (simp add: promoted_def)
  ultimately show ?thesis by metis
qed

lemma scan_total:
  "\<forall>x \<in> set xs. \<not> task_over w x \<and> (\<forall>f. ft_fiber x = Some f \<longrightarrow> heap w f \<noteq> None) \<Longrightarrow>
     \<exists>r. scan t tm pre xs w = Inr r"
proof (induction xs arbitrary: tm pre w)
  case (Cons x xs)
  show ?case
  proof (cases "ft_fiber x")
    case None
    with Cons show ?thesis by auto
  next
    case (Some f)
    with Cons.prems obtain fb where fb: "heap w f = Some fb" by auto
    have live: "live_state (m_state fb)"
      using Cons.prems Some fb by (auto simp: task_over_def)
    have rest: "\<forall>x \<in> set xs. \<not> task_over w' x \<and> (\<forall>f. ft_fiber x = Some f \<longrightarrow> heap w' f \<noteq> None)"
      if "w' = w \<or> w' = setState f S_READY w \<and> m_state fb \<in> {S_INIT, S_HOLD}" for w'
    proof -
      have "promoted w w'"
        using that promoted_ready [OF fb] by auto
      then show ?thesis
        using that Cons.prems fb by (auto simp: promoted_over fiber_ops)
    qed
    have "\<exists>r. scan t b p xs w = Inr r" for b p
      using rest [of w] by (intro Cons.IH) auto
    moreover have "\<exists>r. scan t b p xs (setState f S_READY w) = Inr r" if "m_state fb \<in> {S_INIT, S_HOLD}" for b p
      using rest [of "setState f S_READY w"] that by (intro Cons.IH) auto
    ultimately show ?thesis
      using Some live by (auto simp: getState_Some [OF fb] live_state_def)
  qed
qed simp

text \<open>A store with one plain scheduler, a given queue and given fibers, for examples.\<close>

definition one_sched :: "task list \<Rightarrow> (fid \<Rightarrow> action fiber option) \<Rightarrow> sworld" where
  "one_sched q h = \<lparr>heap = h, next_fid = 100, s_fiber_id = 0, s_fiber_id_set = {}, s_fiber_count = 0,
     g_fiber_stack_size = 4096, t_fiber = Map.empty, t_threadFiber = Map.empty,
     t_scheduler_fiber = Map.empty,
     scheds = [0 \<mapsto> \<lparr>sched_name = ''s'', m_threads = [], m_fibers = q, m_rootFiber = None,
       m_threadIds = [], m_threadCount = 1, m_activeThreadCount = 0, m_idleThreadCount = 0,
       m_stopping = False, m_autoStop = False, m_rootThread = 0, iom = None\<rparr>],
     t_scheduler = Map.empty\<rparr>"

definition plain_fiber :: "State \<Rightarrow> action body \<Rightarrow> action fiber" where
  "plain_fiber st b = \<lparr>m_id = 1, m_stacksize = 4096, m_state = st, m_stack = True, m_cb = Some b,
     m_ctx = CtxEntry MainFunc\<rparr>"

lemma one_sched_simps [simp]:
  "heap (one_sched q h) = h" "next_fid (one_sched q h) = 100"
  "scheds (one_sched q h) s = (if s = 0 then Some \<lparr>sched_name = ''s'', m_threads = [], m_fibers = q,
      m_rootFiber = None, m_threadIds = [], m_threadCount = 1, m_activeThreadCount = 0,
      m_idleThreadCount = 0, m_stopping = False, m_autoStop = False, m_rootThread = 0,
      iom = None\<rparr> else None)"
  by (simp_all add: one_sched_def)

section \<open>Properties\<close>

text \<open>
  C2: taking a task conserves the queue. Whenever the scan of a worker thread returns, every task
  that was queued is, with its multiplicity, still queued, or it is the task the thread took
  (the active count went up by one exactly then), or its fiber is over; the tasks left keep
  their order, and all that happens to the fibers is that some \<open>INIT\<close> or \<open>HOLD\<close> ones become
  \<open>READY\<close>.
\<close>

theorem take_task_conserves:
  assumes "take_task t s w = Inr (found, tm, w')" and "scheds w s = Some sc"
  shows "\<exists>sc' dropped. scheds w' s = Some sc'
    \<and> mset (m_fibers sc) = mset (m_fibers sc') + mset (case found of None \<Rightarrow> [] | Some x \<Rightarrow> [x])
        + mset dropped
    \<and> subseq (m_fibers sc') (m_fibers sc)
    \<and> (\<forall>x \<in> set dropped. task_over w x)
    \<and> m_activeThreadCount sc' = m_activeThreadCount sc + (if found = None then 0 else 1)
    \<and> (\<forall>g. promoted_to (heap w g) (heap w' g))"
proof -
  from assms obtain q w1 where q: "scan t False [] (m_fibers sc) w = Inr (found, tm, q, w1)"
    and w': "w' = upd_sched s (\<lambda>sc. sc\<lparr>m_fibers := q,
           m_activeThreadCount := (if found = None then m_activeThreadCount sc
                                   else m_activeThreadCount sc + 1)\<rparr>) w1"
    by (rule take_task_scan)
  from scan_conserves [OF q] obtain dropped where
    "subseq q (m_fibers sc)" "mset (m_fibers sc) = mset q
      + mset (case found of None \<Rightarrow> [] | Some x \<Rightarrow> [x]) + mset dropped"
    "\<forall>x \<in> set dropped. task_over w x" "promoted w w1"
    by auto
  then show ?thesis
    using assms(2) promoted_scheds [of w w1] unfolding w' promoted_def
    by (intro exI [of _ "sc\<lparr>m_fibers := q, m_activeThreadCount :=
          (if found = None then m_activeThreadCount sc else m_activeThreadCount sc + 1)\<rparr>"] exI [of _ dropped]) auto
qed

theorem take_task_conserves_witness:
  "\<exists>w'. take_task 7 0 (one_sched [FiberAndThread_fiber (Some 1) 0, FiberAndThread_cb (Some BReturn) 0]
        [1 \<mapsto> plain_fiber S_INIT BReturn]) = Inr (Some (FiberAndThread_cb (Some BReturn) 0), True, w')
    \<and> (\<exists>sc'. scheds w' 0 = Some sc' \<and> m_activeThreadCount sc' = 1)"
  (is "\<exists>w'. take_task 7 0 ?w = Inr (?f, True, w') \<and> _")
proof -
  obtain w' where w': "take_task 7 0 ?w = Inr (?f, True, w')"
    by (simp add: take_task_def sched_at_Some FiberAndThread_fiber_def FiberAndThread_cb_def
      getState_Some plain_fiber_def)
  with take_task_conserves [OF w'] show ?thesis by auto
qed

text \<open>
  Which thread runs a pinned task. The scan of thread \<open>t\<close> never takes a task that was scheduled
  for thread \<open>t\<close>; what it takes can run: a callback, or a fiber that is ready.
\<close>

theorem take_task_never_own:
  assumes "take_task t s w = Inr (Some x, tm, w')" and "scheds w s = Some sc"
  shows "x \<in> set (m_fibers sc) \<and> tm \<and> (ft_thread x = 0 \<or> ft_thread x \<noteq> t)
    \<and> (\<forall>f. ft_fiber x = Some f \<longrightarrow> (\<exists>fb. heap w' f = Some fb \<and> m_state fb = S_READY))"
proof -
  from assms obtain q w1 where "scan t False [] (m_fibers sc) w = Inr (Some x, tm, q, w1)"
    and w': "heap w' = heap w1"
    by (rule take_task_scan) simp
  from scan_found [OF this(1)] w' show ?thesis by (auto split: option.splits)
qed

theorem take_task_never_own_witness:
  "\<exists>x w'. take_task 7 0 (one_sched [FiberAndThread_cb (Some BReturn) 7, FiberAndThread_cb (Some BReturn) 8]
      Map.empty) = Inr (Some x, True, w') \<and> ft_thread x \<noteq> 7"
  (is "\<exists>x w'. take_task 7 0 ?w = _ \<and> _")
proof -
  obtain x w' where w': "take_task 7 0 ?w = Inr (Some x, True, w')" "ft_thread x = 8"
    by (simp add: take_task_def sched_at_Some FiberAndThread_cb_def)
  with take_task_never_own [OF w'(1)] show ?thesis by auto
qed

text \<open>
  A callback scheduled for thread \<open>u\<close> alone in the queue is left there by every scan of
  thread \<open>u\<close>, and taken by the first scan of any other thread.
\<close>

theorem pinned_task_runs_elsewhere:
  assumes "scheds w s = Some sc" and "m_fibers sc = [x]" and "ft_fiber x = None"
    and "ft_thread x = u" and "u \<noteq> 0" and "t \<noteq> u"
  shows "(\<exists>w'. take_task u s w = Inr (None, True, w') \<and> scheds w' s = Some sc)
    \<and> (\<exists>w' sc'. take_task t s w = Inr (Some x, True, w') \<and> scheds w' s = Some sc' \<and> m_fibers sc' = [])"
  using assms by (auto simp: take_task_def sched_at_Some)

theorem pinned_task_runs_elsewhere_witness:
  "\<exists>w' w''. take_task 7 0 (one_sched [FiberAndThread_cb (Some BReturn) 7] Map.empty) = Inr (None, True, w')
    \<and> take_task 8 0 (one_sched [FiberAndThread_cb (Some BReturn) 7] Map.empty)
        = Inr (Some (FiberAndThread_cb (Some BReturn) 7), True, w'')"
  using pinned_task_runs_elsewhere [of "one_sched [FiberAndThread_cb (Some BReturn) 7] Map.empty" 0
      _ "FiberAndThread_cb (Some BReturn) 7" 7 8]
  by (auto simp: FiberAndThread_cb_def)

text \<open>
  A queued task does not wait for ever. If no queued fiber is over, and some task that is not
  pinned to this thread is a callback or a fiber that is not running, then one of any two
  scans in a row of this thread takes a task.
\<close>

theorem two_scans_take_a_task:
  assumes sc: "scheds w s = Some sc"
    and queue: "\<forall>y \<in> set (m_fibers sc). \<not> task_over w y \<and> (\<forall>f. ft_fiber y = Some f \<longrightarrow> heap w f \<noteq> None)"
    and x: "x \<in> set (m_fibers sc)" "ft_thread x = 0 \<or> ft_thread x \<noteq> t"
    and runnable: "\<forall>f fb. ft_fiber x = Some f \<longrightarrow> heap w f = Some fb \<longrightarrow> m_state fb \<noteq> S_EXEC"
  shows "\<exists>y w1. take_task t s w = Inr (Some y, True, w1)
    \<or> (\<exists>tm w2. take_task t s w = Inr (None, tm, w1) \<and> take_task t s w1 = Inr (Some y, True, w2))"
proof -
  obtain found tm q w1 where first: "scan t False [] (m_fibers sc) w = Inr (found, tm, q, w1)"
    using scan_total [OF queue] by (metis prod_cases4)
  show ?thesis
  proof (cases found)
    case (Some y)
    with first scan_found [of t False "[]" "m_fibers sc" w y tm q w1] sc show ?thesis
      by (auto simp: take_task_def sched_at_Some)
  next
    case None
    from scan_none [OF first [unfolded None]] queue
    have q: "q = m_fibers sc" and passed: "\<forall>y \<in> set q. passed_over t w1 y" by auto
    from passed q x obtain f fb where f: "ft_fiber x = Some f" "heap w1 f = Some fb"
      "m_state fb \<in> {S_EXEC, S_READY}"
      by (auto simp: passed_over_def)
    have p: "promoted w w1" using scan_conserves [OF first] by blast
    have "promoted_to (heap w f) (heap w1 f)" using p by (simp add: promoted_def)
    with f runnable have ready: "m_state fb = S_READY"
      by (auto simp: promoted_to_def)
    let ?w1 = "upd_sched s (\<lambda>sc. sc\<lparr>m_fibers := q, m_activeThreadCount := m_activeThreadCount sc\<rparr>) w1"
    have sc1: "scheds ?w1 s = Some (sc\<lparr>m_fibers := q\<rparr>)"
      using sc promoted_scheds [OF p] by simp
    obtain y q2 where "scan t False [] q ?w1 = Inr (Some y, True, q2, ?w1)"
      using scan_ready_prefix [of q t ?w1 x f fb False "[]"] passed q x f ready
      by (auto simp: passed_over_def)
    then show ?thesis
      using None first sc sc1 by (auto simp: take_task_def sched_at_Some)
  qed
qed

theorem two_scans_take_a_task_witness:
  "\<exists>y w1. take_task 7 0 (one_sched [FiberAndThread_fiber (Some 1) 0] [1 \<mapsto> plain_fiber S_INIT BReturn])
        = Inr (Some y, True, w1)
    \<or> (\<exists>tm w2. take_task 7 0 (one_sched [FiberAndThread_fiber (Some 1) 0] [1 \<mapsto> plain_fiber S_INIT BReturn])
        = Inr (None, tm, w1) \<and> take_task 7 0 w1 = Inr (Some y, True, w2))"
  using two_scans_take_a_task [of "one_sched [FiberAndThread_fiber (Some 1) 0] [1 \<mapsto> plain_fiber S_INIT BReturn]"
      0 _ "FiberAndThread_fiber (Some 1) 0" 7]
  by (simp add: FiberAndThread_fiber_def task_over_def live_state_def plain_fiber_def)

text \<open>
  A fiber that is over at the end of the queue. When everything before it is passed over, the
  scan erases the last element and then moves its iterator past the end of the list.
\<close>

theorem over_at_end_undefined:
  assumes "scheds w s = Some sc" and "m_fibers sc = xs @ [x]"
    and "\<forall>y \<in> set xs. \<exists>f fb. ft_fiber y = Some f \<and> heap w f = Some fb \<and> m_state fb = S_EXEC"
    and "ft_fiber x = Some g" and "heap w g = Some gb" and "m_state gb \<in> {S_TERM, S_EXCEPT}"
    and "ft_thread x = 0"
  shows "take_task t s w = Inl (UB ''iterator moved past the end of m_fibers'')"
proof -
  have "scan t tm pre (xs @ [x]) w = Inl (UB ''iterator moved past the end of m_fibers'')" for tm pre
    using assms(3)
  proof (induction xs arbitrary: tm pre)
    case Nil
    with assms(4-7) show ?case by (auto simp: getState_Some)
  next
    case (Cons y ys)
    then show ?case by (auto simp: getState_Some)
  qed
  with assms(1,2) show ?thesis by (simp add: take_task_def sched_at_Some)
qed

theorem over_at_end_undefined_witness:
  "take_task 7 0 (one_sched [FiberAndThread_fiber (Some 1) 0, FiberAndThread_fiber (Some 2) 0]
      [1 \<mapsto> plain_fiber S_EXEC BReturn, 2 \<mapsto> plain_fiber S_TERM BReturn])
    = Inl (UB ''iterator moved past the end of m_fibers'')"
  by (rule over_at_end_undefined [where xs = "[FiberAndThread_fiber (Some 1) 0]" and g = 2])
    (auto simp: FiberAndThread_fiber_def plain_fiber_def)

end
