(* ===== verification/SchedulerRun.thy ===== *)
theory SchedulerRun
  imports Scheduler
begin

text \<open>
  What the loop of a worker thread (\<open>Scheduler::run\<close>) achieves: the outcome of one task, the
  termination of the loop, and the system of worker threads that share the queue.
\<close>

section \<open>How much is left to do\<close>

text \<open>
  A bound on the iterations: what is left of every callback, with the callbacks it will
  schedule itself, and the entries of the queue.
\<close>

function cb_weight :: "action body \<Rightarrow> nat" where
  "cb_weight BReturn = 1"
| "cb_weight BThrow = 1"
| "cb_weight (BYieldToReady b) = 1 + cb_weight b"
| "cb_weight (BYieldToHold b) = 1 + cb_weight b"
| "cb_weight (BDo (AScheduleCb s b' thread) b) = 3 + cb_weight b' + cb_weight b"
| "cb_weight (BDo (AScheduleFiber s f thread) b) = 3 + cb_weight b"
| "cb_weight (BDo (ARun s) b) = 1 + cb_weight b"
  by pat_completeness auto
termination
  by (relation "measure (size_body size)") auto

definition fiber_weight :: "action fiber option \<Rightarrow> nat" where
  "fiber_weight p =
     (case p of None \<Rightarrow> 0
      | Some fb \<Rightarrow>
          (case m_ctx fb of
             CtxEntry e \<Rightarrow> (case m_cb fb of Some b \<Rightarrow> cb_weight b | None \<Rightarrow> 1)
           | CtxBody e b \<Rightarrow> cb_weight b
           | _ \<Rightarrow> 0))"

definition task_weight :: "task \<Rightarrow> nat" where
  "task_weight x =
     (case ft_fiber x of Some f \<Rightarrow> 1
      | None \<Rightarrow> (case ft_cb x of Some b \<Rightarrow> 2 + cb_weight b | None \<Rightarrow> 1))"

definition queue_weight :: "sid \<Rightarrow> sworld \<Rightarrow> nat" where
  "queue_weight s w =
     (case scheds w s of None \<Rightarrow> 0 | Some sc \<Rightarrow> sum_list (map task_weight (m_fibers sc)))"

definition heap_weight :: "fid set \<Rightarrow> sworld \<Rightarrow> nat" where
  "heap_weight A w = (\<Sum>g \<in> {..<next_fid w} - A. fiber_weight (heap w g))"

definition work_left :: "sid \<Rightarrow> sworld \<Rightarrow> nat" where
  "work_left s w = heap_weight {} w + queue_weight s w"

definition fresh_heap :: "sworld \<Rightarrow> bool" where
  "fresh_heap w \<longleftrightarrow> (\<forall>g. next_fid w \<le> g \<longrightarrow> heap w g = None)"

lemma cb_weight_pos: "0 < cb_weight b"
  by (induction b rule: cb_weight.induct) auto

lemma fresh_heapD: "fresh_heap w \<Longrightarrow> heap w f = Some fb \<Longrightarrow> f < next_fid w"
  unfolding fresh_heap_def by (metis not_le option.distinct(1))

lemma heap_weight_remove:
  "f < next_fid w \<Longrightarrow> heap_weight {} w = fiber_weight (heap w f) + heap_weight {f} w"
  unfolding heap_weight_def by (simp add: sum.remove [of "{..<next_fid w}" f])

lemma heap_weight_cong:
  "next_fid w' = next_fid w \<Longrightarrow> (\<And>g. g \<notin> A \<Longrightarrow> heap w' g = heap w g) \<Longrightarrow> heap_weight A w' = heap_weight A w"
  unfolding heap_weight_def by (rule sum.cong) auto

lemma heap_weight_le:
  "next_fid w' = next_fid w \<Longrightarrow> (\<And>g. g \<notin> A \<Longrightarrow> fiber_weight (heap w' g) \<le> fiber_weight (heap w g)) \<Longrightarrow>
    heap_weight A w' \<le> heap_weight A w"
  unfolding heap_weight_def by (auto intro: sum_mono)

lemma queue_weight_cong: "scheds w' s = scheds w s \<Longrightarrow> queue_weight s w' = queue_weight s w"
  by (simp add: queue_weight_def)

lemma sworld_frame [simp]:
  "scheds (upd_fiber f g w) = scheds w"
  "scheds (SetThis t p w) = scheds w"
  by (simp_all add: upd_fiber_def SetThis_def)

text \<open>Scheduling adds at most the weight of the action.\<close>

lemma queue_weight_tickle [simp]: "m_fibers (tickle sc) = m_fibers sc"
  by (simp add: tickle_def IOManager_tickle_def split: option.splits)

lemma schedule_ft_fibers:
  "m_fibers (schedule_ft ft sc) = (if ft_fiber ft \<noteq> None \<or> ft_cb ft \<noteq> None then m_fibers sc @ [ft] else m_fibers sc)"
  by (simp add: schedule_ft_def scheduleNoLock_def Let_def)

lemma schedule_cb_eq: "schedule_cb cb thread = schedule_ft (FiberAndThread_cb cb (thread_arg thread))"
  by (intro ext) (simp add: schedule_cb_def schedule_ft_def)

lemma schedule_fiber_eq: "schedule_fiber f thread = schedule_ft (FiberAndThread_fiber f (thread_arg thread))"
  by (intro ext) (simp add: schedule_fiber_def schedule_ft_def)

lemma sched_act_weight:
  "sched_act t a w = Inr w' \<Longrightarrow>
     same_fibers w w' \<and> queue_weight s w' + cb_weight b < queue_weight s w + cb_weight (BDo a b)"
  by (cases a) (auto simp: queue_weight_def same_fibers_def schedule_cb_eq schedule_fiber_eq
    schedule_ft_fibers FiberAndThread_cb_def FiberAndThread_fiber_def task_weight_def
    split: option.splits if_splits)

text \<open>A run of a callback uses up some of it.\<close>

lemma swapOut_result:
  "swapOut t f c w = Inr (m, w') \<Longrightarrow>
     t_scheduler_fiber w t = Some m \<and> w' = set_ctx f c (SetThis t (Some m) w)"
  unfolding swapOut_def deref_fiber_def Let_def by (cases "t_scheduler_fiber w t") simp_all

lemma Fiber_back_result:
  "Fiber_back t f c w = Inr (m, w') \<Longrightarrow>
     t_threadFiber w t = Some m \<and> w' = set_ctx f c (SetThis t (Some m) w)"
  unfolding Fiber_back_def deref_fiber_def Let_def by (cases "t_threadFiber w t") simp_all

lemma leave_entry_result:
  "leave_entry e t f w = Inr (m, w') \<Longrightarrow> w' = set_ctx f CtxFinished (SetThis t (Some m) w)"
  by (cases e) (auto simp: leave_entry_def dest!: swapOut_result Fiber_back_result)

lemma yield_to_result:
  assumes "yield_to st t c w = Inr (m, w')" and "t_fiber w t = Some f" and "heap w f = Some fb"
  shows "t_scheduler_fiber w t = Some m \<and> w' = set_ctx f c (SetThis t (Some m) (setState f st w))"
proof -
  have "swapOut t f c (setState f st w) = Inr (m, w')"
    using assms(1) unfolding yield_to_def GetThis_current [OF assms(2,3)] by simp
  from swapOut_result [OF this] show ?thesis by (simp add: setState_def)
qed

text \<open>The state after a switch away from \<open>f\<close>, whose context is now \<open>c\<close>.\<close>

lemma work_left_switched:
  assumes "heap w f = Some fb" "fresh_heap w" "next_fid w' = next_fid w"
    and "\<And>g. g \<noteq> f \<Longrightarrow> heap w' g = heap w g" "scheds w' s = scheds w s"
    and "fiber_weight (heap w' f) = n"
  shows "work_left s w' = n + heap_weight {f} w + queue_weight s w"
proof -
  have "f < next_fid w'"
    using assms(1-3) by (auto dest: fresh_heapD)
  then have "heap_weight {} w' = n + heap_weight {f} w'"
    using assms(6) by (simp add: heap_weight_remove)
  moreover have "heap_weight {f} w' = heap_weight {f} w"
    using assms(3,4) by (intro heap_weight_cong) auto
  ultimately show ?thesis
    by (simp add: work_left_def queue_weight_cong [OF assms(5)])
qed

lemma run_body_yield_weight:
  assumes y: "yield_to st t (CtxBody e b) w = Inr (m, w1)" and "t_fiber w t = Some f" "heap w f = Some fb"
    and "fresh_heap w"
  shows "\<exists>fb1. heap w1 f = Some fb1 \<and> fresh_heap w1 \<and> next_fid w1 = next_fid w
    \<and> t_scheduler_fiber w1 = t_scheduler_fiber w \<and> t_fiber w1 t = Some m
    \<and> (\<forall>g. g \<noteq> f \<longrightarrow> heap w1 g = heap w g) \<and> scheds w1 = scheds w
    \<and> work_left s w1 = cb_weight b + heap_weight {f} w + queue_weight s w
    \<and> heap_weight {f} w1 = heap_weight {f} w"
proof -
  have w1: "w1 = set_ctx f (CtxBody e b) (SetThis t (Some m) (setState f st w))"
    using yield_to_result [OF y assms(2,3)] by simp
  then have "work_left s w1 = cb_weight b + heap_weight {f} w + queue_weight s w"
    using assms by (intro work_left_switched) (auto simp: fiber_ops fiber_weight_def)
  moreover have "heap_weight {f} w1 = heap_weight {f} w"
    using w1 by (intro heap_weight_cong) (auto simp: fiber_ops)
  ultimately show ?thesis
    using assms(3,4) fresh_heapD [OF assms(4,3)] unfolding w1 by (auto simp: fiber_ops fresh_heap_def)
qed

lemma run_body_weight:
  "run_body sched_act e t f b w = Inr (m, w') \<Longrightarrow> t_fiber w t = Some f \<Longrightarrow> heap w f = Some fb \<Longrightarrow>
   fresh_heap w \<Longrightarrow>
   fresh_heap w' \<and> next_fid w' = next_fid w \<and> t_scheduler_fiber w' = t_scheduler_fiber w
   \<and> heap w' f \<noteq> None \<and> (\<forall>g. g \<noteq> f \<longrightarrow> heap w' g = heap w g)
   \<and> work_left s w' < heap_weight {f} w + queue_weight s w + cb_weight b"
proof (induction b arbitrary: w fb)
  case BReturn
  then have w': "w' = set_ctx f CtxFinished (SetThis t (Some m)
      (upd_fiber f (\<lambda>fb. fb\<lparr>m_cb := None, m_state := S_TERM\<rparr>) w))"
    by (simp add: leave_entry_result)
  then have "work_left s w' = 0 + heap_weight {f} w + queue_weight s w"
    using BReturn.prems by (intro work_left_switched) (auto simp: fiber_ops fiber_weight_def)
  then show ?case
    using BReturn.prems(3,4) unfolding w' by (auto simp: fiber_ops fresh_heap_def)
next
  case BThrow
  then have w': "w' = set_ctx f CtxFinished (SetThis t (Some m) (setState f S_EXCEPT w))"
    by (simp add: leave_entry_result)
  then have "work_left s w' = 0 + heap_weight {f} w + queue_weight s w"
    using BThrow.prems by (intro work_left_switched) (auto simp: fiber_ops fiber_weight_def)
  then show ?case
    using BThrow.prems(3,4) unfolding w' by (auto simp: fiber_ops fresh_heap_def)
next
  case (BYieldToReady b)
  from BYieldToReady.prems(1) obtain m1 w1 where y: "yield_to S_READY t (CtxBody e b) w = Inr (m1, w1)"
    and rest: "if m1 = f then run_body sched_act e t f b w1 = Inr (m, w') else m1 = m \<and> w1 = w'"
    by (auto simp: YieldToReady_def split: if_splits)
  note w1 = run_body_yield_weight [OF y BYieldToReady.prems(2-4), of s]
  show ?case
  proof (cases "m1 = f")
    case True
    with rest w1 BYieldToReady.IH [of w1] show ?thesis by (auto simp: queue_weight_def)
  next
    case False
    with rest w1 show ?thesis by auto
  qed
next
  case (BYieldToHold b)
  from BYieldToHold.prems(1) obtain m1 w1 where y: "yield_to S_HOLD t (CtxBody e b) w = Inr (m1, w1)"
    and rest: "if m1 = f then run_body sched_act e t f b w1 = Inr (m, w') else m1 = m \<and> w1 = w'"
    by (auto simp: YieldToHold_def split: if_splits)
  note w1 = run_body_yield_weight [OF y BYieldToHold.prems(2-4), of s]
  show ?case
  proof (cases "m1 = f")
    case True
    with rest w1 BYieldToHold.IH [of w1] show ?thesis by (auto simp: queue_weight_def)
  next
    case False
    with rest w1 show ?thesis by auto
  qed
next
  case (BDo a b)
  then obtain w1 where w1: "sched_act t a w = Inr w1" "run_body sched_act e t f b w1 = Inr (m, w')"
    by auto
  have same: "same_fibers w w1" "queue_weight s w1 + cb_weight b < queue_weight s w + cb_weight (BDo a b)"
    using sched_act_weight [OF w1(1)] by auto
  then have "heap_weight {f} w1 = heap_weight {f} w"
    by (intro heap_weight_cong) (auto simp: same_fibers_def)
  then show ?case
    using BDo.IH [OF w1(2)] BDo.prems same by (auto simp: same_fibers_def fresh_heap_def)
qed


text \<open>Entering a fiber: strictly less is left, unless it is the fiber the scheduler runs on.\<close>

lemma resume_weight:
  assumes r: "resume sched_act t f w = Inr (m, w')" and f: "t_fiber w t = Some f" "heap w f = Some fb"
    and fresh: "fresh_heap w"
  shows "fresh_heap w' \<and> next_fid w' = next_fid w \<and> t_scheduler_fiber w' = t_scheduler_fiber w
    \<and> heap w' f \<noteq> None \<and> (\<forall>g. g \<noteq> f \<longrightarrow> heap w' g = heap w g) \<and> work_left s w' < work_left s w"
proof -
  obtain e b where b: "run_body sched_act e t f b w = Inr (m, w')" "cb_weight b = fiber_weight (heap w f)"
  proof (cases "m_ctx fb")
    case (CtxEntry e)
    then have "run_body sched_act e t f (case m_cb fb of Some b \<Rightarrow> b | None \<Rightarrow> BThrow) w = Inr (m, w')"
      using r f by (simp add: resume_def fiber_at_Some GetThis_current [OF f] split: if_splits)
    moreover have "cb_weight (case m_cb fb of Some b \<Rightarrow> b | None \<Rightarrow> BThrow) = fiber_weight (heap w f)"
      using CtxEntry f by (simp add: fiber_weight_def split: option.splits)
    ultimately show ?thesis by (rule that)
  next
    case (CtxBody e b)
    then show ?thesis using r f that by (simp add: resume_def fiber_at_Some fiber_weight_def)
  qed (use r f in \<open>simp_all add: resume_def fiber_at_Some\<close>)
  have "work_left s w = cb_weight b + heap_weight {f} w + queue_weight s w"
    using b(2) heap_weight_remove [OF fresh_heapD [OF fresh f(2)]] by (simp add: work_left_def)
  then show ?thesis using run_body_weight [OF b(1) f fresh, of s] by simp
qed

lemma work_left_le:
  "next_fid w' = next_fid w \<Longrightarrow> (\<And>g. fiber_weight (heap w' g) \<le> fiber_weight (heap w g)) \<Longrightarrow>
    scheds w' s = scheds w s \<Longrightarrow> work_left s w' \<le> work_left s w"
  unfolding work_left_def by (intro add_mono heap_weight_le order_eq_refl [OF queue_weight_cong])

lemma fiber_weight_state [simp]: "fiber_weight (Some (fb\<lparr>m_state := st\<rparr>)) = fiber_weight (Some fb)"
  by (simp add: fiber_weight_def split: ucontext.splits)

lemma fiber_weight_calling [simp]: "fiber_weight (Some (fb\<lparr>m_ctx := CtxCalling\<rparr>)) = 0"
  by (simp add: fiber_weight_def)

definition swapped :: "tid \<Rightarrow> sid \<Rightarrow> fid \<Rightarrow> sworld \<Rightarrow> sworld \<Rightarrow> bool" where
  "swapped t s f w w' \<longleftrightarrow> fresh_heap w' \<and> next_fid w' = next_fid w
     \<and> t_scheduler_fiber w' = t_scheduler_fiber w
     \<and> (if t_scheduler_fiber w t = Some f
        then work_left s w' \<le> work_left s w \<and> (\<exists>fb. heap w' f = Some fb \<and> m_state fb = S_EXEC)
        else work_left s w' < work_left s w \<and> heap w' f \<noteq> None)"

lemma swapIn_weight:
  assumes sw: "swapIn sched_act t f w = Inr w'" and fresh: "fresh_heap w"
  shows "swapped t s f w w'"
proof -
  obtain fb where fb: "heap w f = Some fb"
    using sw by (auto simp: swapIn_def getState_def Let_def)
  let ?w2 = "setState f S_EXEC (SetThis t (Some f) w)"
  have fresh2: "fresh_heap ?w2"
    using fresh fb fresh_heapD [OF fresh fb] by (auto simp: fresh_heap_def fiber_ops)
  have le2: "work_left s ?w2 \<le> work_left s w"
    using fb by (intro work_left_le) (auto simp: fiber_ops)
  obtain m where m: "t_scheduler_fiber w t = Some m" "heap w m \<noteq> None" "switch_to sched_act t m f ?w2 = Inr w'"
    using sw fb by (auto simp: swapIn_def fiber_ops Let_def deref_fiber_def split: option.splits if_splits)
  show ?thesis
  proof (cases "f = m")
    case True
    then have "w' = ?w2" using m(3) by (simp add: switch_to_def)
    then show ?thesis using m(1) True fresh2 le2 fb by (auto simp: swapped_def fiber_ops)
  next
    case False
    let ?w3 = "set_ctx m CtxCalling ?w2"
    obtain mb where mb: "heap w m = Some mb" using m(2) by auto
    have fresh3: "fresh_heap ?w3"
      using fresh2 mb False fresh_heapD [OF fresh mb] by (auto simp: fresh_heap_def fiber_ops)
    have "work_left s ?w3 \<le> work_left s ?w2"
      using mb False by (intro work_left_le) (auto simp: fiber_ops)
    moreover have "resume sched_act t f ?w3 = Inr (m, w')"
      using m(3) False by (auto simp: switch_to_def split: if_splits)
    from resume_weight [OF this _ _ fresh3, of "fb\<lparr>m_state := S_EXEC\<rparr>" s] fb False
    have "fresh_heap w' \<and> next_fid w' = next_fid w \<and> t_scheduler_fiber w' = t_scheduler_fiber w
        \<and> heap w' f \<noteq> None \<and> work_left s w' < work_left s ?w3"
      by (simp add: fiber_ops)
    ultimately show ?thesis using le2 m(1) False by (auto simp: swapped_def)
  qed
qed

text \<open>Taking a task removes its weight from the queue.\<close>

lemma queue_weight_mset:
  "scheds w s = Some sc \<Longrightarrow> queue_weight s w = (\<Sum>x \<in># mset (m_fibers sc). task_weight x)"
  by (simp add: queue_weight_def sum_mset_sum_list [symmetric])

lemma promoted_fiber_weight: "promoted_to p q \<Longrightarrow> fiber_weight q = fiber_weight p"
  by (auto simp: promoted_to_def)

lemma promoted_work:
  assumes p: "promoted w w'" and fresh: "fresh_heap w"
  shows "fresh_heap w' \<and> next_fid w' = next_fid w \<and> t_scheduler_fiber w' = t_scheduler_fiber w
    \<and> heap_weight {} w' = heap_weight {} w"
proof -
  have eq: "w' = w\<lparr>heap := heap w'\<rparr>" and to: "\<And>g. promoted_to (heap w g) (heap w' g)"
    using p by (simp_all add: promoted_def)
  have "next_fid (w\<lparr>heap := h\<rparr>) = next_fid w" "t_scheduler_fiber (w\<lparr>heap := h\<rparr>) = t_scheduler_fiber w" for h
    by simp_all
  with eq have nf: "next_fid w' = next_fid w" "t_scheduler_fiber w' = t_scheduler_fiber w"
    by metis+
  have "heap_weight {} w' = heap_weight {} w"
    unfolding heap_weight_def nf by (intro sum.cong refl promoted_fiber_weight to)
  moreover have "fresh_heap w'"
    unfolding fresh_heap_def
  proof (intro allI impI)
    fix g assume "next_fid w' \<le> g"
    then have "heap w g = None" using fresh nf by (simp add: fresh_heap_def)
    then show "heap w' g = None" using to [of g] by (simp add: promoted_to_def)
  qed
  ultimately show ?thesis using nf by simp
qed

lemma take_task_weight:
  assumes tk: "take_task t s w = Inr (found, tm, w')" and fresh: "fresh_heap w"
  shows "fresh_heap w' \<and> next_fid w' = next_fid w \<and> t_scheduler_fiber w' = t_scheduler_fiber w
    \<and> work_left s w' + (case found of None \<Rightarrow> 0 | Some x \<Rightarrow> task_weight x) \<le> work_left s w
    \<and> (\<exists>sc. scheds w' s = Some sc)"
proof -
  obtain sc where sc: "scheds w s = Some sc" using tk by (auto simp: take_task_def)
  with tk obtain q w1 where q: "scan t False [] (m_fibers sc) w = Inr (found, tm, q, w1)"
    and w': "w' = upd_sched s (\<lambda>sc. sc\<lparr>m_fibers := q,
           m_activeThreadCount := (if found = None then m_activeThreadCount sc
                                   else m_activeThreadCount sc + 1)\<rparr>) w1"
    by (rule take_task_scan)
  from scan_conserves [OF q] obtain dropped where
    ms: "mset (m_fibers sc) = mset q + mset (case found of None \<Rightarrow> [] | Some x \<Rightarrow> [x]) + mset dropped"
    and p: "promoted w w1" by auto
  have "queue_weight s w = sum_list (map task_weight q)
      + sum_list (map task_weight (case found of None \<Rightarrow> [] | Some x \<Rightarrow> [x])) + sum_list (map task_weight dropped)"
    using queue_weight_mset [OF sc] ms by (simp add: sum_mset_sum_list [symmetric])
  moreover have "queue_weight s w' = sum_list (map task_weight q)"
    using sc promoted_scheds [OF p] by (simp add: queue_weight_def w')
  moreover have "heap_weight {} w' = heap_weight {} w1"
    by (rule heap_weight_cong) (simp_all add: w')
  ultimately show ?thesis
    using promoted_work [OF p fresh] sc promoted_scheds [OF p]
    by (auto simp: work_left_def w' fresh_heap_def split: option.splits)
qed

text \<open>The scheduler's counters do not count as work.\<close>

lemma work_left_upd_sched:
  "(\<And>sc. m_fibers (g sc) = m_fibers sc) \<Longrightarrow> work_left s (upd_sched s g w) = work_left s w"
  by (simp add: work_left_def queue_weight_def heap_weight_def split: option.splits)

lemma fresh_heap_upd_sched [simp]: "fresh_heap (upd_sched s g w) = fresh_heap w"
  by (simp add: fresh_heap_def)

lemma work_left_setState [simp]: "work_left s (setState f st w) = work_left s w"
proof -
  have "fiber_weight (heap (setState f st w) g) = fiber_weight (heap w g)" for g
    by (cases "heap w f") (simp_all add: fiber_ops)
  then show ?thesis
    by (simp add: work_left_def heap_weight_def queue_weight_def setState_def)
qed

lemma fresh_heap_setState [simp]: "fresh_heap (setState f st w) = fresh_heap w"
  unfolding fresh_heap_def setState_def by auto

lemma setState_frame [simp]:
  "next_fid (setState f st w) = next_fid w"
  "t_scheduler_fiber (setState f st w) = t_scheduler_fiber w"
  "t_fiber (setState f st w) = t_fiber w"
  by (simp_all add: setState_def)

lemma schedule_again_weight:
  "ft_fiber ft = Some f \<Longrightarrow> work_left s (upd_sched s (schedule_ft ft) w) \<le> work_left s w + 1"
  by (auto simp: work_left_def queue_weight_def heap_weight_def schedule_ft_fibers task_weight_def
    split: option.splits)

text \<open>The fiber made for a callback carries the callback's weight.\<close>

lemma Fiber_new_weight:
  assumes n: "Fiber_new True cb st False w = Inr (f, w')" and fresh: "fresh_heap w"
  shows "f = next_fid w \<and> next_fid w' = next_fid w + 1 \<and> fresh_heap w'
    \<and> t_scheduler_fiber w' = t_scheduler_fiber w
    \<and> work_left s w' = work_left s w + (case cb of Some b \<Rightarrow> cb_weight b | None \<Rightarrow> 1)"
proof -
  obtain i w1 fb where id: "safeFiberIdIncr w = Inr (i, w1)"
    and new: "new_fiber fb (safeFiberCountIncr w1) = (f, w')" "m_ctx fb = CtxEntry MainFunc" "m_cb fb = cb"
    using n unfolding Fiber_new_def Let_def and_then_Inr_iff
    by (elim exE conjE) (clarsimp simp: that)
  have same: "heap w1 = heap w" "next_fid w1 = next_fid w" "t_scheduler_fiber w1 = t_scheduler_fiber w"
    "scheds w1 = scheds w"
    using id by (auto simp: safeFiberIdIncr_def Let_def split: if_splits)
  have w': "f = next_fid w" "heap w' = (heap w)(next_fid w \<mapsto> fb)" "next_fid w' = next_fid w + 1"
    "scheds w' = scheds w" "t_scheduler_fiber w' = t_scheduler_fiber w"
    using new(1) same by (auto simp: new_fiber_def safeFiberCountIncr_def)
  have "heap_weight {} w' = (\<Sum>g < next_fid w. fiber_weight (heap w' g)) + fiber_weight (Some fb)"
    using w'(2,3) by (simp add: heap_weight_def)
  also have "(\<Sum>g < next_fid w. fiber_weight (heap w' g)) = heap_weight {} w"
    unfolding heap_weight_def using w'(2) by (intro sum.cong) auto
  finally show ?thesis
    using w' new(2,3) fresh
    by (auto simp: work_left_def queue_weight_def fiber_weight_def fresh_heap_def split: option.splits)
qed


lemmas run_parts = run_task_def run_enter_def run_account_def run_settle_def

text \<open>One iteration: either the loop ends or less is left.\<close>

lemma run_task_weight:
  assumes r: "run_task t s ft w = Inr w'" and fresh: "fresh_heap w"
    and main: "\<forall>m. t_scheduler_fiber w t = Some m \<longrightarrow> m < next_fid w"
    and ft: "ft_fiber ft \<noteq> None \<or> ft_cb ft \<noteq> None"
  shows "fresh_heap w' \<and> next_fid w \<le> next_fid w' \<and> t_scheduler_fiber w' = t_scheduler_fiber w
    \<and> work_left s w' < work_left s w + task_weight ft"
proof -
  from r obtain f ft1 w1 w2 where tf: "task_fiber ft w = Inr (f, ft1, w1)"
    and sw: "swapIn sched_act t f (setState f S_READY w1) = Inr w2"
    by (auto simp: run_parts)
  have pre: "fresh_heap w1 \<and> next_fid w \<le> next_fid w1 \<and> t_scheduler_fiber w1 = t_scheduler_fiber w
      \<and> ft_fiber ft1 = Some f \<and> work_left s w1 + 1 \<le> work_left s w + task_weight ft
      \<and> (t_scheduler_fiber w t \<noteq> Some f \<or> ft_fiber ft = Some f)"
  proof (cases "ft_fiber ft")
    case (Some g)
    then show ?thesis using tf fresh by (auto simp: task_fiber_def task_weight_def)
  next
    case None
    then obtain b where b: "ft_cb ft = Some b" using ft by auto
    have "Fiber_new True (Some b) 0 False w = Inr (f, w1)" "ft_fiber ft1 = Some f"
      using tf None b by (auto simp: task_fiber_def)
    from Fiber_new_weight [OF this(1) fresh, of s] this(2) None b main show ?thesis
      by (auto simp: task_weight_def)
  qed
  have swd: "swapped t s f (setState f S_READY w1) w2"
    using swapIn_weight [OF sw] pre by simp
  let ?w3 = "upd_sched s (\<lambda>sc. sc\<lparr>m_activeThreadCount := m_activeThreadCount sc - 1\<rparr>) w2"
  have w3: "work_left s ?w3 = work_left s w2"
    by (rule work_left_upd_sched) simp
  from r tf sw obtain st where st: "getState f ?w3 = Inr st"
    and w': "w' = (if st = S_READY then upd_sched s (schedule_ft ft1) ?w3
       else if st \<noteq> S_TERM \<and> st \<noteq> S_EXCEPT then setState f S_HOLD ?w3 else ?w3)"
    by (auto simp: run_parts Let_def split: if_splits)
  have frame: "fresh_heap w' \<and> next_fid w' = next_fid w2 \<and> t_scheduler_fiber w' = t_scheduler_fiber w2"
    using swd by (simp add: w' swapped_def)
  show ?thesis
  proof (cases "t_scheduler_fiber w t = Some f")
    case True
    then have "st = S_EXEC" "work_left s w2 \<le> work_left s w1"
      using swd pre st by (auto simp: swapped_def getState_def)
    with True frame w3 pre swd show ?thesis by (simp add: w' swapped_def)
  next
    case False
    then have "work_left s w2 < work_left s w1"
      using swd pre by (simp add: swapped_def)
    moreover have "work_left s w' \<le> work_left s w2 + 1"
      using schedule_again_weight [of ft1 f s ?w3] pre w3 by (simp add: w')
    ultimately show ?thesis using frame pre swd by (simp add: swapped_def)
  qed
qed

lemma run_idle_weight:
  assumes r: "run_idle t s (Some f) w = Inr (Continue i w')" and fresh: "fresh_heap w"
    and f: "t_scheduler_fiber w t \<noteq> Some f"
  shows "fresh_heap w' \<and> next_fid w \<le> next_fid w' \<and> t_scheduler_fiber w' = t_scheduler_fiber w
    \<and> work_left s w' < work_left s w \<and> (i = None \<or> i = Some f)"
proof -
  let ?w0 = "upd_sched s (\<lambda>sc. sc\<lparr>m_idleThreadCount := m_idleThreadCount sc + 1\<rparr>) w"
  obtain w1 where sw: "swapIn sched_act t f ?w0 = Inr w1"
    using r by (auto simp: run_idle_def)
  have "swapped t s f ?w0 w1"
    using swapIn_weight [OF sw] fresh by simp
  moreover have "work_left s ?w0 = work_left s w"
    by (rule work_left_upd_sched) simp
  moreover have "work_left s (upd_sched s (\<lambda>sc. sc\<lparr>m_idleThreadCount := m_idleThreadCount sc - 1\<rparr>) w1) = work_left s w1"
    by (rule work_left_upd_sched) simp
  ultimately show ?thesis
    using r sw f by (auto simp: run_idle_def swapped_def Let_def split: if_splits)
qed


lemma run_iter_weight:
  assumes r: "run_iter t s i w = Inr (Continue i' w')" and fresh: "fresh_heap w"
    and main: "\<forall>m. t_scheduler_fiber w t = Some m \<longrightarrow> m < next_fid w"
    and i: "\<forall>f. i = Some f \<longrightarrow> t_scheduler_fiber w t \<noteq> Some f"
  shows "fresh_heap w' \<and> next_fid w \<le> next_fid w' \<and> t_scheduler_fiber w' = t_scheduler_fiber w
    \<and> work_left s w' < work_left s w \<and> (i' = None \<or> i' = i)"
proof -
  obtain found tm w1 where tk: "take_task t s w = Inr (found, tm, w1)"
    using r by (auto simp: run_iter_def)
  let ?w2 = "if tm then upd_sched s tickle w1 else w1"
  from take_task_weight [OF tk fresh] have t1: "fresh_heap ?w2" "next_fid ?w2 = next_fid w"
    "t_scheduler_fiber ?w2 = t_scheduler_fiber w"
    "work_left s ?w2 + (case found of None \<Rightarrow> 0 | Some x \<Rightarrow> task_weight x) \<le> work_left s w"
    by (simp_all add: work_left_upd_sched)
  show ?thesis
  proof (cases found)
    case None
    with r tk obtain f where f: "i = Some f" by (cases i) (auto simp: run_iter_def run_idle_def Let_def)
    have "run_idle t s (Some f) ?w2 = Inr (Continue i' w')"
      using r tk None f by (simp add: run_iter_def Let_def)
    from run_idle_weight [OF this t1(1)] f i t1 None show ?thesis by auto
  next
    case (Some ft)
    show ?thesis
    proof (cases "ft_fiber ft \<noteq> None \<or> ft_cb ft \<noteq> None")
      case True
      then have "run_task t s ft ?w2 = Inr w'" "i' = i"
        using r tk Some by (auto simp: run_iter_def Let_def)
      from run_task_weight [OF this(1) t1(1) _ True] this(2) t1 main Some show ?thesis by auto
    next
      case False
      then have "w' = upd_sched s (\<lambda>sc. sc\<lparr>m_activeThreadCount := m_activeThreadCount sc - 1\<rparr>) ?w2" "i' = i"
        "task_weight ft = 1"
        using r tk Some by (auto simp: run_iter_def Let_def task_weight_def run_account_def)
      with t1 Some show ?thesis by (simp add: work_left_upd_sched)
    qed
  qed
qed

text \<open>Nothing in an iteration is a loop with a bound.\<close>

lemma access_fuel_free [fuel_free]:
  "sched_at s w \<noteq> Inl OutOfFuel" "fiber_at f w2 \<noteq> Inl OutOfFuel"
  by (simp_all add: sched_at_def fiber_at_def split: option.splits)

lemma getState_fuel_free [fuel_free]: "getState f w \<noteq> Inl OutOfFuel"
  unfolding getState_def by (intro fuel_free) simp

lemma GetThis_fuel_free [fuel_free]: "GetThis t w \<noteq> Inl OutOfFuel"
  by (auto simp: GetThis_def and_then_Inl_iff fuel_free split: option.splits prod.splits)

lemma deref_fiber_fuel_free [fuel_free]: "deref_fiber p w \<noteq> Inl OutOfFuel"
  by (auto simp: deref_fiber_def and_then_Inl_iff fuel_free split: option.splits)

lemma leave_fuel_free [fuel_free]:
  "swapOut t f c w \<noteq> Inl OutOfFuel" "Fiber_back t f c w \<noteq> Inl OutOfFuel"
  by (auto simp: swapOut_def Fiber_back_def and_then_Inl_iff fuel_free Let_def)

lemma yield_to_fuel_free [fuel_free]: "yield_to st t c w \<noteq> Inl OutOfFuel"
  by (auto simp: yield_to_def and_then_Inl_iff fuel_free)

lemma leave_entry_fuel_free [fuel_free]: "leave_entry e t f w \<noteq> Inl OutOfFuel"
  by (cases e) (auto simp: leave_entry_def and_then_Inl_iff fuel_free)

lemma sched_act_fuel_free [fuel_free]: "sched_act t a w \<noteq> Inl OutOfFuel"
  by (cases a) (auto simp: and_then_Inl_iff fuel_free)

lemma run_body_fuel_free [fuel_free]: "run_body sched_act e t f b w \<noteq> Inl OutOfFuel"
  by (induction b arbitrary: w)
    (auto simp: and_then_Inl_iff fuel_free YieldToReady_def YieldToHold_def split: if_splits)

lemma resume_fuel_free [fuel_free]: "resume sched_act t f w \<noteq> Inl OutOfFuel"
  by (auto simp: resume_def and_then_Inl_iff fuel_free split: ucontext.splits if_splits)

lemma swapIn_fuel_free [fuel_free]: "swapIn sched_act t f w \<noteq> Inl OutOfFuel"
  by (auto simp: swapIn_def switch_to_def Let_def and_then_Inl_iff fuel_free split: if_splits)

lemma Fiber_new_fuel_free [fuel_free]: "Fiber_new stk cb st uc w \<noteq> Inl OutOfFuel"
  by (auto simp: Fiber_new_def safeFiberIdIncr_def Let_def and_then_Inl_iff split: if_splits)

lemma scan_fuel_free [fuel_free]: "scan t tm pre xs w \<noteq> Inl OutOfFuel"
proof (induction t tm pre xs w rule: scan.induct)
  case (2 t tm pre x xs w)
  show ?case
  proof (cases "ft_thread x \<noteq> 0 \<and> ft_thread x = t")
    case True
    then show ?thesis using "2.IH"(1) by auto
  next
    case False
    show ?thesis
    proof (cases "ft_fiber x")
      case None
      then show ?thesis using False by auto
    next
      case (Some f)
      show ?thesis
      proof (cases "getState f w")
        case (Inl e)
        then show ?thesis using False Some getState_fuel_free [of f w] by auto
      next
        case (Inr st)
        note IH = "2.IH"(2-4) [OF False Some Inr]
        from False Some Inr IH show ?thesis by (cases xs) auto
      qed
    qed
  qed
qed simp

lemma run_iter_fuel_free [fuel_free]: "run_iter t s i w \<noteq> Inl OutOfFuel"
proof -
  have "take_task t s w \<noteq> Inl OutOfFuel"
    by (auto simp: take_task_def and_then_Inl_iff fuel_free)
  moreover have "task_fiber ft w1 \<noteq> Inl OutOfFuel" for ft w1
    by (auto simp: task_fiber_def and_then_Inl_iff fuel_free split: option.splits)
  then have "run_task t s ft w1 \<noteq> Inl OutOfFuel" for ft w1
    by (auto simp: run_parts Let_def and_then_Inl_iff fuel_free split: if_splits)
  moreover have "run_idle t s i w1 \<noteq> Inl OutOfFuel" for w1
    by (auto simp: run_idle_def Let_def and_then_Inl_iff fuel_free split: option.splits if_splits)
  ultimately show ?thesis
    by (auto simp: run_iter_def Let_def and_then_Inl_iff split: option.splits if_splits)
qed

lemma run_loop_ends:
  "work_left s w < fuel \<Longrightarrow> fresh_heap w \<Longrightarrow>
   \<forall>m. t_scheduler_fiber w t = Some m \<longrightarrow> m < next_fid w \<Longrightarrow>
   \<forall>f. i = Some f \<longrightarrow> t_scheduler_fiber w t \<noteq> Some f \<Longrightarrow>
   run_loop fuel t s i w \<noteq> Inl OutOfFuel"
proof (induction fuel arbitrary: i w)
  case (Suc fuel)
  show ?case
  proof (cases "run_iter t s i w")
    case (Inl e)
    with run_iter_fuel_free [of t s i w] show ?thesis by simp
  next
    case (Inr r)
    show ?thesis
    proof (cases r)
      case (Continue i' w')
      from run_iter_weight [OF Inr [unfolded Continue] Suc.prems(2-4)] Suc.prems
      have "run_loop fuel t s i' w' \<noteq> Inl OutOfFuel"
        by (intro Suc.IH) (auto intro: less_le_trans)
      then show ?thesis using Inr Continue by simp
    qed (use Inr in simp)
  qed
qed simp


text \<open>What \<open>run\<close> does before its loop.\<close>

lemma GetThis_weight:
  assumes g: "GetThis t w = Inr (f, w')" and fresh: "fresh_heap w"
  shows "fresh_heap w' \<and> f < next_fid w' \<and> next_fid w \<le> next_fid w' \<and> scheds w' = scheds w
    \<and> work_left s w' = work_left s w"
proof (cases "t_fiber w t")
  case None
  let ?fb = "\<lparr>m_id = 0, m_stacksize = 0, m_state = S_EXEC, m_stack = False, m_cb = None, m_ctx = CtxCalling\<rparr> :: action fiber"
  have w': "f = next_fid w" "heap w' = (heap w)(next_fid w \<mapsto> ?fb)" "next_fid w' = next_fid w + 1"
    "scheds w' = scheds w"
    using g None by (auto simp: GetThis_def Fiber_main_def new_fiber_def safeFiberCountIncr_def SetThis_def Let_def)
  have "heap_weight {} w' = (\<Sum>g < next_fid w. fiber_weight (heap w' g)) + fiber_weight (Some ?fb)"
    using w'(2,3) by (simp add: heap_weight_def)
  also have "(\<Sum>g < next_fid w. fiber_weight (heap w' g)) = heap_weight {} w"
    unfolding heap_weight_def using w'(2) by (intro sum.cong) auto
  finally show ?thesis
    using w' fresh by (auto simp: work_left_def queue_weight_def fiber_weight_def fresh_heap_def)
next
  case (Some g')
  then show ?thesis using g fresh by (auto simp: GetThis_def dest: fresh_heapD)
qed

lemma run_prologue_weight:
  assumes r: "run_prologue iom_idle t s w = Inr (f, w')" and sc: "scheds w s = Some sc"
    and fresh: "fresh_heap w" and main: "\<forall>m. t_scheduler_fiber w t = Some m \<longrightarrow> m < next_fid w"
  shows "fresh_heap w' \<and> (\<forall>m. t_scheduler_fiber w' t = Some m \<longrightarrow> m < next_fid w')
    \<and> t_scheduler_fiber w' t \<noteq> Some f
    \<and> work_left s w' = work_left s w + cb_weight (idle_body iom_idle sc)"
proof -
  let ?w1 = "w\<lparr>t_scheduler := (t_scheduler w)(t := Some s)\<rparr>"
  have w1: "fresh_heap ?w1" "work_left s ?w1 = work_left s w"
    using fresh by (simp_all add: fresh_heap_def work_left_def heap_weight_def queue_weight_def)
  obtain w3 where n: "Fiber_new True (Some (idle_body iom_idle sc)) 0 False w3 = Inr (f, w')"
    and w3: "fresh_heap w3" "work_left s w3 = work_left s w"
      "\<forall>m. t_scheduler_fiber w3 t = Some m \<longrightarrow> m < next_fid w3"
  proof (cases "t \<noteq> m_rootThread sc")
    case True
    then obtain g w2 where g: "GetThis t ?w1 = Inr (g, w2)"
      and n: "Fiber_new True (Some (idle_body iom_idle sc)) 0 False
        (w2\<lparr>t_scheduler_fiber := (t_scheduler_fiber w2)(t := Some g)\<rparr>) = Inr (f, w')"
      using r sc by (auto simp: run_prologue_def sched_at_Some Let_def)
    from GetThis_weight [OF g w1(1), of s] w1(2) show ?thesis
      by (intro that [OF n]) (auto simp: fresh_heap_def work_left_def heap_weight_def queue_weight_def)
  next
    case False
    with r sc w1 main show ?thesis
      by (intro that [of ?w1]) (auto simp: run_prologue_def sched_at_Some Let_def)
  qed
  from Fiber_new_weight [OF n w3(1), of s] w3 show ?thesis by auto
qed

section \<open>What entering a fiber does to the schedulers\<close>

text \<open>A callback can only append to the queues.\<close>

definition grows :: "sid \<Rightarrow> sworld \<Rightarrow> sworld \<Rightarrow> bool" where
  "grows s w w' \<longleftrightarrow> (\<forall>sc. scheds w s = Some sc \<longrightarrow>
     (\<exists>sc' added. scheds w' s = Some sc' \<and> m_fibers sc' = m_fibers sc @ added
        \<and> m_activeThreadCount sc' = m_activeThreadCount sc
        \<and> m_idleThreadCount sc' = m_idleThreadCount sc))"

lemma grows_same: "scheds w' = scheds w \<Longrightarrow> grows s w w'"
  by (simp add: grows_def)

lemma grows_trans:
  assumes 1: "grows s w w1" and 2: "grows s w1 w2"
  shows "grows s w w2"
  unfolding grows_def
proof (intro allI impI)
  fix sc assume "scheds w s = Some sc"
  with 1 obtain sc1 a where a: "scheds w1 s = Some sc1" "m_fibers sc1 = m_fibers sc @ a"
    "m_activeThreadCount sc1 = m_activeThreadCount sc" "m_idleThreadCount sc1 = m_idleThreadCount sc"
    unfolding grows_def by blast
  with 2 obtain sc2 b where "scheds w2 s = Some sc2" "m_fibers sc2 = m_fibers sc1 @ b"
    "m_activeThreadCount sc2 = m_activeThreadCount sc1" "m_idleThreadCount sc2 = m_idleThreadCount sc1"
    unfolding grows_def by blast
  with a show "\<exists>sc' added. scheds w2 s = Some sc' \<and> m_fibers sc' = m_fibers sc @ added
        \<and> m_activeThreadCount sc' = m_activeThreadCount sc \<and> m_idleThreadCount sc' = m_idleThreadCount sc"
    by (intro exI [of _ sc2] exI [of _ "a @ b"]) simp
qed

lemma tickle_frame [simp]:
  "m_activeThreadCount (tickle sc) = m_activeThreadCount sc"
  "m_idleThreadCount (tickle sc) = m_idleThreadCount sc"
  by (simp_all add: tickle_def IOManager_tickle_def split: option.splits)

lemma schedule_ft_frame [simp]:
  "m_activeThreadCount (schedule_ft ft sc) = m_activeThreadCount sc"
  "m_idleThreadCount (schedule_ft ft sc) = m_idleThreadCount sc"
  by (simp_all add: schedule_ft_def scheduleNoLock_def Let_def)

lemma grows_schedule: "grows s w (upd_sched s' (schedule_ft ft) w)"
  by (auto simp: grows_def schedule_ft_fibers)

lemma grows_sched_act: "sched_act t a w = Inr w' \<Longrightarrow> grows s w w'"
  by (cases a) (auto simp: schedule_cb_eq schedule_fiber_eq intro: grows_schedule)

lemma scheds_set_ctx [simp]: "scheds (set_ctx f c w) = scheds w" "scheds (setState f st w) = scheds w"
  by (simp_all add: set_ctx_def setState_def)

lemma GetThis_scheds: "GetThis t w = Inr (f, w') \<Longrightarrow> scheds w' = scheds w"
  by (auto simp: GetThis_def Fiber_main_def new_fiber_def safeFiberCountIncr_def SetThis_def Let_def
      split: option.splits)

lemma yield_to_scheds: "yield_to st t c w = Inr (m, w') \<Longrightarrow> scheds w' = scheds w"
  by (auto simp: yield_to_def dest!: GetThis_scheds swapOut_result)

lemma run_body_grows: "run_body sched_act e t f b w = Inr (m, w') \<Longrightarrow> grows s w w'"
proof (induction b arbitrary: w)
  case BReturn
  then show ?case by (intro grows_same) (auto dest!: leave_entry_result)
next
  case BThrow
  then show ?case by (intro grows_same) (auto dest!: leave_entry_result)
next
  case (BYieldToReady b)
  then show ?case
    by (auto simp: YieldToReady_def dest!: yield_to_scheds split: if_splits intro: grows_same grows_trans)
next
  case (BYieldToHold b)
  then show ?case
    by (auto simp: YieldToHold_def dest!: yield_to_scheds split: if_splits intro: grows_same grows_trans)
next
  case (BDo a b)
  then obtain w1 where "sched_act t a w = Inr w1" "run_body sched_act e t f b w1 = Inr (m, w')"
    by auto
  with BDo.IH grows_sched_act show ?case by (blast intro: grows_trans)
qed

lemma resume_run_body:
  assumes "resume sched_act t f w = Inr (m, w')"
  shows "\<exists>e g b w3. run_body sched_act e t g b w3 = Inr (m, w') \<and> scheds w3 = scheds w"
proof -
  obtain fb where fb: "fiber_at f w = Inr fb" using assms by (auto simp: resume_def)
  show ?thesis
  proof (cases "m_ctx fb")
    case (CtxEntry e)
    then obtain g w3 b where "GetThis t w = Inr (g, w3)" "run_body sched_act e t g b w3 = Inr (m, w')"
      using assms fb by (auto simp: resume_def split: if_splits)
    then show ?thesis using GetThis_scheds by blast
  qed (use assms fb in \<open>auto simp: resume_def\<close>)
qed

lemma swapIn_grows:
  assumes "swapIn sched_act t f w = Inr w'" shows "grows s w w'"
proof -
  let ?w2 = "setState f S_EXEC (SetThis t (Some f) w)"
  obtain m where "switch_to sched_act t m f ?w2 = Inr w'"
    using assms by (auto simp: swapIn_def Let_def split: if_splits)
  then have "w' = ?w2 \<or> resume sched_act t f (set_ctx m CtxCalling ?w2) = Inr (m, w')"
    by (auto simp: switch_to_def split: if_splits)
  then show ?thesis
  proof
    assume "resume sched_act t f (set_ctx m CtxCalling ?w2) = Inr (m, w')"
    then obtain e g b w3 where "run_body sched_act e t g b w3 = Inr (m, w')" "scheds w3 = scheds w"
      using resume_run_body by fastforce
    then show ?thesis
      by (blast intro: grows_trans grows_same run_body_grows)
  qed (simp add: grows_same)
qed

lemma run_loop_more:
  "run_loop fuel t s i w \<noteq> Inl OutOfFuel \<Longrightarrow> run_loop (fuel + k) t s i w = run_loop fuel t s i w"
proof (induction fuel arbitrary: i w)
  case (Suc fuel)
  then show ?case by (auto split: sum.splits run_result.splits)
qed simp

section \<open>The system of worker threads\<close>

text \<open>
  Where a worker thread stands in its loop: before a scan, with a task it has taken, with a
  task whose fiber has given control back, between the count and the queueing, and out of the
  loop. The steps are those of \<open>run\<close>, so their order on one thread is the code's; the run of
  a fiber up to its next switch is one step.
\<close>

datatype phase = Scanning | Took task | Ran fid task | Settling fid task | Ended

record workers =
  wworld :: sworld
  phases :: "tid \<Rightarrow> phase"
  idles :: "tid \<Rightarrow> fid option"

definition goto :: "tid \<Rightarrow> phase \<Rightarrow> sworld \<Rightarrow> workers \<Rightarrow> workers" where
  "goto t p w c = c\<lparr>wworld := w, phases := (phases c)(t := p)\<rparr>"

definition after_scan :: "sid \<Rightarrow> bool \<Rightarrow> sworld \<Rightarrow> sworld" where
  "after_scan s tickle_me w = (if tickle_me then upd_sched s tickle w else w)"

inductive wstep :: "sid \<Rightarrow> workers \<Rightarrow> workers \<Rightarrow> bool" for s where
  take [step_intros]: "phases c t = Scanning \<Longrightarrow> take_task t s (wworld c) = Inr (Some ft, tm, w) \<Longrightarrow>
    wstep s c (goto t (Took ft) (after_scan s tm w) c)"
| enter [step_intros]: "phases c t = Took ft \<Longrightarrow> ft_fiber ft \<noteq> None \<or> ft_cb ft \<noteq> None \<Longrightarrow>
    run_enter t ft (wworld c) = Inr (f, ft1, w) \<Longrightarrow> wstep s c (goto t (Ran f ft1) w c)"
| drop [step_intros]: "phases c t = Took ft \<Longrightarrow> ft_fiber ft = None \<Longrightarrow> ft_cb ft = None \<Longrightarrow>
    wstep s c (goto t Scanning (run_account s (wworld c)) c)"
| account [step_intros]: "phases c t = Ran f ft \<Longrightarrow>
    wstep s c (goto t (Settling f ft) (run_account s (wworld c)) c)"
| settle [step_intros]: "phases c t = Settling f ft \<Longrightarrow> run_settle s f ft (wworld c) = Inr w \<Longrightarrow>
    wstep s c (goto t Scanning w c)"
| idle [step_intros]: "phases c t = Scanning \<Longrightarrow> take_task t s (wworld c) = Inr (None, tm, w) \<Longrightarrow>
    run_idle t s (idles c t) (after_scan s tm w) = Inr (Continue i w1) \<Longrightarrow>
    wstep s c (goto t Scanning w1 (c\<lparr>idles := (idles c)(t := i)\<rparr>))"
| exit [step_intros]: "phases c t = Scanning \<Longrightarrow> take_task t s (wworld c) = Inr (None, tm, w) \<Longrightarrow>
    run_idle t s (idles c t) (after_scan s tm w) = Inr (Break w1) \<Longrightarrow>
    wstep s c (goto t Ended w1 c)"

inductive wreach :: "sid \<Rightarrow> workers \<Rightarrow> workers \<Rightarrow> bool" for s where
  start [step_intros]: "wreach s c c"
| step [step_intros]: "wreach s c c1 \<Longrightarrow> wstep s c1 c2 \<Longrightarrow> wreach s c c2"

fun busy :: "phase \<Rightarrow> bool" where
  "busy (Took ft) = True"
| "busy (Ran f ft) = True"
| "busy _ = False"

definition holders :: "workers \<Rightarrow> tid set" where
  "holders c = {t. busy (phases c t)}"

definition counted :: "sid \<Rightarrow> workers \<Rightarrow> bool" where
  "counted s c \<longleftrightarrow> finite (holders c)
     \<and> (\<exists>sc. scheds (wworld c) s = Some sc \<and> m_activeThreadCount sc = of_nat (card (holders c)))"

text \<open>The count that the scheduler \<open>s\<close> shows.\<close>

definition active_of :: "sid \<Rightarrow> sworld \<Rightarrow> u64 option" where
  "active_of s w = map_option m_activeThreadCount (scheds w s)"

lemma counted_iff:
  "counted s c \<longleftrightarrow> finite (holders c) \<and> active_of s (wworld c) = Some (of_nat (card (holders c)))"
  by (auto simp: counted_def active_of_def)

lemma holders_goto:
  "holders (goto t p w c) = (if busy p then insert t (holders c) else holders c - {t})"
  by (auto simp: holders_def goto_def)

lemma holders_idles [simp]: "holders (c\<lparr>idles := i\<rparr>) = holders c"
  by (simp add: holders_def)

lemma wworld_goto [simp]: "wworld (goto t p w c) = w"
  by (simp add: goto_def)

lemma counted_goto:
  assumes "counted s c"
    and "active_of s w = map_option (\<lambda>n. n + (if busy p then 1 else 0) - (if busy (phases c t) then 1 else 0))
        (active_of s (wworld c))"
  shows "counted s (goto t p w c)"
proof -
  have fin: "finite (holders c)" and act: "active_of s (wworld c) = Some (of_nat (card (holders c)))"
    using assms(1) by (auto simp: counted_iff)
  have mem: "t \<in> holders c \<longleftrightarrow> busy (phases c t)" by (simp add: holders_def)
  have "card (holders c) = Suc (card (holders c - {t}))" if "busy (phases c t)"
    using fin mem that by (metis card_Suc_Diff1)
  with fin act assms(2) mem show ?thesis
    by (auto simp: counted_iff holders_goto insert_absorb)
qed

lemma active_of_grows: "grows s w w' \<Longrightarrow> active_of s w \<noteq> None \<Longrightarrow> active_of s w' = active_of s w"
  by (auto simp: grows_def active_of_def)

lemma active_of_upd:
  "(\<And>sc. m_activeThreadCount (g sc) = m_activeThreadCount sc) \<Longrightarrow> active_of s (upd_sched s g w) = active_of s w"
  by (simp add: active_of_def option.map_comp comp_def)

lemma active_of_setState [simp]: "active_of s (setState f st w) = active_of s w"
  by (simp add: active_of_def)

lemma active_of_account: "active_of s (run_account s w) = map_option (\<lambda>n. n - 1) (active_of s w)"
  by (simp add: active_of_def run_account_def option.map_comp comp_def)

lemma active_of_after_scan [simp]: "active_of s (after_scan s tm w) = active_of s w"
  by (simp add: after_scan_def active_of_upd)

lemma active_of_take:
  assumes "take_task t s w = Inr (found, tm, w')"
  shows "active_of s w' = map_option (\<lambda>n. n + (if found = None then 0 else 1)) (active_of s w)"
proof -
  obtain sc where sc: "scheds w s = Some sc" using assms by (auto simp: take_task_def)
  from take_task_scan [OF assms sc] obtain q w1 where
    q: "scan t False [] (m_fibers sc) w = Inr (found, tm, q, w1)"
    and w': "w' = upd_sched s (\<lambda>sc. sc\<lparr>m_fibers := q,
           m_activeThreadCount := (if found = None then m_activeThreadCount sc
                                   else m_activeThreadCount sc + 1)\<rparr>) w1" .
  have "scheds w1 s = Some sc"
    using scan_conserves [OF q] promoted_scheds [of w w1] sc by auto
  then show ?thesis by (simp add: w' active_of_def sc)
qed

lemma active_of_enter:
  assumes "run_enter t ft w = Inr (f, ft1, w')" "active_of s w \<noteq> None"
  shows "active_of s w' = active_of s w"
proof -
  obtain w1 where "task_fiber ft w = Inr (f, ft1, w1)" and sw: "swapIn sched_act t f (setState f S_READY w1) = Inr w'"
    using assms by (auto simp: run_enter_def)
  then have "scheds w1 = scheds w"
    by (auto simp: task_fiber_def Fiber_new_def safeFiberIdIncr_def new_fiber_def safeFiberCountIncr_def Let_def
      split: option.splits if_splits)
  then have "active_of s (setState f S_READY w1) = active_of s w" by (simp add: active_of_def)
  with active_of_grows [OF swapIn_grows [OF sw], of s] assms(2) show ?thesis by simp
qed

lemma active_of_settle:
  assumes "run_settle s f ft w = Inr w'"
  shows "active_of s w' = active_of s w"
  using assms by (auto simp: run_settle_def active_of_upd split: if_splits)

lemma active_of_idle:
  assumes "run_idle t s i w = Inr r" "active_of s w \<noteq> None"
  shows "(case r of Continue j w' \<Rightarrow> active_of s w' = active_of s w | Break w' \<Rightarrow> active_of s w' = active_of s w)"
proof (cases i)
  case None
  then show ?thesis using assms by (auto simp: run_idle_def)
next
  case (Some f)
  let ?w0 = "upd_sched s (\<lambda>sc. sc\<lparr>m_idleThreadCount := m_idleThreadCount sc + 1\<rparr>) w"
  have 0: "active_of s ?w0 = active_of s w" by (rule active_of_upd) simp
  obtain w1 where sw: "swapIn sched_act t f ?w0 = Inr w1"
    using assms Some by (auto simp: run_idle_def)
  have "active_of s w1 = active_of s w"
    using active_of_grows [OF swapIn_grows [OF sw], of s] 0 assms(2) by simp
  then have "active_of s (upd_sched s (\<lambda>sc. sc\<lparr>m_idleThreadCount := m_idleThreadCount sc - 1\<rparr>) w1) = active_of s w"
    by (subst active_of_upd) simp_all
  then show ?thesis
    using assms Some sw by (auto simp: run_idle_def Let_def split: if_splits)
qed

lemma counted_step: "wstep s c c' \<Longrightarrow> counted s c \<Longrightarrow> counted s c'"
proof (induction rule: wstep.induct)
  case (take c t ft tm w)
  then show ?case by (intro counted_goto) (simp_all add: active_of_take)
next
  case (enter c t ft f ft1 w)
  then have "active_of s w = active_of s (wworld c)" by (intro active_of_enter) (auto simp: counted_iff)
  with enter show ?case by (intro counted_goto) (simp_all add: option.map_ident)
next
  case (drop c t ft)
  then show ?case by (intro counted_goto) (simp_all add: active_of_account)
next
  case (account c t f ft)
  then show ?case by (intro counted_goto) (simp_all add: active_of_account)
next
  case (settle c t f ft w)
  then show ?case by (intro counted_goto) (simp_all add: active_of_settle option.map_ident)
next
  case (idle c t tm w i w1)
  have "active_of s (after_scan s tm w) = active_of s (wworld c)"
    using active_of_take [OF idle(2)] by (simp add: option.map_ident)
  with active_of_idle [OF idle(3)] idle(4) have "active_of s w1 = active_of s (wworld c)"
    by (auto simp: counted_iff)
  with idle show ?case by (intro counted_goto) (simp_all add: option.map_ident counted_iff)
next
  case (exit c t tm w w1)
  have "active_of s (after_scan s tm w) = active_of s (wworld c)"
    using active_of_take [OF exit(2)] by (simp add: option.map_ident)
  with active_of_idle [OF exit(3)] exit(4) have "active_of s w1 = active_of s (wworld c)"
    by (auto simp: counted_iff)
  with exit show ?case by (intro counted_goto) (simp_all add: option.map_ident)
qed

lemma counted_reach: "wreach s c c' \<Longrightarrow> counted s c \<Longrightarrow> counted s c'"
  by (induction rule: wreach.induct) (auto intro: counted_step)

text \<open>Worker thread 7 on a plain scheduler, its main fiber at address 0, and a given queue.\<close>

definition thread_fiber :: "action fiber" where
  "thread_fiber = \<lparr>m_id = 0, m_stacksize = 0, m_state = S_EXEC, m_stack = False, m_cb = None,
     m_ctx = CtxCalling\<rparr>"

definition two_fibers :: "task list \<Rightarrow> sworld" where
  "two_fibers q = one_sched q [0 \<mapsto> thread_fiber,
     1 \<mapsto> plain_fiber S_INIT (BDo (AScheduleFiber 0 2 0) BReturn), 2 \<mapsto> plain_fiber S_INIT BReturn]"

lemmas two_fibers_simps = two_fibers_def one_sched_def thread_fiber_def plain_fiber_def

lemmas run_eval = run_def run_prologue_def run_iter_def take_task_def run_idle_def run_task_def
  run_enter_def run_account_def run_settle_def task_fiber_def swapIn_def switch_to_def resume_def
  leave_entry_def swapOut_def yield_to_def YieldToReady_def YieldToHold_def deref_fiber_def fiber_at_def sched_at_def
  getState_def setState_def set_ctx_def upd_fiber_def SetThis_def upd_sched_def GetThis_def Fiber_main_def
  Fiber_new_def safeFiberIdIncr_def safeFiberCountIncr_def new_fiber_def kMaxFiberId_def idle_body_def
  schedule_ft_def schedule_cb_def schedule_fiber_def scheduleNoLock_def tickle_def thread_arg_def
  FiberAndThread_fiber_def FiberAndThread_cb_def two_fibers_simps Let_def


text \<open>A scheduler that is asked to stop, with one fiber, for the last property.\<close>

definition stop_world :: "task list \<Rightarrow> action ucontext \<Rightarrow> u64 \<Rightarrow> sworld" where
  "stop_world q c n = (one_sched q Map.empty)\<lparr>
     heap := [0 \<mapsto> thread_fiber, 2 \<mapsto> (plain_fiber S_READY (BYieldToReady BReturn))\<lparr>m_ctx := c\<rparr>],
     t_fiber := [7 \<mapsto> 0], t_scheduler_fiber := [7 \<mapsto> 0],
     scheds := [0 \<mapsto> \<lparr>sched_name = ''s'', m_threads = [], m_fibers = q, m_rootFiber = None,
       m_threadIds = [], m_threadCount = 1, m_activeThreadCount = n, m_idleThreadCount = 0,
       m_stopping = True, m_autoStop = True, m_rootThread = 0, iom = None\<rparr>]\<rparr>"

lemma stop_world_steps:
  fixes ft defines "ft \<equiv> FiberAndThread_fiber (Some 2) 0"
  shows "take_task 7 0 (stop_world [ft] c 0) = Inr (Some ft, True, stop_world [] c 1)"
    "run_enter 7 ft (stop_world [] (CtxEntry MainFunc) 1) = Inr (2, ft, stop_world [] (CtxBody MainFunc BReturn) 1)"
    "run_account 0 (stop_world [] c 1) = stop_world [] c 0"
    "run_settle 0 2 ft (stop_world [] c 0) = Inr (stop_world [ft] c 0)"
    "after_scan 0 True (stop_world [] c 1) = stop_world [] c 1"
  by (simp_all add: run_eval stop_world_def ft_def after_scan_def fun_eq_iff)

lemma FiberAndThread_fiber_simps [simp]:
  "ft_fiber (FiberAndThread_fiber f u) = f" "ft_cb (FiberAndThread_fiber f u) = None"
  "ft_thread (FiberAndThread_fiber f u) = u"
  by (simp_all add: FiberAndThread_fiber_def)

section \<open>Properties\<close>

text \<open>
  C12: the loop of a worker thread ends. Every callback is finite and can only schedule finitely
  many others, so there is a bound on the iterations, computed from the queue, the suspended
  fibers and the idle fiber's callback, beyond which \<open>run\<close> has one definite outcome: it returns
  or fails, and never goes on.
\<close>

theorem run_returns:
  assumes sc: "scheds w s = Some sc" and fresh: "fresh_heap w"
    and main: "\<forall>m. t_scheduler_fiber w t = Some m \<longrightarrow> m < next_fid w"
  shows "\<exists>r. r \<noteq> Inl OutOfFuel
    \<and> (\<forall>fuel > work_left s w + cb_weight (idle_body iom_idle sc). run iom_idle fuel t s w = r)"
proof (cases "run_prologue iom_idle t s w")
  case (Inl e)
  then have "e \<noteq> OutOfFuel"
    by (auto simp: run_prologue_def Let_def and_then_Inl_iff fuel_free split: if_splits)
  with Inl show ?thesis by (intro exI [of _ "Inl e"]) (simp add: run_def)
next
  case (Inr r)
  then obtain f w1 where r: "run_prologue iom_idle t s w = Inr (f, w1)" by (cases r) simp
  let ?n = "Suc (work_left s w1)"
  have ends: "run_loop ?n t s (Some f) w1 \<noteq> Inl OutOfFuel"
    using run_prologue_weight [OF r sc fresh main] by (intro run_loop_ends) auto
  moreover have "run iom_idle fuel t s w = run_loop ?n t s (Some f) w1"
    if "work_left s w + cb_weight (idle_body iom_idle sc) < fuel" for fuel
  proof -
    from that obtain k where "fuel = ?n + k"
      using run_prologue_weight [OF r sc fresh main] by (auto simp: less_eq_Suc_le dest: le_Suc_ex)
    then show ?thesis using run_loop_more [OF ends, of k] r by (simp add: run_def)
  qed
  ultimately show ?thesis by blast
qed

theorem run_returns_witness:
  "\<exists>r. r \<noteq> Inl OutOfFuel
    \<and> (\<forall>fuel > work_left 0 (two_fibers []) + cb_weight BReturn. run BReturn fuel 7 0 (two_fibers []) = r)"
  using run_returns [of "two_fibers []" 0 _ 7 BReturn]
  by (simp add: two_fibers_simps fresh_heap_def idle_body_def)

text \<open>
  What \<open>run\<close> leaves behind. A thread runs a queue with one fiber, which schedules a second
  one; the loop ends with the second fiber, made ready by the last scan, still in the queue.
\<close>

theorem run_leaves_ready_fiber:
  "case run BReturn 5 7 0 (two_fibers [FiberAndThread_fiber (Some 1) 0]) of
     Inl e \<Rightarrow> False
   | Inr w \<Rightarrow> map_option m_fibers (scheds w 0) = Some [FiberAndThread_fiber (Some 2) 0]
       \<and> map_option m_state (heap w 2) = Some S_READY"
  by (simp add: run_eval eval_nat_numeral del: fun_upd_apply) (simp add: run_eval)
text \<open>A task with a fiber, from \<open>swapIn\<close> to the queue.\<close>

lemma run_task_fiber:
  assumes sc: "scheds w s = Some sc" and ft: "ft_fiber ft = Some f" and fb: "heap w f = Some fb"
    and todo: "todo fb = Some b" and acts: "\<forall>a \<in> set (body_actions b). action_ok a w"
    and main: "t_scheduler_fiber w t = Some m" "m \<noteq> f" "heap w m \<noteq> None"
  defines "st \<equiv> fst (next_stop MainFunc b)"
  shows "\<exists>w' sc' added. run_task t s ft w = Inr w' \<and> scheds w' s = Some sc'
    \<and> heap w' f = Some (stopped_at b fb) \<and> t_fiber w' t = Some m
    \<and> m_fibers sc' = m_fibers sc @ added @ (if st = S_READY then [ft] else [])
    \<and> m_activeThreadCount sc' = m_activeThreadCount sc - 1
    \<and> (\<forall>g. g \<noteq> f \<longrightarrow> g \<noteq> m \<longrightarrow> heap w' g = heap w g)
    \<and> heap w' m \<noteq> None \<and> t_scheduler_fiber w' = t_scheduler_fiber w"
proof -
  let ?w1 = "setState f S_READY w"
  let ?fb = "fb\<lparr>m_state := S_READY\<rparr>"
  have 1: "swappable t m f ?w1" "heap ?w1 f = Some ?fb" "todo ?fb = Some b"
    using fb todo main by (auto simp: swappable_def fiber_ops todo_def
      split: ucontext.splits entry.splits if_splits)
  have "\<forall>a \<in> set (body_actions b). action_ok a ?w1"
    using acts action_ok_more [of ?w1 w] by (simp add: setState_def)
  from sa.swapIn_once [OF 1 this] obtain w2 where sw: "swapIn sched_act t f ?w1 = Inr w2"
    and w2: "heap w2 f = Some (stopped_at b fb)" "t_fiber w2 t = Some m"
      "\<forall>g. g \<noteq> f \<longrightarrow> g \<noteq> m \<longrightarrow> heap w2 g = heap ?w1 g" "heap w2 m \<noteq> None"
      "t_scheduler_fiber w2 = t_scheduler_fiber w"
    by auto
  from swapIn_grows [OF sw, of s] sc obtain sc2 added where sc2: "scheds w2 s = Some sc2"
    "m_fibers sc2 = m_fibers sc @ added" "m_activeThreadCount sc2 = m_activeThreadCount sc"
    by (auto simp: grows_def)
  have en: "run_enter t ft w = Inr (f, ft, w2)"
    using ft sw by (simp add: run_enter_def task_fiber_def)
  have st: "m_state (stopped_at b fb) = st" by (simp add: st_def)
  have "st \<in> {S_TERM, S_EXCEPT, S_READY, S_HOLD}"
    unfolding st_def by (induction b) auto
  then consider "st = S_READY" | "st = S_HOLD" | "st = S_TERM \<or> st = S_EXCEPT" by blast
  then show ?thesis
  proof cases
    case 1
    then show ?thesis
      using en sc2 w2 st ft
      by (auto simp: run_task_def run_settle_def run_account_def getState_Some schedule_ft_fibers fiber_ops)
  next
    case 2
    have "(stopped_at b fb)\<lparr>m_state := S_HOLD\<rparr> = stopped_at b fb"
      using 2 by (simp add: stopped_at_def st_def)
    with 2 show ?thesis
      using en sc2 w2 st ft by (auto simp: run_task_def run_settle_def run_account_def fiber_ops)
  next
    case 3
    then show ?thesis
      using en sc2 w2 st ft by (auto simp: run_task_def run_settle_def run_account_def fiber_ops)
  qed
qed



text \<open>
  When the loop ends. The loop is left only when there is no idle fiber any more, and, as
  long as no queued fiber is over, every task still in the queue is then one that the thread
  passes over: pinned to it, running elsewhere, or a fiber that this last scan made ready.
\<close>

theorem loop_ends_with_blocked_queue:
  assumes r: "run_iter t s i w = Inr (Break w')" and sc: "scheds w s = Some sc"
    and live: "\<forall>x \<in> set (m_fibers sc). \<not> task_over w x"
  shows "i = None \<and> (\<exists>sc'. scheds w' s = Some sc' \<and> m_fibers sc' = m_fibers sc
    \<and> (\<forall>x \<in> set (m_fibers sc').
         (ft_thread x \<noteq> 0 \<and> ft_thread x = t)
       \<or> (\<exists>f fb. ft_fiber x = Some f \<and> heap w' f = Some fb \<and> m_state fb \<in> {S_EXEC, S_READY})))"
proof -
  obtain found tm w1 where tk': "take_task t s w = Inr (found, tm, w1)"
    using r by (auto simp: run_iter_def)
  have found: "found = None" and i: "i = None" and w': "w' = (if tm then upd_sched s tickle w1 else w1)"
    using r by (cases found; cases i; auto simp: run_iter_def run_idle_def tk' Let_def split: if_splits)+
  note tk = tk' [unfolded found]
  from tk sc obtain q w0 where q: "scan t False [] (m_fibers sc) w = Inr (None, tm, q, w0)"
    and w1: "w1 = upd_sched s (\<lambda>sc. sc\<lparr>m_fibers := q,
           m_activeThreadCount := (if (None :: task option) = None then m_activeThreadCount sc
                                   else m_activeThreadCount sc + 1)\<rparr>) w0"
    by (rule take_task_scan)
  from scan_none [OF q live] scan_conserves [OF q]
  have "q = m_fibers sc" "\<forall>x \<in> set q. passed_over t w0 x" "promoted w w0" by auto
  then show ?thesis
    using i sc promoted_scheds [of w w0] unfolding w' w1 passed_over_def by auto
qed

theorem loop_ends_with_blocked_queue_witness:
  "\<exists>w'. run_iter 7 0 None (one_sched [FiberAndThread_cb (Some BReturn) 7] Map.empty) = Inr (Break w')
    \<and> (\<exists>sc'. scheds w' 0 = Some sc' \<and> m_fibers sc' = [FiberAndThread_cb (Some BReturn) 7])"
  (is "\<exists>w'. ?r = Inr (Break w') \<and> _")
proof -
  obtain w' where w': "?r = Inr (Break w')"
    by (simp add: run_iter_def take_task_def sched_at_Some run_idle_def FiberAndThread_cb_def)
  from loop_ends_with_blocked_queue [OF w'] show ?thesis
    using w' by (auto simp: task_over_def FiberAndThread_cb_def)
qed



text \<open>
  The answer of \<open>isStoped\<close> can change back. A worker takes its count down before it queues a
  ready fiber again; between the two the scheduler says it has stopped, and one step later
  its queue is not empty.
\<close>

theorem isStoped_window:
  defines "c0 \<equiv> \<lparr>wworld = stop_world [FiberAndThread_fiber (Some 2) 0] (CtxEntry MainFunc) 0,
      phases = (\<lambda>_. Scanning), idles = Map.empty\<rparr>"
  shows "counted 0 c0 \<and> (\<exists>c c' sc sc'. wreach 0 c0 c \<and> scheds (wworld c) 0 = Some sc \<and> isStoped sc
    \<and> wstep 0 c c' \<and> scheds (wworld c') 0 = Some sc' \<and> m_fibers sc' = [FiberAndThread_fiber (Some 2) 0])"
proof -
  let ?ft = "FiberAndThread_fiber (Some 2) 0"
  define c1 where "c1 = goto 7 (Took ?ft) (stop_world [] (CtxEntry MainFunc) 1) c0"
  define c2 where "c2 = goto 7 (Ran 2 ?ft) (stop_world [] (CtxBody MainFunc BReturn) 1) c1"
  define c3 where "c3 = goto 7 (Settling 2 ?ft) (stop_world [] (CtxBody MainFunc BReturn) 0) c2"
  define c4 where "c4 = goto 7 Scanning (stop_world [?ft] (CtxBody MainFunc BReturn) 0) c3"
  have "wstep 0 c0 c1"
    using wstep.take [of c0 7 0 ?ft True] by (simp add: c0_def c1_def stop_world_steps)
  moreover have "wstep 0 c1 c2"
    unfolding c2_def by (rule wstep.enter [where ft = ?ft]) (simp_all add: c1_def goto_def stop_world_steps)
  moreover have "wstep 0 c2 c3"
    using wstep.account [of c2 7 2 ?ft 0] by (simp add: c2_def c3_def goto_def stop_world_steps)
  moreover have "wstep 0 c3 c4"
    using wstep.settle [of c3 7 2 ?ft 0] by (simp add: c3_def c4_def goto_def stop_world_steps)
  ultimately have "wreach 0 c0 c3" "wstep 0 c3 c4"
    by (blast intro: step_intros)+
  moreover have "counted 0 c0"
    by (simp add: counted_def holders_def c0_def stop_world_def)
  ultimately show ?thesis
    by (intro conjI exI [of _ c3] exI [of _ c4] exI) (auto simp: c3_def c4_def goto_def stop_world_def isStoped_def Scheduler_isStoped_def)
qed
end
