(* ===== verification/PlainTasks.thy ===== *)
theory PlainTasks
  imports SchedulerRun
begin

text \<open>
  Tasks whose callbacks schedule nothing but such callbacks, on the same scheduler: what entering
  one does to the state, what a scan of a queue of them does, and what a fiber made for one
  is. The theories \<open>SchedulerDrain\<close> (one worker thread) and \<open>WorkerPool\<close> (several) rest on these
  facts.
\<close>

section \<open>Callbacks that only schedule callbacks\<close>

text \<open>
  Whether thread \<open>t\<close> may take a task that names the thread \<open>u\<close>. The callbacks of interest have no
  other actions than scheduling such callbacks on the scheduler \<open>s\<close> itself, for thread names
  that \<open>P\<close> admits.
\<close>

definition takes :: "tid \<Rightarrow> u64 \<Rightarrow> bool" where
  "takes t u \<longleftrightarrow> u = 0 \<or> u \<noteq> t"

function plain_body :: "(u64 \<Rightarrow> bool) \<Rightarrow> sid \<Rightarrow> action body \<Rightarrow> bool" where
  "plain_body P s BReturn \<longleftrightarrow> True"
| "plain_body P s BThrow \<longleftrightarrow> True"
| "plain_body P s (BYieldToReady b) \<longleftrightarrow> plain_body P s b"
| "plain_body P s (BYieldToHold b) \<longleftrightarrow> plain_body P s b"
| "plain_body P s (BDo (AScheduleCb s' b' thread) b) \<longleftrightarrow>
     s' = s \<and> P (thread_arg thread) \<and> plain_body P s b' \<and> plain_body P s b"
| "plain_body P s (BDo (AScheduleFiber s' f thread) b) \<longleftrightarrow> False"
| "plain_body P s (BDo (ARun s') b) \<longleftrightarrow> False"
  by pat_completeness auto
termination
  by (relation "measure (\<lambda>(P, s, b). size_body size b)") auto

fun plain_action :: "(u64 \<Rightarrow> bool) \<Rightarrow> sid \<Rightarrow> action \<Rightarrow> bool" where
  "plain_action P s (AScheduleCb s' b thread) \<longleftrightarrow> s' = s \<and> P (thread_arg thread) \<and> plain_body P s b"
| "plain_action P s a \<longleftrightarrow> False"

definition plain_task :: "(u64 \<Rightarrow> bool) \<Rightarrow> sid \<Rightarrow> task \<Rightarrow> bool" where
  "plain_task P s x \<longleftrightarrow> P (ft_thread x) \<and> ft_fiber x = None \<and> (\<exists>b. ft_cb x = Some b \<and> plain_body P s b)"

lemma plain_body_actions: "plain_body P s b \<Longrightarrow> a \<in> set (actions_to_stop b) \<Longrightarrow> plain_action P s a"
  by (induction P s b rule: plain_body.induct) auto

lemma plain_body_rest:
  "plain_body P s b \<Longrightarrow> next_stop e b = (st, c) \<Longrightarrow>
     st \<in> {S_TERM, S_EXCEPT} \<and> c = CtxFinished
     \<or> st \<in> {S_READY, S_HOLD} \<and> (\<exists>b'. c = CtxBody e b' \<and> plain_body P s b')"
  by (induction P s b rule: plain_body.induct) auto

lemma plain_actions_run:
  "\<forall>a \<in> set as. plain_action P s a \<Longrightarrow> scheds w s = Some sc \<Longrightarrow> iom sc = None \<Longrightarrow>
   \<exists>added. run_actions sched_act u as w
       = Inr (w\<lparr>scheds := (scheds w)(s \<mapsto> sc\<lparr>m_fibers := m_fibers sc @ added\<rparr>)\<rparr>)
     \<and> (\<forall>x \<in> set added. plain_task P s x)"
proof (induction as arbitrary: w sc)
  case Nil
  then have "w\<lparr>scheds := (scheds w)(s \<mapsto> sc\<lparr>m_fibers := m_fibers sc @ []\<rparr>)\<rparr> = w"
    by (intro sworld.equality) (auto simp: fun_eq_iff)
  then show ?case by (intro exI [of _ "[]"]) (simp only: run_actions.simps list.set ball_empty simp_thms)
next
  case (Cons a as)
  then obtain b thread where a: "a = AScheduleCb s b thread" "P (thread_arg thread)" "plain_body P s b"
    by (cases a) auto
  let ?x = "FiberAndThread_cb (Some b) (thread_arg thread)"
  let ?sc = "sc\<lparr>m_fibers := m_fibers sc @ [?x]\<rparr>"
  let ?w = "w\<lparr>scheds := (scheds w)(s \<mapsto> ?sc)\<rparr>"
  have as: "\<forall>a \<in> set as. plain_action P s a" and sc1: "scheds ?w s = Some ?sc" "iom ?sc = None"
    using Cons.prems by simp_all
  have "sched_act u a w = Inr ?w"
    using a Cons.prems
    by (simp add: sched_at_Some upd_sched_def schedule_cb_def scheduleNoLock_def tickle_def FiberAndThread_cb_def)
  moreover obtain added where "run_actions sched_act u as ?w
      = Inr (?w\<lparr>scheds := (scheds ?w)(s \<mapsto> ?sc\<lparr>m_fibers := m_fibers ?sc @ added\<rparr>)\<rparr>)"
    "\<forall>x \<in> set added. plain_task P s x"
    using Cons.IH [OF as sc1] by blast
  moreover have "plain_task P s ?x"
    using a by (simp add: plain_task_def FiberAndThread_cb_def)
  ultimately show ?case
    by (intro exI [of _ "?x # added"]) (simp del: fun_upd_apply)
qed

text \<open>Entering a fiber with such a callback: the whole state afterwards.\<close>

definition entered :: "tid \<Rightarrow> sid \<Rightarrow> fid \<Rightarrow> fid \<Rightarrow> action body \<Rightarrow> task list \<Rightarrow> sworld \<Rightarrow> sworld" where
  "entered t s m f b added w = w\<lparr>
     heap := (heap w)(m := map_option (\<lambda>mb. mb\<lparr>m_ctx := CtxCalling\<rparr>) (heap w m),
                      f := map_option (stopped_at b) (heap w f)),
     t_fiber := (t_fiber w)(t \<mapsto> m),
     scheds := (scheds w)(s := map_option (\<lambda>sc. sc\<lparr>m_fibers := m_fibers sc @ added\<rparr>) (scheds w s))\<rparr>"

lemma entered_simps [simp]:
  "heap (entered t s m f b added w) = (heap w)(m := map_option (\<lambda>mb. mb\<lparr>m_ctx := CtxCalling\<rparr>) (heap w m),
                      f := map_option (stopped_at b) (heap w f))"
  "scheds (entered t s m f b added w)
     = (scheds w)(s := map_option (\<lambda>sc. sc\<lparr>m_fibers := m_fibers sc @ added\<rparr>) (scheds w s))"
  "next_fid (entered t s m f b added w) = next_fid w"
  "s_fiber_id (entered t s m f b added w) = s_fiber_id w"
  "t_scheduler_fiber (entered t s m f b added w) = t_scheduler_fiber w"
  by (simp_all add: entered_def)

lemma swapIn_plain:
  assumes sw: "swappable t m f w" and fb: "heap w f = Some fb" and b: "todo fb = Some b" "plain_body P s b"
    and sc: "scheds w s = Some sc" "iom sc = None"
  shows "\<exists>added. swapIn sched_act t f w = Inr (entered t s m f b added w)
    \<and> (\<forall>x \<in> set added. plain_task P s x)"
proof -
  let ?w0 = "set_ctx m CtxCalling (setState f S_EXEC (SetThis t (Some f) w))"
  obtain mb where mb: "heap w m = Some mb"
    using sw by (auto simp: swappable_def)
  have as: "\<forall>a \<in> set (actions_to_stop b). plain_action P s a"
    using plain_body_actions [OF b(2)] by blast
  have "plain_action P s a \<Longrightarrow> action_ok a w" for a
    using sc by (cases a) auto
  with as have ok: "\<forall>a \<in> set (actions_to_stop b). action_ok a w" by blast
  have sc0: "scheds ?w0 s = Some sc" using sc by simp
  obtain added where run: "run_actions sched_act t (actions_to_stop b) ?w0
      = Inr (?w0\<lparr>scheds := (scheds ?w0)(s \<mapsto> sc\<lparr>m_fibers := m_fibers sc @ added\<rparr>)\<rparr>)"
    and added: "\<forall>x \<in> set added. plain_task P s x"
    using plain_actions_run [OF as sc0 sc(2)] by blast
  have "swapIn sched_act t f w = Inr (?w0\<lparr>scheds := (scheds ?w0)(s \<mapsto> sc\<lparr>m_fibers := m_fibers sc @ added\<rparr>),
      heap := (heap w)(m \<mapsto> mb\<lparr>m_ctx := CtxCalling\<rparr>, f \<mapsto> stopped_at b fb),
      t_fiber := (t_fiber w)(t \<mapsto> m)\<rparr>)"
    using sa.swapIn_stops [OF sw fb b(1) mb ok] run by auto
  also have "?w0\<lparr>scheds := (scheds ?w0)(s \<mapsto> sc\<lparr>m_fibers := m_fibers sc @ added\<rparr>),
      heap := (heap w)(m \<mapsto> mb\<lparr>m_ctx := CtxCalling\<rparr>, f \<mapsto> stopped_at b fb),
      t_fiber := (t_fiber w)(t \<mapsto> m)\<rparr> = entered t s m f b added w"
    using fb mb sc by (simp add: entered_def set_ctx_def setState_def upd_fiber_def SetThis_def)
  finally show ?thesis using added by blast
qed


section \<open>The queue\<close>

text \<open>
  The fibers that the queue holds, and the tasks the thread can run: a plain callback, or a
  fiber that has one left to do and is in one of the states \<open>S\<close>.
\<close>

definition fids_of :: "task list \<Rightarrow> fid list" where
  "fids_of q = map (the \<circ> ft_fiber) (filter (\<lambda>x. ft_fiber x \<noteq> None) q)"

definition task_ready :: "(u64 \<Rightarrow> bool) \<Rightarrow> sid \<Rightarrow> State set \<Rightarrow> sworld \<Rightarrow> task \<Rightarrow> bool" where
  "task_ready P s S w x \<longleftrightarrow> P (ft_thread x) \<and>
     (case ft_fiber x of
        None \<Rightarrow> (\<exists>b. ft_cb x = Some b \<and> plain_body P s b)
      | Some f \<Rightarrow> (\<exists>fb b. heap w f = Some fb \<and> m_state fb \<in> S \<and> todo fb = Some b \<and> plain_body P s b))"

lemma fids_of_simps [simp]:
  "fids_of [] = []"
  "fids_of (x # q) = (case ft_fiber x of None \<Rightarrow> fids_of q | Some f \<Rightarrow> f # fids_of q)"
  "fids_of (q @ q') = fids_of q @ fids_of q'"
  by (auto simp: fids_of_def split: option.splits)

lemma set_fids_of: "f \<in> set (fids_of q) \<longleftrightarrow> (\<exists>x \<in> set q. ft_fiber x = Some f)"
  by (force simp: fids_of_def image_iff)

lemma mset_fids_of: "mset q = mset q' \<Longrightarrow> mset (fids_of q) = mset (fids_of q')"
  by (simp add: fids_of_def mset_filter)

lemma plain_task_ready: "plain_task P s x \<Longrightarrow> task_ready P s S w x"
  by (auto simp: plain_task_def task_ready_def)

lemma fids_of_plain: "\<forall>x \<in> set added. plain_task P s x \<Longrightarrow> fids_of added = []"
  by (auto simp: fids_of_def plain_task_def)

lemma task_ready_cong:
  "(\<And>f. ft_fiber x = Some f \<Longrightarrow> heap w' f = heap w f) \<Longrightarrow> task_ready P s S w x \<Longrightarrow> task_ready P s S w' x"
  by (auto simp: task_ready_def split: option.splits)

lemma task_ready_mono: "S \<subseteq> S' \<Longrightarrow> task_ready P s S w x \<Longrightarrow> task_ready P s S' w x"
  by (fastforce simp: task_ready_def split: option.splits)

abbreviation queued_states :: "State set" where
  "queued_states \<equiv> {S_INIT, S_HOLD, S_READY}"

lemma todo_state [simp]: "todo (fb\<lparr>m_state := st\<rparr>) = todo fb"
  by (simp add: todo_def split: ucontext.splits entry.splits)

lemma task_ready_promoted:
  assumes p: "\<forall>g. promoted_to (heap w g) (heap w' g)" and x: "task_ready P s queued_states w x"
  shows "task_ready P s queued_states w' x"
proof (cases "ft_fiber x")
  case None
  with x show ?thesis by (auto simp: task_ready_def)
next
  case (Some f)
  with p have "promoted_to (heap w f) (heap w' f)" by blast
  with x Some show ?thesis by (auto simp: task_ready_def promoted_to_def)
qed

lemma task_ready_not_over:
  "task_ready P s queued_states w x \<Longrightarrow> \<not> task_over w x \<and> (\<forall>f. ft_fiber x = Some f \<longrightarrow> heap w f \<noteq> None)"
  by (auto simp: task_ready_def task_over_def live_state_def split: option.splits)

text \<open>The scan of such a queue: it takes one task, or makes every fiber of it ready.\<close>

lemma scan_plain:
  assumes ok: "\<forall>u. P u \<longrightarrow> takes t u" and ready: "\<forall>x \<in> set xs. task_ready P s queued_states w x"
  obtains x q w' where "scan t False [] xs w = Inr (Some x, True, q, w')" "mset xs = mset (x # q)"
      "promoted w w'" "task_ready P s {S_READY} w' x" "\<forall>y \<in> set q. task_ready P s queued_states w' y"
  | tm w' where "scan t False [] xs w = Inr (None, tm, xs, w')" "promoted w w'"
      "\<forall>y \<in> set xs. task_ready P s {S_READY} w' y \<and> ft_fiber y \<noteq> None"
proof -
  have live: "\<forall>x \<in> set xs. \<not> task_over w x \<and> (\<forall>f. ft_fiber x = Some f \<longrightarrow> heap w f \<noteq> None)"
    using ready task_ready_not_over by blast
  obtain found tm q w' where sn: "scan t False [] xs w = Inr (found, tm, q, w')"
    using scan_total [OF live] by (metis prod_cases4)
  from scan_conserves [OF sn] obtain dropped where
    ms: "mset xs = mset q + mset (case found of None \<Rightarrow> [] | Some x \<Rightarrow> [x]) + mset dropped"
    and dr: "\<forall>x \<in> set dropped. task_over w x" and p: "promoted w w'" by auto
  have "set dropped \<subseteq> set xs"
    using arg_cong [OF ms, of set_mset] by auto
  with dr live have nodrop: "dropped = []" by (cases dropped) auto
  have rdy: "\<forall>y \<in> set xs. task_ready P s queued_states w' y"
    using ready task_ready_promoted p unfolding promoted_def by blast
  show thesis
  proof (cases found)
    case (Some x)
    have x: "x \<in> set xs" "tm" "case ft_fiber x of None \<Rightarrow> True | Some f \<Rightarrow> \<exists>fb. heap w' f = Some fb \<and> m_state fb = S_READY"
      using scan_found [OF sn [unfolded Some]] by simp_all
    have "task_ready P s {S_READY} w' x"
      using x rdy by (auto simp: task_ready_def split: option.splits)
    moreover have "set q \<subseteq> set xs"
      using arg_cong [OF ms, of set_mset] by auto
    ultimately show thesis
      using sn Some x(2) ms nodrop p rdy by (intro that(1) [of x q w']) auto
  next
    case None
    from scan_none [OF sn [unfolded None]] live
    have q: "q = xs" and passed: "\<forall>x \<in> set xs. passed_over t w' x" by auto
    have "task_ready P s {S_READY} w' y \<and> ft_fiber y \<noteq> None" if "y \<in> set xs" for y
    proof -
      have r: "task_ready P s queued_states w' y" and "passed_over t w' y"
        using rdy passed that by blast+
      then obtain f fb where "ft_fiber y = Some f" "heap w' f = Some fb" "m_state fb \<in> {S_EXEC, S_READY}"
        using ok unfolding passed_over_def task_ready_def takes_def by blast
      with r show ?thesis by (auto simp: task_ready_def)
    qed
    with sn None q p show thesis by (intro that(2) [of tm w']) auto
  qed
qed

text \<open>When every fiber in the queue is ready, a scan that finds nothing means an empty queue.\<close>

lemma scan_ready:
  assumes ok: "\<forall>u. P u \<longrightarrow> takes t u" and ready: "task_ready P s {S_READY} w x"
  shows "scan t tm pre (x # xs) w = Inr (Some x, True, pre @ xs, w)"
proof (cases "ft_fiber x")
  case None
  with ready ok show ?thesis by (auto simp: task_ready_def takes_def)
next
  case (Some f)
  with ready ok obtain fb where "heap w f = Some fb" "m_state fb = S_READY" "\<not> (ft_thread x \<noteq> 0 \<and> ft_thread x = t)"
    by (auto simp: task_ready_def takes_def)
  with Some show ?thesis by (auto simp: getState_Some)
qed

text \<open>A scan touches only the fibers in the queue.\<close>

lemma scan_others:
  "scan t tm pre xs w = Inr (found, tm', q, w') \<Longrightarrow> g \<notin> set (fids_of xs) \<Longrightarrow> heap w' g = heap w g"
proof (induction "length xs" arbitrary: tm pre xs w rule: less_induct)
  case less
  show ?case
  proof (cases xs)
    case Nil
    with less.prems show ?thesis by auto
  next
    case (Cons x xs')
    from less.prems(1) [unfolded Cons] show ?thesis
    proof (cases rule: scan_Cons_cases)
      case pinned
      from less.hyps [OF _ pinned(3)] Cons less.prems(2) show ?thesis by (auto split: option.splits)
    next
      case (promote f fb)
      from less.hyps [OF _ promote(5)] Cons less.prems(2) promote(2) show ?thesis
        by (auto simp: fiber_ops)
    next
      case (running f fb)
      from less.hyps [OF _ running(5)] Cons less.prems(2) running(2) show ?thesis by auto
    next
      case (over f fb y ys)
      from less.hyps [OF _ over(6)] Cons less.prems(2) over(2,5) show ?thesis by (auto split: option.splits)
    qed auto
  qed
qed

section \<open>Facts for the loops\<close>

text \<open>
  A fiber that was entered and has stopped for good, as far as the scheduler goes: it is over
  or on hold.
\<close>

definition settled :: "action fiber \<Rightarrow> bool" where
  "settled fb \<longleftrightarrow> m_state fb \<in> {S_HOLD, S_TERM, S_EXCEPT}
     \<and> (case m_ctx fb of CtxEntry e \<Rightarrow> False | _ \<Rightarrow> True)"

definition opt_list :: "'a option \<Rightarrow> 'a list" where
  "opt_list p = (case p of None \<Rightarrow> [] | Some x \<Rightarrow> [x])"

lemma opt_list_simps [simp]: "opt_list None = []" "opt_list (Some x) = [x]"
  by (simp_all add: opt_list_def)

lemma set_opt_list [simp]: "x \<in> set (opt_list p) \<longleftrightarrow> p = Some x"
  by (auto simp: opt_list_def split: option.splits)

lemma opt_list_eq [simp]: "opt_list p = [] \<longleftrightarrow> p = None" "opt_list p = [x] \<longleftrightarrow> p = Some x"
  by (auto simp: opt_list_def split: option.splits)

lemma upd_sched_tickle: "scheds w s = Some sc \<Longrightarrow> iom sc = None \<Longrightarrow> upd_sched s tickle w = w"
  by (rule sworld.equality) (auto simp: upd_sched_def tickle_def fun_eq_iff)

lemma promoted_frame:
  assumes "promoted w w'"
  shows "next_fid w' = next_fid w" "t_scheduler_fiber w' = t_scheduler_fiber w" "s_fiber_id w' = s_fiber_id w"
proof -
  have "w' = w\<lparr>heap := heap w'\<rparr>" using assms by (simp add: promoted_def)
  moreover have "next_fid (w\<lparr>heap := h\<rparr>) = next_fid w" "t_scheduler_fiber (w\<lparr>heap := h\<rparr>) = t_scheduler_fiber w"
    "s_fiber_id (w\<lparr>heap := h\<rparr>) = s_fiber_id w" for h by simp_all
  ultimately show "next_fid w' = next_fid w" "t_scheduler_fiber w' = t_scheduler_fiber w" "s_fiber_id w' = s_fiber_id w"
    by metis+
qed

lemma task_ready_heap: "heap w1 = heap w' \<Longrightarrow> task_ready P s S w1 x = task_ready P s S w' x"
  by (simp add: task_ready_def split: option.splits)

lemma fids_of_Cons_list: "fids_of (x # q) = opt_list (ft_fiber x) @ fids_of q"
  by (cases "ft_fiber x") simp_all

lemma task_ready_promoted_ready:
  assumes p: "\<forall>g. promoted_to (heap w g) (heap w' g)" and x: "task_ready P s {S_READY} w x"
  shows "task_ready P s {S_READY} w' x"
proof (cases "ft_fiber x")
  case None
  with x show ?thesis by (auto simp: task_ready_def)
next
  case (Some f)
  with p have "promoted_to (heap w f) (heap w' f)" by blast
  with x Some show ?thesis by (auto simp: task_ready_def promoted_to_def)
qed

lemma s_fiber_id_upd_sched [simp]: "s_fiber_id (upd_sched s g w) = s_fiber_id w"
  by (simp add: upd_sched_def)

lemma task_ready_live: "task_ready P s S w x \<Longrightarrow> ft_fiber x = Some f \<Longrightarrow> heap w f \<noteq> None"
  by (auto simp: task_ready_def)

lemma Fiber_new_made:
  assumes "Fiber_new True (Some b) 0 False w = Inr (f, w1)"
  shows "f = next_fid w \<and> next_fid w1 = next_fid w + 1 \<and> scheds w1 = scheds w
    \<and> t_scheduler_fiber w1 = t_scheduler_fiber w
    \<and> (s_fiber_id w1 = s_fiber_id w \<or> s_fiber_id w1 = s_fiber_id w + 1)
    \<and> (\<exists>fb. heap w1 = (heap w)(f \<mapsto> fb) \<and> m_state fb = S_INIT \<and> todo fb = Some b)"
  using assms
  by (auto simp: Fiber_new_def safeFiberIdIncr_def new_fiber_def safeFiberCountIncr_def todo_def Let_def
    split: if_splits)

text \<open>A callback first gets a fiber of its own; there must be an id for it.\<close>

lemma Fiber_new_plain:
  assumes "unat (s_fiber_id w) < unat kMaxFiberId"
  obtains fb w1 where "Fiber_new True (Some b) 0 False w = Inr (next_fid w, w1)"
    "heap w1 = (heap w)(next_fid w \<mapsto> fb)" "m_state fb = S_INIT" "todo fb = Some b"
    "next_fid w1 = next_fid w + 1" "scheds w1 = scheds w" "t_scheduler_fiber w1 = t_scheduler_fiber w"
    "unat (s_fiber_id w1) = unat (s_fiber_id w) + 1"
proof -
  have "s_fiber_id w \<le> kMaxFiberId - 1"
    using assms by (simp add: word_le_nat_alt unat_kMaxFiberId) (simp add: kMaxFiberId_def)
  moreover have "unat (s_fiber_id w + 1) = unat (s_fiber_id w) + 1"
    using assms by (intro le_kMaxFiberId_succ) (simp add: word_le_nat_alt)
  moreover define fb :: "action fiber" where "fb = \<lparr>m_id = s_fiber_id w + 1, m_stacksize = g_fiber_stack_size w, m_state = S_INIT,
    m_stack = True, m_cb = Some b, m_ctx = CtxEntry MainFunc\<rparr>"
  moreover define w1 where "w1 = w\<lparr>s_fiber_id := s_fiber_id w + 1, s_fiber_id_set := insert (s_fiber_id w + 1) (s_fiber_id_set w),
    s_fiber_count := s_fiber_count w + 1, heap := (heap w)(next_fid w \<mapsto> fb), next_fid := next_fid w + 1\<rparr>"
  ultimately show thesis
    by (intro that [of w1 fb])
      (auto simp: Fiber_new_def safeFiberIdIncr_def new_fiber_def safeFiberCountIncr_def todo_def Let_def)
qed

section \<open>The parts of an iteration\<close>

text \<open>What a scan of the queue \<open>q\<close> may change.\<close>

definition scanned :: "task list \<Rightarrow> sworld \<Rightarrow> sworld \<Rightarrow> bool" where
  "scanned q w w' \<longleftrightarrow> (\<forall>g. promoted_to (heap w g) (heap w' g))
     \<and> (\<forall>g. g \<notin> set (fids_of q) \<longrightarrow> heap w' g = heap w g)
     \<and> next_fid w' = next_fid w \<and> t_scheduler_fiber w' = t_scheduler_fiber w \<and> s_fiber_id w' = s_fiber_id w"

lemma scanned_fresh: "scanned q w w' \<Longrightarrow> fresh_heap w \<Longrightarrow> fresh_heap w'"
  unfolding scanned_def fresh_heap_def promoted_to_def by (metis option.distinct(1))

lemma take_plain:
  assumes ok: "\<forall>u. P u \<longrightarrow> takes t u" and sc: "scheds w s = Some sc"
    and ready: "\<forall>x \<in> set (m_fibers sc). task_ready P s queued_states w x"
  obtains x q w1 where "take_task t s w = Inr (Some x, True, w1)" "mset (m_fibers sc) = mset (x # q)"
      "scanned (m_fibers sc) w w1" "task_ready P s {S_READY} w1 x"
      "scheds w1 s = Some (sc\<lparr>m_fibers := q, m_activeThreadCount := m_activeThreadCount sc + 1\<rparr>)"
  | tm w1 where "take_task t s w = Inr (None, tm, w1)" "scanned (m_fibers sc) w w1" "scheds w1 s = Some sc"
      "\<forall>y \<in> set (m_fibers sc). task_ready P s {S_READY} w1 y \<and> ft_fiber y \<noteq> None"
proof (cases rule: scan_plain [OF ok ready])
  case (1 x q w')
  let ?w1 = "upd_sched s (\<lambda>sc. sc\<lparr>m_fibers := q, m_activeThreadCount := m_activeThreadCount sc + 1\<rparr>) w'"
  have "take_task t s w = Inr (Some x, True, ?w1)"
    using 1(1) sc by (simp add: take_task_def sched_at_Some)
  moreover have "scanned (m_fibers sc) w ?w1"
    using 1(3) scan_others [OF 1(1)] promoted_frame [OF 1(3)] by (simp add: scanned_def promoted_def)
  ultimately show thesis
    using 1 sc promoted_scheds [OF 1(3)] task_ready_heap [of ?w1 w'] by (intro that(1) [of x ?w1 q]) simp_all
next
  case (2 tm w')
  let ?w1 = "upd_sched s (\<lambda>sc'. sc'\<lparr>m_fibers := m_fibers sc, m_activeThreadCount := m_activeThreadCount sc'\<rparr>) w'"
  have "take_task t s w = Inr (None, tm, ?w1)"
    using 2(1) sc by (simp add: take_task_def sched_at_Some)
  moreover have "scanned (m_fibers sc) w ?w1"
    using 2(2) scan_others [OF 2(1)] promoted_frame [OF 2(2)] by (simp add: scanned_def promoted_def)
  ultimately show thesis
    using 2 sc promoted_scheds [OF 2(2)] task_ready_heap [of ?w1 w'] by (intro that(2) [of tm ?w1]) simp_all
qed

text \<open>A task that was entered and has stopped, and the change made by entering fiber \<open>f\<close> from \<open>m\<close>.\<close>

definition stopped_ok :: "(u64 \<Rightarrow> bool) \<Rightarrow> sid \<Rightarrow> sworld \<Rightarrow> fid \<Rightarrow> task \<Rightarrow> bool" where
  "stopped_ok P s w f ft \<longleftrightarrow> ft_fiber ft = Some f \<and> P (ft_thread ft)
     \<and> (\<exists>fb. heap w f = Some fb \<and> (settled fb \<or> task_ready P s {S_READY} w ft))"

definition switched :: "sid \<Rightarrow> fid \<Rightarrow> fid \<Rightarrow> sworld \<Rightarrow> sworld \<Rightarrow> bool" where
  "switched s m f w w' \<longleftrightarrow> heap w' m \<noteq> None \<and> (\<forall>g. g \<noteq> f \<longrightarrow> g \<noteq> m \<longrightarrow> heap w' g = heap w g)
     \<and> next_fid w' = next_fid w \<and> t_scheduler_fiber w' = t_scheduler_fiber w \<and> s_fiber_id w' = s_fiber_id w"

lemma switched_fresh:
  "switched s m f w w' \<Longrightarrow> fresh_heap w \<Longrightarrow> heap w m \<noteq> None \<Longrightarrow> heap w f \<noteq> None \<Longrightarrow> fresh_heap w'"
  unfolding switched_def fresh_heap_def by metis

lemma stopped_at_settled:
  assumes "plain_body P s b" and "heap w f = Some (stopped_at b fb)" and "ft_fiber ft = Some f" "P (ft_thread ft)"
  shows "stopped_ok P s w f ft"
proof -
  note rest = plain_body_rest [OF assms(1) prod.collapse [symmetric], of MainFunc]
  then have "settled (stopped_at b fb) \<or> m_state (stopped_at b fb) = S_READY
      \<and> (\<exists>b'. todo (stopped_at b fb) = Some b' \<and> plain_body P s b')"
    by (auto simp: settled_def todo_def)
  then show ?thesis using assms by (auto simp: stopped_ok_def task_ready_def)
qed

lemma enter_plain:
  assumes ft: "task_ready P s {S_READY} w ft" and tf: "task_fiber ft w = Inr (f, ft1, w1)"
    and m: "t_scheduler_fiber w t = Some m" "heap w m \<noteq> None" "ft_fiber ft \<noteq> Some m" and fresh: "fresh_heap w"
    and sc: "scheds w s = Some sc" "iom sc = None"
  obtains added w2 where "run_enter t ft w = Inr (f, ft1, w2)" "stopped_ok P s w2 f ft1"
    "switched s m f w1 w2" "fresh_heap w2" "\<forall>x \<in> set added. plain_task P s x"
    "scheds w2 s = Some (sc\<lparr>m_fibers := m_fibers sc @ added\<rparr>)"
    "opt_list (ft_fiber ft) = [f] \<and> w1 = w \<or> opt_list (ft_fiber ft) = [] \<and> f = next_fid w \<and> next_fid w1 = next_fid w + 1
      \<and> t_scheduler_fiber w1 = t_scheduler_fiber w \<and> (\<forall>g. g \<noteq> f \<longrightarrow> heap w1 g = heap w g)"
proof -
  have all: "(ft_fiber ft1 = Some f \<and> P (ft_thread ft1) \<and> f \<noteq> m \<and> t_scheduler_fiber w1 = t_scheduler_fiber w
      \<and> scheds w1 = scheds w \<and> heap w1 m = heap w m \<and> fresh_heap w1
      \<and> (\<exists>fb b. heap w1 f = Some fb \<and> todo fb = Some b \<and> plain_body P s b))
    \<and> (opt_list (ft_fiber ft) = [f] \<and> w1 = w \<or> opt_list (ft_fiber ft) = [] \<and> f = next_fid w
      \<and> next_fid w1 = next_fid w + 1 \<and> t_scheduler_fiber w1 = t_scheduler_fiber w
      \<and> (\<forall>g. g \<noteq> f \<longrightarrow> heap w1 g = heap w g))"
  proof (cases "ft_fiber ft")
    case None
    then obtain b where b: "ft_cb ft = Some b" "plain_body P s b" "P (ft_thread ft)"
      using ft by (auto simp: task_ready_def)
    with None tf have "Fiber_new True (Some b) 0 False w = Inr (f, w1)" "ft1 = ft\<lparr>ft_cb := None, ft_fiber := Some f\<rparr>"
      by (auto simp: task_fiber_def)
    with Fiber_new_made [OF this(1)] None b fresh m(2) show ?thesis
      by (auto simp: fresh_heap_def)
  next
    case (Some g)
    with ft tf m fresh show ?thesis
      by (auto simp: task_fiber_def task_ready_def)
  qed
  then have base: "ft_fiber ft1 = Some f" "P (ft_thread ft1)" "f \<noteq> m" "t_scheduler_fiber w1 = t_scheduler_fiber w"
      "scheds w1 = scheds w" "heap w1 m = heap w m" "fresh_heap w1"
    by blast+
  from all obtain fb b where fb: "heap w1 f = Some fb" "todo fb = Some b" "plain_body P s b" by blast
  let ?w1 = "setState f S_READY w1"
  have pre: "swappable t m f ?w1" "heap ?w1 f = Some (fb\<lparr>m_state := S_READY\<rparr>)" "scheds ?w1 s = Some sc"
    using base m fb sc by (auto simp: swappable_def fiber_ops)
  then obtain added where sw: "swapIn sched_act t f ?w1 = Inr (entered t s m f b added ?w1)"
    and added: "\<forall>x \<in> set added. plain_task P s x"
    using swapIn_plain [OF pre(1,2) _ fb(3) pre(3) sc(2)] fb(2) by auto
  define w2 where "w2 = entered t s m f b added ?w1"
  have w2: "heap w2 f = Some (stopped_at b fb)" "switched s m f w1 w2"
      "scheds w2 s = Some (sc\<lparr>m_fibers := m_fibers sc @ added\<rparr>)"
    using base m fb sc by (auto simp: w2_def switched_def fiber_ops)
  have "run_enter t ft w = Inr (f, ft1, w2)"
    using tf sw by (simp add: run_enter_def w2_def)
  moreover have "stopped_ok P s w2 f ft1"
    using fb(3) w2(1) base(1,2) by (rule stopped_at_settled)
  moreover have "fresh_heap w2"
    using switched_fresh [OF w2(2)] base m fb by auto
  ultimately show thesis
    using w2 added all by (intro that [of w2 added]) blast+
qed

text \<open>After the count: the task is queued again if it is ready, and the fibers stay as they are.\<close>

lemma settle_plain:
  assumes ok: "stopped_ok P s w f ft" and sc: "scheds w s = Some sc" "iom sc = None"
  obtains again w1 where "run_settle s f ft w = Inr w1" "heap w1 = heap w" "next_fid w1 = next_fid w"
    "t_scheduler_fiber w1 = t_scheduler_fiber w" "s_fiber_id w1 = s_fiber_id w"
    "scheds w1 s = Some (sc\<lparr>m_fibers := m_fibers sc @ again\<rparr>)"
    "again = [] \<and> (\<exists>fb. heap w f = Some fb \<and> settled fb) \<or> again = [ft] \<and> task_ready P s {S_READY} w ft"
proof -
  obtain fb where fb: "heap w f = Some fb" "settled fb \<or> task_ready P s {S_READY} w ft" and ft: "ft_fiber ft = Some f"
    using ok by (auto simp: stopped_ok_def)
  show thesis
  proof (cases "m_state fb = S_READY")
    case True
    then have "\<not> settled fb" by (simp add: settled_def)
    with True fb ft sc show thesis
      by (intro that [of "upd_sched s (schedule_ft ft) w" "[ft]"])
        (auto simp: run_settle_def getState_Some schedule_ft_def scheduleNoLock_def tickle_def)
  next
    case False
    then have st: "settled fb" using fb ft by (auto simp: task_ready_def)
    let ?w1 = "if m_state fb \<noteq> S_TERM \<and> m_state fb \<noteq> S_EXCEPT then setState f S_HOLD w else w"
    have "heap ?w1 = heap w"
      using st fb(1) by (auto simp: settled_def fiber_ops fun_eq_iff)
    moreover have "run_settle s f ft w = Inr ?w1"
      using False fb(1) by (simp add: run_settle_def getState_Some)
    moreover have "sc\<lparr>m_fibers := m_fibers sc @ []\<rparr> = sc" by simp
    ultimately show thesis
      using st fb(1) sc by (intro that [of ?w1 "[]"]) (simp_all add: setState_def)
  qed
qed

text \<open>The idle fiber runs to its end.\<close>

lemma idle_plain:
  assumes fb: "heap w f = Some fb" "m_state fb \<noteq> S_EXEC" "todo fb = Some BReturn"
    and m: "t_scheduler_fiber w t = Some m" "heap w m \<noteq> None" "m \<noteq> f" and sc: "scheds w s = Some sc" "iom sc = None"
  obtains added w1 where "run_idle t s (Some f) w = Inr (Continue None w1)" "heap w1 f = Some (stopped_at BReturn fb)"
    "switched s m f w w1" "\<forall>x \<in> set added. plain_task P s x" "scheds w1 s = Some (sc\<lparr>m_fibers := m_fibers sc @ added\<rparr>)"
proof -
  let ?w1 = "upd_sched s (\<lambda>sc. sc\<lparr>m_idleThreadCount := m_idleThreadCount sc + 1\<rparr>) w"
  have "swappable t m f ?w1"
    using m fb by (simp add: swappable_def)
  then obtain added where sw: "swapIn sched_act t f ?w1 = Inr (entered t s m f BReturn added ?w1)"
    and added: "\<forall>x \<in> set added. plain_task P s x"
    using swapIn_plain [where w = ?w1 and b = BReturn and P = P and s = s] fb sc by fastforce
  define w2 where "w2 = upd_sched s (\<lambda>sc. sc\<lparr>m_idleThreadCount := m_idleThreadCount sc - 1\<rparr>)
      (entered t s m f BReturn added ?w1)"
  have w2: "heap w2 f = Some (stopped_at BReturn fb)" "switched s m f w w2"
      "scheds w2 s = Some (sc\<lparr>m_fibers := m_fibers sc @ added\<rparr>)"
    using fb m sc by (auto simp: w2_def switched_def)
  moreover have "run_idle t s (Some f) w = Inr (Continue None w2)"
    using sw w2(1) by (simp add: run_idle_def getState_Some flip: w2_def)
  ultimately show thesis
    using added by (intro that [of w2 added])
qed

end
