(* ===== verification/WorkerPool.thy ===== *)
theory WorkerPool
  imports PlainTasks
begin

text \<open>
  The worker threads \<open>T\<close> of a plain scheduler on a queue of plain tasks, in every interleaving: the
  invariant of the pool, that no worker gets stuck, and what is left when all have ended.
\<close>

section \<open>The invariant\<close>

definition pool_takes :: "tid set \<Rightarrow> u64 \<Rightarrow> bool" where
  "pool_takes T u \<longleftrightarrow> (\<forall>t \<in> T. takes t u)"

text \<open>The fibers that a thread has to itself: its own, its idle fiber and the one it works on.\<close>

fun phase_fids :: "phase \<Rightarrow> fid list" where
  "phase_fids (Took ft) = opt_list (ft_fiber ft)"
| "phase_fids (Ran f ft) = [f]"
| "phase_fids (Settling f ft) = [f]"
| "phase_fids _ = []"

definition work_fids :: "workers \<Rightarrow> tid \<Rightarrow> fid list" where
  "work_fids c t = opt_list (idles c t) @ phase_fids (phases c t)"

definition own_fids :: "workers \<Rightarrow> tid \<Rightarrow> fid list" where
  "own_fids c t = opt_list (t_scheduler_fiber (wworld c) t) @ work_fids c t"

definition queue_of :: "sid \<Rightarrow> sworld \<Rightarrow> task list" where
  "queue_of s w = (case scheds w s of None \<Rightarrow> [] | Some sc \<Rightarrow> m_fibers sc)"

text \<open>No fiber is in two hands, and none that is in a hand is queued.\<close>

definition apart :: "tid set \<Rightarrow> sid \<Rightarrow> workers \<Rightarrow> bool" where
  "apart T s c \<longleftrightarrow> (\<forall>t \<in> T. distinct (own_fids c t @ fids_of (queue_of s (wworld c))))
     \<and> (\<forall>t \<in> T. \<forall>u \<in> T. t \<noteq> u \<longrightarrow> set (own_fids c t) \<inter> set (own_fids c u) = {})"

fun phase_ok :: "(u64 \<Rightarrow> bool) \<Rightarrow> sid \<Rightarrow> sworld \<Rightarrow> phase \<Rightarrow> bool" where
  "phase_ok P s w (Took ft) \<longleftrightarrow> task_ready P s {S_READY} w ft"
| "phase_ok P s w (Ran f ft) \<longleftrightarrow> stopped_ok P s w f ft"
| "phase_ok P s w (Settling f ft) \<longleftrightarrow> stopped_ok P s w f ft"
| "phase_ok P s w _ \<longleftrightarrow> True"

definition idle_ok :: "sworld \<Rightarrow> fid option \<Rightarrow> bool" where
  "idle_ok w i \<longleftrightarrow>
     (case i of None \<Rightarrow> True
      | Some f \<Rightarrow> (case heap w f of None \<Rightarrow> False
                 | Some fb \<Rightarrow> m_state fb \<noteq> S_EXEC \<and> todo fb = Some BReturn))"

definition thread_ok :: "tid set \<Rightarrow> sid \<Rightarrow> fid set \<Rightarrow> fid \<Rightarrow> workers \<Rightarrow> tid \<Rightarrow> bool" where
  "thread_ok T s Q n0 c t \<longleftrightarrow>
     (case t_scheduler_fiber (wworld c) t of None \<Rightarrow> False
      | Some m \<Rightarrow> heap (wworld c) m \<noteq> None \<and> m \<notin> Q \<and> m < n0)
     \<and> phase_ok (pool_takes T) s (wworld c) (phases c t) \<and> idle_ok (wworld c) (idles c t)
     \<and> (phases c t = Ended \<longrightarrow> idles c t = None)"

text \<open>
  A thread loses its idle fiber only after a scan that made every fiber in the queue ready. The
  fibers in \<open>Q\<close> and those made from the address \<open>n0\<close> on are queued, in some thread's hands, or
  settled.
\<close>

definition queue_states :: "tid set \<Rightarrow> (tid \<Rightarrow> fid option) \<Rightarrow> State set" where
  "queue_states T i = (if \<exists>t \<in> T. i t = None then {S_READY} else queued_states)"

definition tracked :: "tid set \<Rightarrow> sid \<Rightarrow> fid set \<Rightarrow> fid \<Rightarrow> workers \<Rightarrow> bool" where
  "tracked T s Q n0 c \<longleftrightarrow> (\<forall>f \<in> Q \<union> {n0..<next_fid (wworld c)}.
     f \<in> set (fids_of (queue_of s (wworld c))) \<or> (\<exists>t \<in> T. f \<in> set (work_fids c t))
     \<or> (\<exists>fb. heap (wworld c) f = Some fb \<and> settled fb))"

definition pool :: "tid set \<Rightarrow> sid \<Rightarrow> fid set \<Rightarrow> fid \<Rightarrow> workers \<Rightarrow> bool" where
  "pool T s Q n0 c \<longleftrightarrow>
     (\<exists>sc. scheds (wworld c) s = Some sc \<and> iom sc = None)
     \<and> fresh_heap (wworld c) \<and> n0 \<le> next_fid (wworld c)
     \<and> (\<forall>x \<in> set (queue_of s (wworld c)).
          task_ready (pool_takes T) s (queue_states T (idles c)) (wworld c) x)
     \<and> (\<forall>t. if t \<in> T then thread_ok T s Q n0 c t else phases c t = Ended)
     \<and> apart T s c \<and> tracked T s Q n0 c
     \<and> ((\<forall>t \<in> T. phases c t = Ended) \<longrightarrow> queue_of s (wworld c) = [])"

lemma queue_of_Some [simp]: "scheds w s = Some sc \<Longrightarrow> queue_of s w = m_fibers sc"
  by (simp add: queue_of_def)

lemma goto_simps [simp]:
  "phases (goto t p w c) = (phases c)(t := p)" "idles (goto t p w c) = idles c"
  "goto t p w (goto t p' w' c) = goto t p w c"
  "goto t p w (c\<lparr>idles := i\<rparr>) = (goto t p w c)\<lparr>idles := i\<rparr>"
  "wworld (c\<lparr>idles := i\<rparr>) = wworld c" "phases (c\<lparr>idles := i\<rparr>) = phases c"
  by (simp_all add: goto_def)

lemma stopped_ok_cong: "heap w' f = heap w f \<Longrightarrow> stopped_ok P s w f ft \<Longrightarrow> stopped_ok P s w' f ft"
  by (auto simp: stopped_ok_def task_ready_def)

lemma phase_ok_cong:
  "(\<And>g. g \<in> set (phase_fids p) \<Longrightarrow> heap w' g = heap w g) \<Longrightarrow> phase_ok P s w p \<Longrightarrow> phase_ok P s w' p"
  by (cases p) (auto intro: stopped_ok_cong task_ready_cong)

lemma idle_ok_cong: "(\<And>f. i = Some f \<Longrightarrow> heap w' f = heap w f) \<Longrightarrow> idle_ok w i \<Longrightarrow> idle_ok w' i"
  by (cases i) (simp_all add: idle_ok_def)

lemma phase_fids_live: "phase_ok P s w p \<Longrightarrow> g \<in> set (phase_fids p) \<Longrightarrow> heap w g \<noteq> None"
  by (cases p) (auto simp: stopped_ok_def dest: task_ready_live)

lemma own_fids_live: "thread_ok T s Q n0 c t \<Longrightarrow> g \<in> set (own_fids c t) \<Longrightarrow> heap (wworld c) g \<noteq> None"
  by (auto simp: thread_ok_def own_fids_def work_fids_def idle_ok_def
    dest: phase_fids_live split: option.splits)

section \<open>One step of one thread\<close>

text \<open>
  What has to hold of a step of thread \<open>t\<close>: it touches only the fibers in its own hands and in the
  queue, and new ones, and keeps its own part of the invariant.
\<close>

lemma poolD:
  assumes "pool T s Q n0 c"
  shows "t \<in> T \<Longrightarrow> thread_ok T s Q n0 c t" "t \<notin> T \<Longrightarrow> phases c t = Ended" "apart T s c" "tracked T s Q n0 c"
    "fresh_heap (wworld c)" "n0 \<le> next_fid (wworld c)" "\<exists>sc. scheds (wworld c) s = Some sc \<and> iom sc = None"
    "\<forall>x \<in> set (queue_of s (wworld c)). task_ready (pool_takes T) s (queue_states T (idles c)) (wworld c) x"
    "(\<forall>t \<in> T. phases c t = Ended) \<longrightarrow> queue_of s (wworld c) = []"
  using assms unfolding pool_def by metis+

lemma pool_distinct:
  "pool T s Q n0 c \<Longrightarrow> t \<in> T \<Longrightarrow> distinct (own_fids c t @ fids_of (queue_of s (wworld c)))"
  using poolD(3) unfolding apart_def by blast

lemma pool_step:
  fixes c t w' p' i' s
  defines "c' \<equiv> (goto t p' w' c)\<lparr>idles := (idles c)(t := i')\<rparr>"
  defines "w \<equiv> wworld c"
  defines "q \<equiv> queue_of s (wworld c)" and "q' \<equiv> queue_of s w'"
  assumes pool: "pool T s Q n0 c" and t: "t \<in> T"
    and sc: "scheds w' s = Some sc'" "iom sc' = None"
    and w': "next_fid w \<le> next_fid w'" "fresh_heap w'" "t_scheduler_fiber w' = t_scheduler_fiber w"
    and frame: "\<And>g. g \<notin> set (own_fids c t @ fids_of q) \<Longrightarrow> g < next_fid w \<Longrightarrow> heap w' g = heap w g"
    and own: "distinct (own_fids c' t @ fids_of q')"
      "set (own_fids c' t @ fids_of q') \<subseteq> set (own_fids c t @ fids_of q) \<union> {next_fid w..}"
    and me: "thread_ok T s Q n0 c' t"
    and queue: "\<forall>x \<in> set q'. task_ready (pool_takes T) s (queue_states T (idles c')) w' x"
    and track: "\<And>g. g \<in> set (work_fids c t @ fids_of q) \<union> {next_fid w..<next_fid w'} \<Longrightarrow>
        g \<in> set (work_fids c' t @ fids_of q') \<or> (\<exists>fb. heap w' g = Some fb \<and> settled fb)"
    and ended: "p' = Ended \<longrightarrow> q' = []"
  shows "pool T s Q n0 c'"
proof -
  have c': "wworld c' = w'" "phases c' = (phases c)(t := p')" "idles c' = (idles c)(t := i')"
    by (simp_all add: c'_def goto_def)
  note ap = poolD(3) [OF pool] and ok = poolD(1) [OF pool] and out = poolD(2) [OF pool] and trk = poolD(4) [OF pool]
    and fresh = poolD(5) [OF pool, folded w_def] and n0 = poolD(6) [OF pool, folded w_def]
  have other: "work_fids c' u = work_fids c u" "own_fids c' u = own_fids c u" if "u \<noteq> t" for u
    using that c' w'(3) by (simp_all add: own_fids_def work_fids_def w_def)
  have live: "g < next_fid w" if "u \<in> T" "g \<in> set (own_fids c u)" for u g
    using own_fids_live [OF ok [OF that(1)] that(2)] fresh unfolding w_def fresh_heap_def by (meson not_le)
  have away: "g \<notin> set (own_fids c t @ fids_of q)" if "u \<in> T" "u \<noteq> t" "g \<in> set (own_fids c u)" for u g
  proof -
    have "set (own_fids c t) \<inter> set (own_fids c u) = {}" "distinct (own_fids c u @ fids_of q)"
      using ap t that(1,2) unfolding apart_def q_def by metis+
    then show ?thesis using that(3) by auto
  qed
  have same: "heap w' g = heap w g" if "u \<in> T" "u \<noteq> t" "g \<in> set (own_fids c u)" for u g
    using frame away [OF that] live [OF that(1,3)] by blast
  have thr: "thread_ok T s Q n0 c' u" if u: "u \<in> T" for u
  proof (cases "u = t")
    case False
    note o = ok [OF u] and sm = same [OF u False]
    obtain m where m: "t_scheduler_fiber w u = Some m" "heap w m \<noteq> None" "m \<notin> Q" "m < n0"
      using o by (auto simp: thread_ok_def w_def split: option.splits)
    have "heap w' m = heap w m" using m(1) by (intro sm) (simp add: own_fids_def w_def)
    moreover have "phase_ok (pool_takes T) s w' (phases c u)"
      by (rule phase_ok_cong [of _ w' w]) (use o sm in \<open>auto simp: thread_ok_def own_fids_def work_fids_def w_def\<close>)
    moreover have "idle_ok w' (idles c u)"
      by (rule idle_ok_cong [of _ w' w]) (use o sm in \<open>auto simp: thread_ok_def own_fids_def work_fids_def w_def\<close>)
    ultimately show ?thesis
      using o False m c' w'(3) by (simp add: thread_ok_def w_def)
  qed (use me in simp)
  have "apart T s c'"
  proof -
    have "distinct (own_fids c u @ fids_of q')" "set (own_fids c' t) \<inter> set (own_fids c u) = {}"
      if "u \<in> T" "u \<noteq> t" for u
    proof -
      have "g \<notin> set (own_fids c' t @ fids_of q')" if "g \<in> set (own_fids c u)" for g
        using own(2) away [OF \<open>u \<in> T\<close> \<open>u \<noteq> t\<close> that] live [OF \<open>u \<in> T\<close> that] by auto
      then show "distinct (own_fids c u @ fids_of q')" "set (own_fids c' t) \<inter> set (own_fids c u) = {}"
        using own(1) ap that(1) by (auto simp: apart_def)
    qed
    then show ?thesis
      using own(1) ap other c' unfolding apart_def q'_def by (metis inf_commute)
  qed
  moreover have "tracked T s Q n0 c'"
    unfolding tracked_def
  proof
    fix g assume g: "g \<in> Q \<union> {n0..<next_fid (wworld c')}"
    have here: "g \<in> set (fids_of q') \<or> (\<exists>u \<in> T. g \<in> set (work_fids c' u)) \<or> (\<exists>fb. heap w' g = Some fb \<and> settled fb)"
      if "g \<in> set (work_fids c t @ fids_of q) \<union> {next_fid w..<next_fid w'}"
      using track [OF that] t by auto
    have "g \<in> set (fids_of q') \<or> (\<exists>u \<in> T. g \<in> set (work_fids c' u)) \<or> (\<exists>fb. heap w' g = Some fb \<and> settled fb)"
    proof (cases "g \<in> Q \<union> {n0..<next_fid w}")
      case True
      then consider "g \<in> set (fids_of q)" | u where "u \<in> T" "g \<in> set (work_fids c u)"
        | fb where "heap w g = Some fb" "settled fb"
        using trk unfolding tracked_def q_def w_def by blast
      then show ?thesis
      proof cases
        case (2 u)
        show ?thesis
        proof (cases "u = t")
          case False
          then have "g \<in> set (work_fids c' u)" using 2 other(1) by simp
          then show ?thesis using 2(1) by blast
        qed (use here 2 in simp)
      next
        case (3 fb)
        show ?thesis
        proof (cases "g \<in> set (work_fids c t @ fids_of q)")
          case False
          have "t_scheduler_fiber w t \<noteq> Some g"
            using ok [OF t] True n0 by (auto simp: thread_ok_def w_def split: option.splits)
          then have "g \<notin> set (own_fids c t @ fids_of q)"
            using False by (simp add: own_fids_def w_def)
          then show ?thesis using frame fresh_heapD [OF fresh 3(1)] 3 by simp
        qed (use here in simp)
      qed (use here in simp)
    next
      case False
      then show ?thesis using g here c'(1) by auto
    qed
    then show "g \<in> set (fids_of (queue_of s (wworld c'))) \<or> (\<exists>t \<in> T. g \<in> set (work_fids c' t))
        \<or> (\<exists>fb. heap (wworld c') g = Some fb \<and> settled fb)"
      by (simp add: c' q'_def)
  qed
  ultimately show ?thesis
    using sc w' n0 thr queue out ended t c' unfolding pool_def q'_def
    by (intro conjI allI) (auto simp: out)
qed

lemma goto_same: "(goto t p w c)\<lparr>idles := (idles c)(t := idles c t)\<rparr> = goto t p w c"
  by (simp add: goto_def)

lemmas pool_goto = pool_step [where c = c and t = t and i' = "idles c t" for c t, unfolded goto_same]

lemma pool_takes_own: "t \<in> T \<Longrightarrow> \<forall>u. pool_takes T u \<longrightarrow> takes t u"
  by (simp add: pool_takes_def)

lemma own_fids_goto:
  "t_scheduler_fiber w' = t_scheduler_fiber (wworld c) \<Longrightarrow>
     own_fids (goto t p w' c) t = opt_list (t_scheduler_fiber (wworld c) t) @ opt_list (idles c t) @ phase_fids p"
  by (simp add: own_fids_def work_fids_def goto_def)

lemma work_fids_goto: "work_fids (goto t p w' c) t = opt_list (idles c t) @ phase_fids p"
  by (simp add: work_fids_def)

lemma queue_states_sub: "queue_states T i \<subseteq> queued_states"
  by (simp add: queue_states_def)

lemma ready_sub: "{S_READY} \<subseteq> queue_states T i"
  by (simp add: queue_states_def)

lemma scanned_queue:
  assumes "scanned q w w'" and "task_ready P s (queue_states T i) w x"
  shows "task_ready P s (queue_states T i) w' x"
  using assms task_ready_promoted [of w w' P s x] task_ready_promoted_ready [of w w' P s x]
  by (auto simp: queue_states_def scanned_def split: if_splits)

text \<open>A thread's own fiber, idle fiber and phase are not touched by its scan.\<close>

lemma thread_ok_scanned:
  assumes p: "pool T s Q n0 c" "t \<in> T" and sn: "scanned (queue_of s (wworld c)) (wworld c) w'"
    and ph: "phase_ok (pool_takes T) s w' p'" "p' = Ended \<longrightarrow> idles c t = None"
  shows "thread_ok T s Q n0 (goto t p' w' c) t"
proof -
  let ?w = "wworld c"
  note ok = poolD(1) [OF p]
  have dist: "distinct (own_fids c t @ fids_of (queue_of s ?w))"
    using poolD(3) [OF p(1)] p(2) by (simp add: apart_def)
  have same: "heap w' g = heap ?w g" if "g \<in> set (own_fids c t)" for g
    using sn dist that by (auto simp: scanned_def)
  obtain m where m: "t_scheduler_fiber ?w t = Some m" "heap ?w m \<noteq> None" "m \<notin> Q" "m < n0"
    using ok by (auto simp: thread_ok_def split: option.splits)
  moreover have "heap w' m = heap ?w m" using m(1) by (intro same) (simp add: own_fids_def)
  moreover have "idle_ok w' (idles c t)"
    by (rule idle_ok_cong [of _ w' ?w]) (use ok same in \<open>auto simp: thread_ok_def own_fids_def work_fids_def\<close>)
  ultimately show ?thesis
    using sn ph by (simp add: thread_ok_def scanned_def)
qed

lemma pool_take:
  assumes p: "pool T s Q n0 c" "t \<in> T" and ph: "phases c t = Scanning"
  obtains x w1 where "take_task t s (wworld c) = Inr (Some x, True, w1)"
      "pool T s Q n0 (goto t (Took x) (after_scan s True w1) c)"
  | tm w1 where "take_task t s (wworld c) = Inr (None, tm, w1)"
      "pool T s Q n0 (goto t Scanning (after_scan s tm w1) c)"
      "\<forall>x \<in> set (queue_of s w1). task_ready (pool_takes T) s {S_READY} w1 x"
      "idles c t = None \<longrightarrow> queue_of s w1 = []" "after_scan s tm w1 = w1"
proof -
  let ?w = "wworld c"
  obtain sc where sc: "scheds ?w s = Some sc" "iom sc = None" using poolD(7) [OF p(1)] by blast
  have q: "queue_of s ?w = m_fibers sc" using sc by simp
  have tasks: "\<forall>x \<in> set (m_fibers sc). task_ready (pool_takes T) s (queue_states T (idles c)) ?w x"
    using poolD(8) [OF p(1)] q by simp
  then have ready: "\<forall>x \<in> set (m_fibers sc). task_ready (pool_takes T) s queued_states ?w x"
    using task_ready_mono [OF queue_states_sub] by blast
  have dist: "distinct (own_fids c t @ fids_of (m_fibers sc))"
    using pool_distinct [OF p] q by simp
  have own: "own_fids c t = opt_list (t_scheduler_fiber ?w t) @ opt_list (idles c t)"
    using ph by (simp add: own_fids_def work_fids_def)
  have work: "work_fids c t = opt_list (idles c t)"
    using ph by (simp add: work_fids_def)
  show thesis
  proof (cases rule: take_plain [OF pool_takes_own [OF p(2)] sc(1) ready])
    case (1 x q' w1)
    let ?sc = "sc\<lparr>m_fibers := q', m_activeThreadCount := m_activeThreadCount sc + 1\<rparr>"
    have after: "after_scan s True w1 = w1"
      using 1(5) sc(2) by (simp add: after_scan_def upd_sched_tickle [where sc = ?sc])
    have ms: "mset (fids_of (m_fibers sc)) = mset (opt_list (ft_fiber x) @ fids_of q')"
      using mset_fids_of [OF 1(2)] by (simp only: fids_of_Cons_list)
    have "mset (own_fids c t @ opt_list (ft_fiber x) @ fids_of q') = mset (own_fids c t @ fids_of (m_fibers sc))"
      using ms by simp
    then have L: "distinct (own_fids c t @ opt_list (ft_fiber x) @ fids_of q')"
      "set (own_fids c t @ opt_list (ft_fiber x) @ fids_of q') = set (own_fids c t @ fids_of (m_fibers sc))"
      using dist mset_eq_imp_distinct_iff mset_eq_setD by blast+
    have sub: "set q' \<subseteq> set (m_fibers sc)" using mset_eq_setD [OF 1(2)] by auto
    have "pool T s Q n0 (goto t (Took x) w1 c)"
    proof (rule pool_goto [OF p 1(5)])
      show "fresh_heap w1" using 1(3) poolD(5) [OF p(1)] by (rule scanned_fresh)
      show "thread_ok T s Q n0 (goto t (Took x) w1 c) t"
        using 1(3,4) q by (intro thread_ok_scanned [OF p]) simp_all
    qed (use 1(3,5) sc q own work L mset_eq_setD [OF ms] sub tasks in
        \<open>auto simp: scanned_def own_fids_goto work_fids_goto intro: scanned_queue [OF 1(3)]\<close>)
    with 1(1) after show thesis by (intro that(1) [of x w1]) simp_all
  next
    case (2 tm w1)
    have after: "after_scan s tm w1 = w1"
      using 2(3) sc(2) by (simp add: after_scan_def upd_sched_tickle [where sc = sc])
    have "m_fibers sc = []" if "idles c t = None"
    proof (cases "m_fibers sc")
      case (Cons x xs)
      have "queue_states T (idles c) = {S_READY}" using that p(2) by (auto simp: queue_states_def)
      with tasks Cons have "task_ready (pool_takes T) s {S_READY} ?w x" by simp
      from scan_ready [OF pool_takes_own [OF p(2)] this] 2(1) sc(1) Cons show ?thesis
        by (auto simp: take_task_def sched_at_Some)
    qed
    moreover have "pool T s Q n0 (goto t Scanning w1 c)"
    proof (rule pool_goto [OF p 2(3)])
      show "fresh_heap w1" using 2(2) poolD(5) [OF p(1)] by (rule scanned_fresh)
      show "thread_ok T s Q n0 (goto t Scanning w1 c) t"
        using 2(2) q by (intro thread_ok_scanned [OF p]) simp_all
    qed (use 2(2,3) sc q own work dist tasks in
        \<open>auto simp: scanned_def own_fids_goto work_fids_goto intro: scanned_queue [OF 2(2)]\<close>)
    ultimately show thesis
      using 2 after by (intro that(2) [of tm w1]) simp_all
  qed
qed

lemma own_fids_Some:
  "t_scheduler_fiber (wworld c) t = Some m \<Longrightarrow> own_fids c t = m # opt_list (idles c t) @ phase_fids (phases c t)"
  by (simp add: own_fids_def work_fids_def)

lemma pool_main:
  assumes "pool T s Q n0 c" "t \<in> T"
  obtains m where "t_scheduler_fiber (wworld c) t = Some m" "heap (wworld c) m \<noteq> None" "m \<notin> Q" "m < n0"
  using poolD(1) [OF assms] by (auto simp: thread_ok_def split: option.splits)

lemma thread_okI:
  "t_scheduler_fiber w' t = Some m \<Longrightarrow> heap w' m \<noteq> None \<Longrightarrow> m \<notin> Q \<Longrightarrow> m < n0 \<Longrightarrow>
   phase_ok (pool_takes T) s w' p' \<Longrightarrow> idle_ok w' i' \<Longrightarrow> (p' = Ended \<Longrightarrow> i' = None) \<Longrightarrow>
   thread_ok T s Q n0 ((goto t p' w' c)\<lparr>idles := (idles c)(t := i')\<rparr>) t"
  by (simp add: thread_ok_def)

lemmas thread_ok_gotoI = thread_okI [where c = c and t = t and i' = "idles c t" for c t, unfolded goto_same]

lemma pool_enter:
  assumes p: "pool T s Q n0 c" "t \<in> T" and ph: "phases c t = Took ft"
    and tf: "task_fiber ft (wworld c) = Inr (f, ft1, w1)"
  obtains w2 where "run_enter t ft (wworld c) = Inr (f, ft1, w2)" "pool T s Q n0 (goto t (Ran f ft1) w2 c)"
    "t_scheduler_fiber (wworld c) t \<noteq> Some f" "s_fiber_id w2 = s_fiber_id w1"
proof -
  let ?w = "wworld c" and ?P = "pool_takes T"
  obtain sc where sc: "scheds ?w s = Some sc" "iom sc = None" using poolD(7) [OF p(1)] by blast
  have q: "queue_of s ?w = m_fibers sc" using sc by simp
  obtain m where m: "t_scheduler_fiber ?w t = Some m" "heap ?w m \<noteq> None" "m \<notin> Q" "m < n0"
    using pool_main [OF p] .
  have own: "own_fids c t = m # opt_list (idles c t) @ opt_list (ft_fiber ft)"
    using ph m(1) by (simp add: own_fids_Some)
  have dist: "distinct (own_fids c t @ fids_of (m_fibers sc))"
    using pool_distinct [OF p] q by simp
  note fresh = poolD(5) [OF p(1)] and ok = poolD(1) [OF p]
  have ft: "task_ready ?P s {S_READY} ?w ft" using ok ph by (simp add: thread_ok_def)
  have "ft_fiber ft \<noteq> Some m" using dist own by auto
  then obtain added w2 where w2: "run_enter t ft ?w = Inr (f, ft1, w2)" "stopped_ok ?P s w2 f ft1"
    "switched s m f w1 w2" "fresh_heap w2" "\<forall>x \<in> set added. plain_task ?P s x"
    "scheds w2 s = Some (sc\<lparr>m_fibers := m_fibers sc @ added\<rparr>)"
    and f: "opt_list (ft_fiber ft) = [f] \<and> w1 = ?w \<or> opt_list (ft_fiber ft) = [] \<and> f = next_fid ?w
      \<and> next_fid w1 = next_fid ?w + 1 \<and> t_scheduler_fiber w1 = t_scheduler_fiber ?w
      \<and> (\<forall>g. g \<noteq> f \<longrightarrow> heap w1 g = heap ?w g)"
    by (rule enter_plain [OF ft tf m(1,2) _ fresh sc])
  have same: "heap w2 g = heap ?w g" if "g \<noteq> f" "g \<noteq> m" for g
    using that f w2(3) by (auto simp: switched_def)
  have fnew: "f \<notin> set (m # opt_list (idles c t) @ fids_of (m_fibers sc))"
  proof (cases "f = next_fid ?w")
    case True
    have "heap ?w f = None" using fresh True by (simp add: fresh_heap_def)
    moreover have "heap ?w g \<noteq> None" if "g \<in> set (m # opt_list (idles c t) @ fids_of (m_fibers sc))" for g
    proof (cases "g \<in> set (fids_of (m_fibers sc))")
      case True
      then show ?thesis using poolD(8) [OF p(1)] q task_ready_live unfolding set_fids_of by metis
    next
      case False
      then show ?thesis using that own_fids_live [OF ok, of g] own by auto
    qed
    ultimately show ?thesis by blast
  next
    case False
    then show ?thesis using f dist own by auto
  qed
  have nf: "next_fid ?w \<le> next_fid w2" "t_scheduler_fiber w2 = t_scheduler_fiber ?w"
    "{next_fid ?w..<next_fid w2} \<subseteq> {f}"
    using f w2(3) by (auto simp: switched_def)
  have own2: "own_fids (goto t (Ran f ft1) w2 c) t = m # opt_list (idles c t) @ [f]"
    using m(1) nf(2) by (simp add: own_fids_Some)
  have work: "work_fids c t = opt_list (idles c t) @ opt_list (ft_fiber ft)"
    "work_fids (goto t (Ran f ft1) w2 c) t = opt_list (idles c t) @ [f]"
    using ph by (simp_all add: work_fids_def)
  have q2: "queue_of s w2 = m_fibers sc @ added" "fids_of (m_fibers sc @ added) = fids_of (m_fibers sc)"
    using w2(5,6) by (simp_all add: fids_of_plain)
  have "pool T s Q n0 (goto t (Ran f ft1) w2 c)"
  proof (rule pool_goto [OF p w2(6)], unfold own2 work q q2)
    show "heap w2 g = heap ?w g" if "g \<notin> set (own_fids c t @ fids_of (m_fibers sc))" "g < next_fid ?w" for g
      using that f own by (intro same) auto
    show "distinct ((m # opt_list (idles c t) @ [f]) @ fids_of (m_fibers sc))"
      using dist own fnew by auto
    show "set ((m # opt_list (idles c t) @ [f]) @ fids_of (m_fibers sc))
        \<subseteq> set (own_fids c t @ fids_of (m_fibers sc)) \<union> {next_fid ?w..}"
      using own f by auto
    show "thread_ok T s Q n0 (goto t (Ran f ft1) w2 c) t"
    proof (rule thread_ok_gotoI)
      show "idle_ok w2 (idles c t)"
        by (rule idle_ok_cong [of _ w2 ?w]) (use ok fnew dist own same in \<open>auto simp: thread_ok_def\<close>)
    qed (use m nf(2) w2(2,3) in \<open>simp_all add: switched_def\<close>)
    show "\<forall>x \<in> set (m_fibers sc @ added). task_ready ?P s (queue_states T (idles (goto t (Ran f ft1) w2 c))) w2 x"
    proof
      fix x assume x: "x \<in> set (m_fibers sc @ added)"
      show "task_ready ?P s (queue_states T (idles (goto t (Ran f ft1) w2 c))) w2 x"
      proof (cases "x \<in> set added")
        case True
        then show ?thesis using w2(5) plain_task_ready by blast
      next
        case False
        with x have xq: "x \<in> set (m_fibers sc)" by simp
        have r: "task_ready ?P s (queue_states T (idles c)) ?w x" using poolD(8) [OF p(1)] q xq by simp
        have "heap w2 g = heap ?w g" if "ft_fiber x = Some g" for g
        proof -
          have "g \<in> set (fids_of (m_fibers sc))" using xq that by (auto simp: set_fids_of)
          then show ?thesis using fnew dist own by (intro same) auto
        qed
        from task_ready_cong [OF this r] show ?thesis by simp
      qed
    qed
  qed (use w2 nf sc f in auto)
  with w2(1) show thesis
    using fnew m(1) w2(3) by (intro that [of w2]) (auto simp: switched_def)
qed

text \<open>The count and the settling leave the fibers alone.\<close>

lemma thread_ok_same_heap:
  assumes p: "pool T s Q n0 c" "t \<in> T" and w': "heap w' = heap (wworld c)"
      "t_scheduler_fiber w' = t_scheduler_fiber (wworld c)"
    and ph: "phase_ok (pool_takes T) s w' p'" "p' = Ended \<Longrightarrow> idles c t = None"
  shows "thread_ok T s Q n0 (goto t p' w' c) t"
proof -
  obtain m where m: "t_scheduler_fiber (wworld c) t = Some m" "heap (wworld c) m \<noteq> None" "m \<notin> Q" "m < n0"
    using pool_main [OF p] .
  have "idle_ok w' (idles c t)"
    by (rule idle_ok_cong [of _ w' "wworld c"]) (use poolD(1) [OF p] w'(1) in \<open>auto simp: thread_ok_def\<close>)
  then show ?thesis
    using m w' ph by (intro thread_ok_gotoI) simp_all
qed

lemma fresh_heap_same: "heap w' = heap w \<Longrightarrow> next_fid w' = next_fid w \<Longrightarrow> fresh_heap w \<Longrightarrow> fresh_heap w'"
  by (simp add: fresh_heap_def)

lemma pool_account:
  assumes p: "pool T s Q n0 c" "t \<in> T" and ph: "phases c t = Ran f ft"
  shows "pool T s Q n0 (goto t (Settling f ft) (run_account s (wworld c)) c)"
proof -
  let ?w = "wworld c" and ?w' = "run_account s (wworld c)"
  obtain sc where sc: "scheds ?w s = Some sc" "iom sc = None" using poolD(7) [OF p(1)] by blast
  let ?sc = "sc\<lparr>m_activeThreadCount := m_activeThreadCount sc - 1\<rparr>"
  have w': "heap ?w' = heap ?w" "next_fid ?w' = next_fid ?w" "t_scheduler_fiber ?w' = t_scheduler_fiber ?w"
    "scheds ?w' s = Some ?sc"
    using sc by (simp_all add: run_account_def)
  have q: "queue_of s ?w = m_fibers sc" "queue_of s ?w' = m_fibers sc" using sc w'(4) by simp_all
  have own: "own_fids (goto t (Settling f ft) ?w' c) t = own_fids c t" "work_fids (goto t (Settling f ft) ?w' c) t = work_fids c t"
    using ph w'(3) by (simp_all add: own_fids_def work_fids_def)
  show ?thesis
  proof (rule pool_goto [OF p w'(4)], unfold own q)
    show "distinct (own_fids c t @ fids_of (m_fibers sc))"
      using pool_distinct [OF p] q by simp
    show "thread_ok T s Q n0 (goto t (Settling f ft) ?w' c) t"
      using poolD(1) [OF p] ph w' by (intro thread_ok_same_heap [OF p]) (auto simp: thread_ok_def intro: stopped_ok_cong)
    show "\<forall>x \<in> set (m_fibers sc). task_ready (pool_takes T) s (queue_states T (idles (goto t (Settling f ft) ?w' c))) ?w' x"
      using poolD(8) [OF p(1)] q task_ready_heap [OF w'(1)] by simp
  qed (use w' sc fresh_heap_same [OF w'(1,2) poolD(5) [OF p(1)]] in auto)
qed

lemma pool_settle:
  assumes p: "pool T s Q n0 c" "t \<in> T" and ph: "phases c t = Settling f ft"
  obtains w1 where "run_settle s f ft (wworld c) = Inr w1" "pool T s Q n0 (goto t Scanning w1 c)"
    "s_fiber_id w1 = s_fiber_id (wworld c)"
proof -
  let ?w = "wworld c" and ?P = "pool_takes T"
  obtain sc where sc: "scheds ?w s = Some sc" "iom sc = None" using poolD(7) [OF p(1)] by blast
  have ok: "stopped_ok ?P s ?w f ft" using poolD(1) [OF p] ph by (simp add: thread_ok_def)
  obtain again w1 where w1: "run_settle s f ft ?w = Inr w1" "heap w1 = heap ?w" "next_fid w1 = next_fid ?w"
    "t_scheduler_fiber w1 = t_scheduler_fiber ?w" "s_fiber_id w1 = s_fiber_id ?w"
    "scheds w1 s = Some (sc\<lparr>m_fibers := m_fibers sc @ again\<rparr>)"
    and again: "again = [] \<and> (\<exists>fb. heap ?w f = Some fb \<and> settled fb) \<or> again = [ft] \<and> task_ready ?P s {S_READY} ?w ft"
    using settle_plain [OF ok sc] .
  have q: "queue_of s ?w = m_fibers sc" "queue_of s w1 = m_fibers sc @ again" using sc w1(6) by simp_all
  have fids: "fids_of again = [f] \<or> fids_of again = [] \<and> (\<exists>fb. heap ?w f = Some fb \<and> settled fb)"
    using again ok by (auto simp: stopped_ok_def)
  obtain m where m: "t_scheduler_fiber ?w t = Some m" using pool_main [OF p] .
  have own: "own_fids c t = m # opt_list (idles c t) @ [f]" "work_fids c t = opt_list (idles c t) @ [f]"
    "own_fids (goto t Scanning w1 c) t = m # opt_list (idles c t)" "work_fids (goto t Scanning w1 c) t = opt_list (idles c t)"
    using ph m w1(4) by (simp_all add: own_fids_Some work_fids_def)
  have dist: "distinct (own_fids c t @ fids_of (m_fibers sc))"
    using pool_distinct [OF p] q(1) by simp
  have "pool T s Q n0 (goto t Scanning w1 c)"
  proof (rule pool_goto [OF p w1(6)], unfold own q)
    show "distinct ((m # opt_list (idles c t)) @ fids_of (m_fibers sc @ again))"
      using dist own(1) fids by auto
    show "set ((m # opt_list (idles c t)) @ fids_of (m_fibers sc @ again))
        \<subseteq> set ((m # opt_list (idles c t) @ [f]) @ fids_of (m_fibers sc)) \<union> {next_fid ?w..}"
      using fids by auto
    show "g \<in> set (opt_list (idles c t) @ fids_of (m_fibers sc @ again)) \<or> (\<exists>fb. heap w1 g = Some fb \<and> settled fb)"
      if "g \<in> set ((opt_list (idles c t) @ [f]) @ fids_of (m_fibers sc)) \<union> {next_fid ?w..<next_fid w1}" for g
      using that fids w1(2,3) by auto
    show "thread_ok T s Q n0 (goto t Scanning w1 c) t"
      using w1 by (intro thread_ok_same_heap [OF p]) simp_all
    show "\<forall>x \<in> set (m_fibers sc @ again). task_ready ?P s (queue_states T (idles (goto t Scanning w1 c))) w1 x"
      using poolD(8) [OF p(1)] q(1) again task_ready_heap [OF w1(2)] task_ready_mono [OF ready_sub] by auto
  qed (use w1 sc fresh_heap_same [OF w1(2,3) poolD(5) [OF p(1)]] in auto)
  with w1(1,5) show thesis by (intro that)
qed

lemma pool_idle:
  assumes p: "pool T s Q n0 c" "t \<in> T" and ph: "phases c t = Scanning" "idles c t = Some f"
    and rdy: "\<forall>x \<in> set (queue_of s (wworld c)). task_ready (pool_takes T) s {S_READY} (wworld c) x"
  obtains w1 where "run_idle t s (Some f) (wworld c) = Inr (Continue None w1)" "s_fiber_id w1 = s_fiber_id (wworld c)"
    "pool T s Q n0 ((goto t Scanning w1 c)\<lparr>idles := (idles c)(t := None)\<rparr>)"
proof -
  let ?w = "wworld c" and ?P = "pool_takes T"
  obtain sc where sc: "scheds ?w s = Some sc" "iom sc = None" using poolD(7) [OF p(1)] by blast
  obtain m where m: "t_scheduler_fiber ?w t = Some m" "heap ?w m \<noteq> None" "m \<notin> Q" "m < n0"
    using pool_main [OF p] .
  obtain fb where fb: "heap ?w f = Some fb" "m_state fb \<noteq> S_EXEC" "todo fb = Some BReturn"
    using poolD(1) [OF p] ph(2) by (auto simp: thread_ok_def idle_ok_def split: option.splits)
  have q: "queue_of s ?w = m_fibers sc" using sc by simp
  have own: "own_fids c t = [m, f]" "work_fids c t = [f]"
    using ph m(1) by (simp_all add: own_fids_Some work_fids_def)
  have dist: "distinct ([m, f] @ fids_of (m_fibers sc))"
    using pool_distinct [OF p] unfolding q own .
  then have "m \<noteq> f" by simp
  then obtain added w1 where w1: "run_idle t s (Some f) ?w = Inr (Continue None w1)" "heap w1 f = Some (stopped_at BReturn fb)"
    "switched s m f ?w w1" "\<forall>x \<in> set added. plain_task ?P s x" "scheds w1 s = Some (sc\<lparr>m_fibers := m_fibers sc @ added\<rparr>)"
    by (rule idle_plain [OF fb m(1,2) _ sc])
  let ?c = "(goto t Scanning w1 c)\<lparr>idles := (idles c)(t := None)\<rparr>"
  have own': "own_fids ?c t = [m]" "work_fids ?c t = []"
    using m(1) w1(3) by (simp_all add: own_fids_def work_fids_def switched_def)
  have q1: "queue_of s w1 = m_fibers sc @ added" "fids_of (m_fibers sc @ added) = fids_of (m_fibers sc)"
    using w1(4,5) by (simp_all add: fids_of_plain)
  have fresh: "fresh_heap w1"
    using switched_fresh [OF w1(3) poolD(5) [OF p(1)] m(2)] fb(1) by simp
  have "pool T s Q n0 ?c"
  proof (rule pool_step [OF p w1(5)], unfold own own' q q1)
    show "g \<in> set ([] @ fids_of (m_fibers sc)) \<or> (\<exists>fb. heap w1 g = Some fb \<and> settled fb)"
      if "g \<in> set ([f] @ fids_of (m_fibers sc)) \<union> {next_fid ?w..<next_fid w1}" for g
      using that w1(2,3) by (auto simp: switched_def settled_def)
    show "thread_ok T s Q n0 ?c t"
      using m w1(3) by (intro thread_okI) (simp_all add: switched_def idle_ok_def)
    show "\<forall>x \<in> set (m_fibers sc @ added). task_ready ?P s (queue_states T (idles ?c)) w1 x"
    proof
      fix x assume x: "x \<in> set (m_fibers sc @ added)"
      show "task_ready ?P s (queue_states T (idles ?c)) w1 x"
      proof (cases "x \<in> set added")
        case True
        then show ?thesis using w1(4) plain_task_ready by blast
      next
        case False
        with x have xq: "x \<in> set (m_fibers sc)" by simp
        then have r: "task_ready ?P s {S_READY} ?w x" using rdy q by simp
        have "heap w1 g = heap ?w g" if "ft_fiber x = Some g" for g
        proof -
          have "g \<in> set (fids_of (m_fibers sc))" using xq that by (auto simp: set_fids_of)
          then show ?thesis using dist w1(3) by (auto simp: switched_def)
        qed
        from task_ready_mono [OF ready_sub task_ready_cong [OF this r]] show ?thesis by simp
      qed
    qed
  qed (use w1 sc dist fresh in \<open>auto simp: switched_def\<close>)
  with w1(1,3) show thesis by (intro that) (simp_all add: switched_def)
qed

lemma pool_exit:
  assumes p: "pool T s Q n0 c" "t \<in> T" and ph: "phases c t = Scanning" "idles c t = None"
    and q: "queue_of s (wworld c) = []"
  shows "pool T s Q n0 (goto t Ended (wworld c) c)"
proof -
  obtain sc where sc: "scheds (wworld c) s = Some sc" "iom sc = None" using poolD(7) [OF p(1)] by blast
  have own: "own_fids (goto t Ended (wworld c) c) t = own_fids c t" "work_fids (goto t Ended (wworld c) c) t = work_fids c t"
    using ph by (simp_all add: own_fids_def work_fids_def)
  show ?thesis
  proof (rule pool_goto [OF p sc], unfold own q)
    show "thread_ok T s Q n0 (goto t Ended (wworld c) c) t"
      using ph by (intro thread_ok_same_heap [OF p]) simp_all
    show "distinct (own_fids c t @ fids_of [])"
      using pool_distinct [OF p] by simp
  qed (use poolD(5) [OF p(1)] in auto)
qed

section \<open>Every step keeps the invariant, and no thread gets stuck\<close>

lemma pool_wstep:
  assumes st: "wstep s c c'" and p: "pool T s Q n0 c"
  shows "pool T s Q n0 c'"
  using st
proof cases
  case (take t ft tm w)
  then have t: "t \<in> T" using poolD(2) [OF p, of t] by auto
  from p t take(2) show ?thesis
    by (rule pool_take) (use take in auto)
next
  case (enter t ft f ft1 w)
  then have t: "t \<in> T" using poolD(2) [OF p, of t] by auto
  obtain w1 where "task_fiber ft (wworld c) = Inr (f, ft1, w1)"
    using enter(4) by (auto simp: run_enter_def)
  from p t enter(2) this show ?thesis
    by (rule pool_enter) (use enter in auto)
next
  case (drop t ft)
  then have t: "t \<in> T" using poolD(2) [OF p, of t] by auto
  from poolD(1) [OF p t] drop show ?thesis by (auto simp: thread_ok_def task_ready_def)
next
  case (account t f ft)
  then have t: "t \<in> T" using poolD(2) [OF p, of t] by auto
  from pool_account [OF p t account(2)] account(1) show ?thesis by simp
next
  case (settle t f ft w)
  then have t: "t \<in> T" using poolD(2) [OF p, of t] by auto
  from p t settle(2) show ?thesis
    by (rule pool_settle) (use settle in auto)
next
  case (idle t tm w i w1)
  then have t: "t \<in> T" using poolD(2) [OF p, of t] by auto
  from p t idle(2) show ?thesis
  proof (rule pool_take)
    fix tm' w'
    assume tk: "take_task t s (wworld c) = Inr (None, tm', w')" and p1: "pool T s Q n0 (goto t Scanning (after_scan s tm' w') c)"
      and rdy: "\<forall>x \<in> set (queue_of s w'). task_ready (pool_takes T) s {S_READY} w' x" and after: "after_scan s tm' w' = w'"
    have w': "tm' = tm" "w' = w" using tk idle(3) by simp_all
    obtain f where f: "idles c t = Some f" using idle(4) by (cases "idles c t") (auto simp: run_idle_def)
    show ?thesis
      by (rule pool_idle [OF p1 t, of f]) (use f rdy after idle w' in auto)
  qed (use idle in auto)
next
  case (exit t tm w w1)
  then have t: "t \<in> T" using poolD(2) [OF p, of t] by auto
  from p t exit(2) show ?thesis
  proof (rule pool_take)
    fix tm' w'
    assume tk: "take_task t s (wworld c) = Inr (None, tm', w')" and p1: "pool T s Q n0 (goto t Scanning (after_scan s tm' w') c)"
      and rdy: "\<forall>x \<in> set (queue_of s w'). task_ready (pool_takes T) s {S_READY} w' x" and after: "after_scan s tm' w' = w'"
      and em: "idles c t = None \<longrightarrow> queue_of s w' = []"
    have w': "tm' = tm" "w' = w" using tk exit(3) by simp_all
    show ?thesis
    proof (cases "idles c t")
      case None
      from pool_exit [OF p1 t] None em exit(1,4) after w' show ?thesis
        by (auto simp: run_idle_def)
    next
      case (Some f)
      show ?thesis
        by (rule pool_idle [OF p1 t, of f]) (use Some rdy after exit w' in auto)
    qed
  qed (use exit in auto)
qed

lemma task_fiber_defined:
  assumes ft: "task_ready P s S w ft" and id: "unat (s_fiber_id w) < unat kMaxFiberId"
  shows "\<exists>f ft1 w1. task_fiber ft w = Inr (f, ft1, w1)"
proof (cases "ft_fiber ft")
  case None
  with ft obtain b where b: "ft_cb ft = Some b" by (auto simp: task_ready_def)
  obtain w1 where "Fiber_new True (Some b) 0 False w = Inr (next_fid w, w1)"
    by (rule Fiber_new_plain [OF id, of b])
  with None b show ?thesis by (simp add: task_fiber_def)
qed (simp add: task_fiber_def)

text \<open>As long as there are ids, every thread that is in the loop can go on.\<close>

lemma pool_advance:
  assumes p: "pool T s Q n0 c" and t: "t \<in> T" and ph: "phases c t \<noteq> Ended"
    and id: "unat (s_fiber_id (wworld c)) < unat kMaxFiberId"
  shows "\<exists>c'. wstep s c c' \<and> (\<forall>u. u \<noteq> t \<longrightarrow> phases c' u = phases c u)"
proof (cases "phases c t")
  case Scanning
  from p t Scanning show ?thesis
  proof (rule pool_take)
    fix x w1 assume "take_task t s (wworld c) = Inr (Some x, True, w1)"
    from wstep.take [OF Scanning this] show ?thesis by (intro exI conjI) (assumption | simp)+
  next
    fix tm w1
    assume tk: "take_task t s (wworld c) = Inr (None, tm, w1)" and p1: "pool T s Q n0 (goto t Scanning (after_scan s tm w1) c)"
      and rdy: "\<forall>x \<in> set (queue_of s w1). task_ready (pool_takes T) s {S_READY} w1 x" and after: "after_scan s tm w1 = w1"
    show ?thesis
    proof (cases "idles c t")
      case None
      then have "run_idle t s (idles c t) (after_scan s tm w1) = Inr (Break w1)"
        using after by (simp add: run_idle_def)
      from wstep.exit [OF Scanning tk this] show ?thesis by (intro exI conjI) (assumption | simp)+
    next
      case (Some f)
      obtain w2 where "run_idle t s (Some f) w1 = Inr (Continue None w2)"
        by (rule pool_idle [OF p1 t, of f]) (use Some rdy after in auto)
      then have "run_idle t s (idles c t) (after_scan s tm w1) = Inr (Continue None w2)"
        using after Some by simp
      from wstep.idle [OF Scanning tk this] show ?thesis by (intro exI conjI) (assumption | simp)+
    qed
  qed
next
  case (Took ft)
  then have ft: "task_ready (pool_takes T) s {S_READY} (wworld c) ft"
    using poolD(1) [OF p t] by (simp add: thread_ok_def)
  then obtain f ft1 w1 where "task_fiber ft (wworld c) = Inr (f, ft1, w1)"
    using task_fiber_defined [OF _ id] by blast
  from pool_enter [OF p t Took this] obtain w2 where "run_enter t ft (wworld c) = Inr (f, ft1, w2)" by blast
  moreover have "ft_fiber ft \<noteq> None \<or> ft_cb ft \<noteq> None"
    using ft by (auto simp: task_ready_def split: option.splits)
  ultimately have "wstep s c (goto t (Ran f ft1) w2 c)"
    by (intro wstep.enter [OF Took])
  then show ?thesis by (intro exI conjI) (assumption | simp)+
next
  case (Ran f ft)
  from wstep.account [OF this] show ?thesis by (intro exI conjI) (assumption | simp)+
next
  case (Settling f ft)
  from pool_settle [OF p t this] obtain w1 where "run_settle s f ft (wworld c) = Inr w1" by blast
  from wstep.settle [OF Settling this] show ?thesis by (intro exI conjI) (assumption | simp)+
qed (use ph in simp)

section \<open>Every interleaving ends\<close>

text \<open>What is left to do: the work of \<open>SchedulerRun\<close>, and what each thread has in its hands.\<close>

fun phase_weight :: "phase \<Rightarrow> nat" where
  "phase_weight Scanning = 1"
| "phase_weight (Took ft) = 4 * task_weight ft"
| "phase_weight (Ran f ft) = 7"
| "phase_weight (Settling f ft) = 6"
| "phase_weight Ended = 0"

definition pool_measure :: "tid set \<Rightarrow> sid \<Rightarrow> workers \<Rightarrow> nat" where
  "pool_measure T s c = 4 * work_left s (wworld c) + (\<Sum>t \<in> T. phase_weight (phases c t))"

lemma pool_measure_idles [simp]: "pool_measure T s (c\<lparr>idles := i\<rparr>) = pool_measure T s c"
  by (simp add: pool_measure_def)

lemma pool_measure_goto:
  assumes "finite T" "t \<in> T"
    and "4 * work_left s w' + phase_weight p' < 4 * work_left s (wworld c) + phase_weight (phases c t)"
  shows "pool_measure T s (goto t p' w' c) < pool_measure T s c"
proof -
  have "(\<Sum>u \<in> T. phase_weight (((phases c)(t := p')) u)) = phase_weight p' + (\<Sum>u \<in> T - {t}. phase_weight (phases c u))"
    using assms(1,2) by (simp add: sum.remove [of T t])
  moreover have "(\<Sum>u \<in> T. phase_weight (phases c u)) = phase_weight (phases c t) + (\<Sum>u \<in> T - {t}. phase_weight (phases c u))"
    using assms(1,2) by (simp add: sum.remove [of T t])
  ultimately show ?thesis using assms(3) by (simp add: pool_measure_def)
qed

lemma work_left_after_scan [simp]: "work_left s (after_scan s tm w) = work_left s w"
  by (simp add: after_scan_def work_left_upd_sched)

lemma fresh_after_scan [simp]: "fresh_heap (after_scan s tm w) = fresh_heap w"
  "s_fiber_id (after_scan s tm w) = s_fiber_id w" "t_scheduler_fiber (after_scan s tm w) = t_scheduler_fiber w"
  by (simp_all add: after_scan_def)

lemma unat_succ_le: "unat (x + 1 :: u64) \<le> unat x + 1"
  unfolding unat_word_ariths(1) by (rule order_trans [OF mod_less_eq_dividend]) simp

lemma take_task_id:
  assumes "take_task t s w = Inr (found, tm, w')" shows "s_fiber_id w' = s_fiber_id w"
proof -
  obtain sc where sc: "scheds w s = Some sc" using assms by (auto simp: take_task_def)
  from take_task_scan [OF assms sc] obtain q w1 where
    q: "scan t False [] (m_fibers sc) w = Inr (found, tm, q, w1)"
    and w': "w' = upd_sched s (\<lambda>sc. sc\<lparr>m_fibers := q,
           m_activeThreadCount := (if found = None then m_activeThreadCount sc
                                   else m_activeThreadCount sc + 1)\<rparr>) w1" .
  have "promoted w w1" using scan_conserves [OF q] by blast
  then show ?thesis using promoted_frame(3) by (simp add: w')
qed

lemma enter_weight:
  assumes tf: "task_fiber ft w = Inr (f, ft1, w1)" and en: "run_enter t ft w = Inr (f, ft1, w2)"
    and fresh: "fresh_heap w" and m: "t_scheduler_fiber w t \<noteq> Some f" and ft: "task_ready P s S w ft"
  shows "work_left s w2 + 2 \<le> work_left s w + task_weight ft \<and> unat (s_fiber_id w1) \<le> unat (s_fiber_id w) + 1"
proof -
  have sw: "swapIn sched_act t f (setState f S_READY w1) = Inr w2"
    using tf en by (simp add: run_enter_def)
  have pre: "fresh_heap w1 \<and> t_scheduler_fiber w1 = t_scheduler_fiber w
      \<and> work_left s w1 + 1 \<le> work_left s w + task_weight ft \<and> unat (s_fiber_id w1) \<le> unat (s_fiber_id w) + 1"
  proof (cases "ft_fiber ft")
    case (Some g)
    then show ?thesis using tf fresh by (auto simp: task_fiber_def task_weight_def)
  next
    case None
    with ft obtain b where b: "ft_cb ft = Some b" by (auto simp: task_ready_def)
    have "Fiber_new True (Some b) 0 False w = Inr (f, w1)"
      using tf None b by (auto simp: task_fiber_def)
    from Fiber_new_weight [OF this fresh, of s] Fiber_new_made [OF this] None b unat_succ_le [of "s_fiber_id w"]
    show ?thesis by (auto simp: task_weight_def)
  qed
  from swapIn_weight [OF sw, of s] pre m show ?thesis
    by (simp add: swapped_def)
qed

lemma wstep_measure:
  assumes st: "wstep s c c'" and p: "pool T s Q n0 c" and fin: "finite T"
  shows "pool_measure T s c' < pool_measure T s c
    \<and> unat (s_fiber_id (wworld c')) \<le> unat (s_fiber_id (wworld c)) + 1"
  using st
proof cases
  case (take t ft tm w)
  then have t: "t \<in> T" using poolD(2) [OF p, of t] by auto
  from take_task_weight [OF take(3) poolD(5) [OF p]] take_task_id [OF take(3)] take(1,2) show ?thesis
    by (auto intro!: pool_measure_goto [OF fin t])
next
  case (enter t ft f ft1 w)
  then have t: "t \<in> T" using poolD(2) [OF p, of t] by auto
  have ft: "task_ready (pool_takes T) s {S_READY} (wworld c) ft"
    using poolD(1) [OF p t] enter(2) by (simp add: thread_ok_def)
  obtain w1 where tf: "task_fiber ft (wworld c) = Inr (f, ft1, w1)"
    using enter(4) by (auto simp: run_enter_def)
  from pool_enter [OF p t enter(2) tf] enter(4) have "t_scheduler_fiber (wworld c) t \<noteq> Some f" "s_fiber_id w = s_fiber_id w1"
    by auto
  from enter_weight [OF tf enter(4) poolD(5) [OF p] this(1) ft] this(2) enter(1,2) show ?thesis
    by (auto intro!: pool_measure_goto [OF fin t])
next
  case (drop t ft)
  then have t: "t \<in> T" using poolD(2) [OF p, of t] by auto
  from poolD(1) [OF p t] drop show ?thesis by (auto simp: thread_ok_def task_ready_def)
next
  case (account t f ft)
  then have t: "t \<in> T" using poolD(2) [OF p, of t] by auto
  have "work_left s (run_account s (wworld c)) = work_left s (wworld c)"
    unfolding run_account_def by (rule work_left_upd_sched) simp
  moreover have "s_fiber_id (run_account s (wworld c)) = s_fiber_id (wworld c)"
    by (simp add: run_account_def)
  ultimately show ?thesis
    using account by (auto intro!: pool_measure_goto [OF fin t])
next
  case (settle t f ft w)
  then have t: "t \<in> T" using poolD(2) [OF p, of t] by auto
  have "ft_fiber ft = Some f" using poolD(1) [OF p t] settle(2) by (simp add: thread_ok_def stopped_ok_def)
  from schedule_again_weight [OF this, of s "wworld c"] settle(3)
  have "work_left s w \<le> work_left s (wworld c) + 1"
    by (auto simp: run_settle_def split: if_splits)
  moreover from pool_settle [OF p t settle(2)] settle(3) have "s_fiber_id w = s_fiber_id (wworld c)"
    by auto
  ultimately show ?thesis
    using settle(1,2) by (auto intro!: pool_measure_goto [OF fin t])
next
  case (idle t tm w i w1)
  then have t: "t \<in> T" using poolD(2) [OF p, of t] by auto
  from p t idle(2) show ?thesis
  proof (rule pool_take)
    fix tm' w'
    assume tk: "take_task t s (wworld c) = Inr (None, tm', w')" and p1: "pool T s Q n0 (goto t Scanning (after_scan s tm' w') c)"
      and rdy: "\<forall>x \<in> set (queue_of s w'). task_ready (pool_takes T) s {S_READY} w' x" and after: "after_scan s tm' w' = w'"
    have w': "tm' = tm" "w' = w" using tk idle(3) by simp_all
    obtain f where f: "idles c t = Some f" using idle(4) by (cases "idles c t") (auto simp: run_idle_def)
    have r: "run_idle t s (Some f) w = Inr (Continue i w1)" using idle(4) f after w' by simp
    have fr: "fresh_heap w" using poolD(5) [OF p1] w' by simp
    have "t_scheduler_fiber w t \<noteq> Some f"
      using pool_distinct [OF p1 t] f w' by (auto simp: own_fids_def work_fids_def)
    from run_idle_weight [OF r fr this] have "work_left s w1 < work_left s w" by simp
    moreover have "work_left s w \<le> work_left s (wworld c)" "s_fiber_id w = s_fiber_id (wworld c)"
      using take_task_weight [OF idle(3) poolD(5) [OF p]] take_task_id [OF idle(3)] by simp_all
    moreover have "s_fiber_id w1 = s_fiber_id w"
      by (rule pool_idle [OF p1 t, of f]) (use f rdy after r w' in auto)
    ultimately show ?thesis
      using idle(1,2) by (auto intro!: pool_measure_goto [OF fin t])
  qed (use idle in auto)
next
  case (exit t tm w w1)
  then have t: "t \<in> T" using poolD(2) [OF p, of t] by auto
  from p t exit(2) show ?thesis
  proof (rule pool_take)
    fix tm' w'
    assume tk: "take_task t s (wworld c) = Inr (None, tm', w')" and p1: "pool T s Q n0 (goto t Scanning (after_scan s tm' w') c)"
      and rdy: "\<forall>x \<in> set (queue_of s w'). task_ready (pool_takes T) s {S_READY} w' x" and after: "after_scan s tm' w' = w'"
    have w': "tm' = tm" "w' = w" using tk exit(3) by simp_all
    have "idles c t = None"
    proof (cases "idles c t")
      case (Some f)
      show ?thesis
        by (rule pool_idle [OF p1 t, of f]) (use Some rdy after exit w' in auto)
    qed
    then have "w1 = after_scan s tm w" using exit(4) by (simp add: run_idle_def)
    moreover have "work_left s w \<le> work_left s (wworld c)" "s_fiber_id w = s_fiber_id (wworld c)"
      using take_task_weight [OF exit(3) poolD(5) [OF p]] take_task_id [OF exit(3)] by simp_all
    ultimately show ?thesis
      using exit(1,2) by (auto intro!: pool_measure_goto [OF fin t])
  qed (use exit in auto)
qed

text \<open>Workers that have just entered their loops.\<close>

definition pool_ready :: "tid set \<Rightarrow> sid \<Rightarrow> workers \<Rightarrow> bool" where
  "pool_ready T s c \<longleftrightarrow> finite T \<and> T \<noteq> {}
     \<and> (case scheds (wworld c) s of None \<Rightarrow> False | Some sc \<Rightarrow> iom sc = None) \<and> fresh_heap (wworld c)
     \<and> (\<forall>t. phases c t = (if t \<in> T then Scanning else Ended))
     \<and> (\<forall>t \<in> T. (case t_scheduler_fiber (wworld c) t of None \<Rightarrow> False | Some m \<Rightarrow> heap (wworld c) m \<noteq> None)
          \<and> idles c t \<noteq> None \<and> idle_ok (wworld c) (idles c t))
     \<and> (\<forall>x \<in> set (queue_of s (wworld c)). task_ready (pool_takes T) s queued_states (wworld c) x)
     \<and> apart T s c"

lemma pool_start:
  assumes r: "pool_ready T s c"
  shows "pool T s (set (fids_of (queue_of s (wworld c)))) (next_fid (wworld c)) c"
proof -
  let ?w = "wworld c"
  obtain sc where sc: "scheds ?w s = Some sc" "iom sc = None"
    using r by (auto simp: pool_ready_def split: option.splits)
  have thr: "thread_ok T s (set (fids_of (queue_of s ?w))) (next_fid ?w) c t" if t: "t \<in> T" for t
  proof -
    obtain m where m: "t_scheduler_fiber ?w t = Some m" "heap ?w m \<noteq> None" "idle_ok ?w (idles c t)" "phases c t = Scanning"
      using r t by (auto simp: pool_ready_def split: option.splits)
    have "distinct (own_fids c t @ fids_of (queue_of s ?w))"
      using r t by (simp add: pool_ready_def apart_def)
    then have "m \<notin> set (fids_of (queue_of s ?w))" using m(1) by (simp add: own_fids_def)
    moreover have "m < next_fid ?w" using r m(2) by (auto simp: pool_ready_def dest: fresh_heapD)
    ultimately show ?thesis using m by (simp add: thread_ok_def)
  qed
  have "queue_states T (idles c) = queued_states"
    using r by (auto simp: pool_ready_def queue_states_def)
  moreover have "\<exists>t \<in> T. phases c t \<noteq> Ended"
    using r by (auto simp: pool_ready_def)
  moreover have "tracked T s (set (fids_of (queue_of s ?w))) (next_fid ?w) c"
    by (simp add: tracked_def)
  ultimately show ?thesis
    using r sc thr unfolding pool_def pool_ready_def by auto
qed

lemma pool_wreach: "wreach s c c' \<Longrightarrow> pool T s Q n0 c \<Longrightarrow> pool T s Q n0 c'"
  by (induction rule: wreach.induct) (auto intro: pool_wstep)

lemma pool_steps:
  "(wstep s ^^ n) c c' \<Longrightarrow> pool T s Q n0 c \<Longrightarrow> finite T \<Longrightarrow>
     pool T s Q n0 c' \<and> pool_measure T s c' + n \<le> pool_measure T s c
     \<and> unat (s_fiber_id (wworld c')) \<le> unat (s_fiber_id (wworld c)) + n"
proof (induction n arbitrary: c')
  case (Suc n)
  then obtain c1 where c1: "(wstep s ^^ n) c c1" "wstep s c1 c'" by auto
  from Suc.IH [OF c1(1) Suc.prems(2,3)] have IH: "pool T s Q n0 c1" "pool_measure T s c1 + n \<le> pool_measure T s c"
    "unat (s_fiber_id (wworld c1)) \<le> unat (s_fiber_id (wworld c)) + n" by auto
  from wstep_measure [OF c1(2) IH(1) Suc.prems(3)] pool_wstep [OF c1(2) IH(1)] IH(2,3) show ?case by simp
qed simp

text \<open>Two workers, their own and their idle fibers, and three tasks, for examples.\<close>

definition two_workers :: workers where
  "two_workers = \<lparr>wworld = (one_sched [FiberAndThread_cb (Some (BDo (AScheduleCb 0 BThrow 0) BReturn)) 0,
        FiberAndThread_fiber (Some 4) 0, FiberAndThread_cb (Some (BYieldToReady BReturn)) 0] Map.empty)\<lparr>
        heap := [0 \<mapsto> thread_fiber, 1 \<mapsto> plain_fiber S_INIT BReturn, 2 \<mapsto> thread_fiber,
          3 \<mapsto> plain_fiber S_INIT BReturn, 4 \<mapsto> plain_fiber S_INIT (BYieldToHold BReturn)],
        t_fiber := [7 \<mapsto> 0, 8 \<mapsto> 2], t_scheduler_fiber := [7 \<mapsto> 0, 8 \<mapsto> 2]\<rparr>,
     phases = (\<lambda>t. if t \<in> {7, 8} then Scanning else Ended), idles = [7 \<mapsto> 1, 8 \<mapsto> 3]\<rparr>"

lemma two_workers_ready: "pool_ready {7, 8} 0 two_workers"
  unfolding pool_ready_def
proof (intro conjI)
  show "apart {7, 8} 0 two_workers"
    by (simp add: apart_def own_fids_def work_fids_def two_workers_def queue_of_def one_sched_def
      FiberAndThread_cb_def FiberAndThread_fiber_def)
qed (simp_all add: two_workers_def fresh_heap_def one_sched_def queue_of_def task_ready_def pool_takes_def takes_def
  idle_ok_def todo_def plain_fiber_def FiberAndThread_cb_def FiberAndThread_fiber_def thread_arg_def)

section \<open>Properties\<close>





text \<open>
  A fiber that is queued twice: both workers take it, as it stays \<open>READY\<close> until \<open>swapIn\<close>, which
  happens outside the lock; whoever comes second enters it while it is the other's.
\<close>

definition queued_twice :: workers where
  "queued_twice = two_workers\<lparr>wworld := upd_sched 0 (\<lambda>sc. sc\<lparr>m_fibers :=
     [FiberAndThread_fiber (Some 4) 0, FiberAndThread_fiber (Some 4) 0]\<rparr>)
     (setState 4 S_READY (wworld two_workers))\<rparr>"

theorem fiber_queued_twice:
  "\<exists>c. wreach 0 queued_twice c
    \<and> phases c 7 = Took (FiberAndThread_fiber (Some 4) 0) \<and> phases c 8 = Took (FiberAndThread_fiber (Some 4) 0)"
proof -
  let ?x = "FiberAndThread_fiber (Some 4) 0"
  have 1: "\<exists>w1. take_task 7 0 (wworld queued_twice) = Inr (Some ?x, True, w1)
      \<and> (\<exists>w2. take_task 8 0 (after_scan 0 True w1) = Inr (Some ?x, True, w2))"
    by (simp add: take_task_def sched_at_Some getState_Some fiber_ops queued_twice_def two_workers_def
      plain_fiber_def after_scan_def tickle_def) blast
  then obtain w1 w2 where t: "take_task 7 0 (wworld queued_twice) = Inr (Some ?x, True, w1)"
    "take_task 8 0 (after_scan 0 True w1) = Inr (Some ?x, True, w2)" by blast
  have ph: "phases queued_twice 7 = Scanning" "phases queued_twice 8 = Scanning"
    by (simp_all add: queued_twice_def two_workers_def)
  let ?c1 = "goto 7 (Took ?x) (after_scan 0 True w1) queued_twice"
  have s1: "wstep 0 queued_twice ?c1" by (rule wstep.take [OF ph(1) t(1)])
  have "wstep 0 ?c1 (goto 8 (Took ?x) (after_scan 0 True w2) ?c1)"
    using ph(2) t(2) by (intro wstep.take) simp_all
  with s1 have "wreach 0 queued_twice (goto 8 (Took ?x) (after_scan 0 True w2) ?c1)"
    using wreach.step wreach.start by blast
  then show ?thesis by (intro exI conjI) (assumption | simp)+
qed

end
