(* ===== verification/SchedulerDrain.thy ===== *)
theory SchedulerDrain
  imports WorkerPool
begin

text \<open>
  The loop of one worker thread, as the code has it (\<open>run\<close>), against the system of the workers: every
  iteration is a sequence of its steps, so that what holds of the system holds of the loop. On
  a queue of plain tasks the loop returns, the queue is then empty, and every task has been run.
\<close>

section \<open>The loop as a path of the system\<close>

text \<open>The system after an iteration of thread \<open>t\<close> with the result \<open>r\<close>.\<close>

definition after_iter :: "tid \<Rightarrow> run_result \<Rightarrow> workers \<Rightarrow> workers" where
  "after_iter t r c =
     (case r of
        Continue i w \<Rightarrow> (goto t Scanning w c)\<lparr>idles := (idles c)(t := i)\<rparr>
      | Break w \<Rightarrow> goto t Ended w c)"

lemma one_step: "R x y \<Longrightarrow> (R ^^ Suc 0) x y" for R :: "'a \<Rightarrow> 'a \<Rightarrow> bool"
  by (rule relpowp_Suc_I [OF relpowp_0_I])

lemma goto_idles [simp]: "(goto t p w c)\<lparr>idles := idles c\<rparr> = goto t p w c"
  by (simp add: goto_def)

lemma run_iter_steps:
  assumes r: "run_iter t s (idles c t) (wworld c) = Inr r" and ph: "phases c t = Scanning"
  shows "\<exists>n. (wstep s ^^ Suc n) c (after_iter t r c)"
proof -
  obtain found tm w1 where tk: "take_task t s (wworld c) = Inr (found, tm, w1)"
    using r by (auto simp: run_iter_def)
  let ?w2 = "after_scan s tm w1"
  show ?thesis
  proof (cases found)
    case None
    then have "run_idle t s (idles c t) ?w2 = Inr r"
      using r tk by (simp add: run_iter_def after_scan_def)
    then have "wstep s c (after_iter t r c)"
      using wstep.idle [OF ph tk [unfolded None]] wstep.exit [OF ph tk [unfolded None]]
      by (cases r) (auto simp: after_iter_def)
    then show ?thesis by (blast intro: one_step)
  next
    case (Some ft)
    let ?c1 = "goto t (Took ft) ?w2 c"
    have s1: "wstep s c ?c1" using wstep.take [OF ph tk [unfolded Some]] .
    show ?thesis
    proof (cases "ft_fiber ft \<noteq> None \<or> ft_cb ft \<noteq> None")
      case True
      then obtain w3 where w3: "run_task t s ft ?w2 = Inr w3" and r: "r = Continue (idles c t) w3"
        using r tk Some by (auto simp: run_iter_def after_scan_def Let_def)
      then obtain f ft1 w4 where en: "run_enter t ft ?w2 = Inr (f, ft1, w4)"
        and se: "run_settle s f ft1 (run_account s w4) = Inr w3"
        by (auto simp: run_task_def)
      let ?c2 = "goto t (Ran f ft1) w4 c" and ?c3 = "goto t (Settling f ft1) (run_account s w4) c"
      have "wstep s ?c1 ?c2" using wstep.enter [of ?c1 t ft f ft1 w4 s] True en by simp
      moreover have "wstep s ?c2 ?c3" using wstep.account [of ?c2 t f ft1 s] by simp
      moreover have "wstep s ?c3 (goto t Scanning w3 c)" using wstep.settle [of ?c3 t f ft1 s w3] se by simp
      ultimately have "(wstep s ^^ Suc 3) c (goto t Scanning w3 c)"
        using s1 by (auto simp: numeral_3_eq_3 intro!: relpowp_Suc_I)
      moreover have "after_iter t r c = goto t Scanning w3 c" using r by (simp add: after_iter_def)
      ultimately show ?thesis by metis
    next
      case False
      then have "r = Continue (idles c t) (run_account s ?w2)"
        using r tk Some by (auto simp: run_iter_def after_scan_def Let_def)
      moreover have "wstep s ?c1 (goto t Scanning (run_account s ?w2) c)"
        using wstep.drop [of ?c1 t ft s] False by simp
      ultimately have "(wstep s ^^ Suc 1) c (after_iter t r c)"
        using s1 by (auto simp: after_iter_def intro!: relpowp_Suc_I)
      then show ?thesis by blast
    qed
  qed
qed

lemma after_iter_simps [simp]:
  "after_iter t (Continue i w) c = (goto t Scanning w c)\<lparr>idles := (idles c)(t := i)\<rparr>"
  "after_iter t (Break w) c = goto t Ended w c"
  by (simp_all add: after_iter_def)

lemma run_loop_steps:
  "run_loop fuel t s (idles c t) (wworld c) = Inr w' \<Longrightarrow> phases c t = Scanning \<Longrightarrow>
   \<exists>n i. (wstep s ^^ n) c ((goto t Ended w' c)\<lparr>idles := (idles c)(t := i)\<rparr>)"
proof (induction fuel arbitrary: c)
  case (Suc fuel)
  then obtain r where r: "run_iter t s (idles c t) (wworld c) = Inr r"
    by (cases "run_iter t s (idles c t) (wworld c)") simp_all
  obtain n where n: "(wstep s ^^ Suc n) c (after_iter t r c)"
    using run_iter_steps [OF r Suc.prems(2)] by blast
  show ?case
  proof (cases r)
    case (Continue i w1)
    obtain k j where "(wstep s ^^ k) (after_iter t r c) ((goto t Ended w' c)\<lparr>idles := (idles c)(t := j)\<rparr>)"
      using Suc.IH [of "after_iter t r c"] Suc.prems(1) r Continue by (auto simp del: fun_upd_apply) (auto simp: fun_upd_def)
    then have "(wstep s ^^ (Suc n + k)) c ((goto t Ended w' c)\<lparr>idles := (idles c)(t := j)\<rparr>)"
      using n unfolding relpowp_add by (rule relcomppI [rotated])
    then show ?thesis by blast
  next
    case (Break w1)
    then have "(goto t Ended w' c)\<lparr>idles := (idles c)(t := idles c t)\<rparr> = after_iter t r c"
      using r Suc.prems(1) by simp
    then show ?thesis using n by metis
  qed
qed simp

text \<open>On plain tasks no iteration fails.\<close>

lemma run_iter_defined:
  assumes p: "pool T s Q n0 c" and t: "t \<in> T" and ph: "phases c t = Scanning"
    and id: "unat (s_fiber_id (wworld c)) < unat kMaxFiberId"
  shows "\<exists>r. run_iter t s (idles c t) (wworld c) = Inr r"
  using p t ph
proof (rule pool_take)
  fix x w1
  assume tk: "take_task t s (wworld c) = Inr (Some x, True, w1)" and p1: "pool T s Q n0 (goto t (Took x) (after_scan s True w1) c)"
  let ?w1 = "after_scan s True w1"
  have x: "task_ready (pool_takes T) s {S_READY} ?w1 x"
    using poolD(1) [OF p1 t] by (simp add: thread_ok_def)
  have "s_fiber_id ?w1 = s_fiber_id (wworld c)" using take_task_id [OF tk] by simp
  then obtain f ft1 w2 where tf: "task_fiber x ?w1 = Inr (f, ft1, w2)"
    using task_fiber_defined [OF x] id by auto
  obtain w3 where w3: "run_enter t x ?w1 = Inr (f, ft1, w3)" "pool T s Q n0 (goto t (Ran f ft1) w3 c)"
    using pool_enter [OF p1 t, of x f ft1 w2] tf by auto
  have "pool T s Q n0 (goto t (Settling f ft1) (run_account s w3) c)"
    using pool_account [OF w3(2) t, of f ft1] by simp
  from pool_settle [OF this t, of f ft1] obtain w4 where "run_settle s f ft1 (run_account s w3) = Inr w4" by auto
  with w3(1) have "run_task t s x ?w1 = Inr w4" by (simp add: run_task_def)
  moreover have "ft_fiber x \<noteq> None \<or> ft_cb x \<noteq> None"
    using x by (auto simp: task_ready_def split: option.splits)
  ultimately show ?thesis using tk by (simp add: run_iter_def after_scan_def)
next
  fix tm w1
  assume tk: "take_task t s (wworld c) = Inr (None, tm, w1)" and p1: "pool T s Q n0 (goto t Scanning (after_scan s tm w1) c)"
    and rdy: "\<forall>x \<in> set (queue_of s w1). task_ready (pool_takes T) s {S_READY} w1 x" and after: "after_scan s tm w1 = w1"
  have "\<exists>r. run_idle t s (idles c t) w1 = Inr r"
  proof (cases "idles c t")
    case (Some f)
    obtain w2 where "run_idle t s (Some f) w1 = Inr (Continue None w2)"
      by (rule pool_idle [OF p1 t, of f]) (use Some rdy after in auto)
    with Some show ?thesis by simp
  qed (simp add: run_idle_def)
  then show ?thesis using tk after by (simp add: run_iter_def after_scan_def Let_def)
qed

lemma drain_loop:
  "pool T s Q n0 c \<Longrightarrow> t \<in> T \<Longrightarrow> finite T \<Longrightarrow> phases c t = Scanning \<Longrightarrow> work_left s (wworld c) < fuel \<Longrightarrow>
   unat (s_fiber_id (wworld c)) + pool_measure T s c < unat kMaxFiberId \<Longrightarrow>
   \<exists>w'. run_loop fuel t s (idles c t) (wworld c) = Inr w'"
proof (induction fuel arbitrary: c)
  case (Suc fuel)
  note p = Suc.prems(1) and t = Suc.prems(2) and fin = Suc.prems(3) and ph = Suc.prems(4)
  obtain r where r: "run_iter t s (idles c t) (wworld c) = Inr r"
    using run_iter_defined [OF p t ph] Suc.prems(6) by auto
  show ?case
  proof (cases r)
    case (Continue i w1)
    let ?c = "after_iter t r c"
    obtain n where "(wstep s ^^ Suc n) c ?c" using run_iter_steps [OF r ph] by blast
    from pool_steps [OF this p fin] have p1: "pool T s Q n0 ?c"
      and m: "pool_measure T s ?c + Suc n \<le> pool_measure T s c"
        "unat (s_fiber_id (wworld ?c)) \<le> unat (s_fiber_id (wworld c)) + Suc n" by auto
    obtain m where m1: "t_scheduler_fiber (wworld c) t = Some m" "heap (wworld c) m \<noteq> None"
      using pool_main [OF p t] by blast
    have "\<forall>m. t_scheduler_fiber (wworld c) t = Some m \<longrightarrow> m < next_fid (wworld c)"
      using m1 poolD(5) [OF p] by (auto dest: fresh_heapD)
    moreover have "\<forall>f. idles c t = Some f \<longrightarrow> t_scheduler_fiber (wworld c) t \<noteq> Some f"
      using pool_distinct [OF p t] m1(1) by (auto simp: own_fids_Some)
    ultimately have "work_left s w1 < work_left s (wworld c)"
      using run_iter_weight [OF r [unfolded Continue] poolD(5) [OF p]] by blast
    then have "\<exists>w'. run_loop fuel t s (idles ?c t) (wworld ?c) = Inr w'"
      using Suc.prems(5,6) m Continue by (intro Suc.IH [OF p1 t fin]) simp_all
    then show ?thesis using r Continue by simp
  next
    case (Break w1)
    then show ?thesis using r by simp
  qed
qed simp

text \<open>A new thread enters \<open>run\<close>: its own fiber and the idle fiber are made.\<close>

definition entering :: "tid \<Rightarrow> fid \<Rightarrow> sworld \<Rightarrow> workers" where
  "entering t f w = \<lparr>wworld = w, phases = (\<lambda>u. if u = t then Scanning else Ended), idles = [t \<mapsto> f]\<rparr>"

lemma entering_simps [simp]:
  "wworld (entering t f w) = w" "phases (entering t f w) = (\<lambda>u. if u = t then Scanning else Ended)"
  "idles (entering t f w) = [t \<mapsto> f]"
  by (simp_all add: entering_def)

lemma pool_takes_one [simp]: "pool_takes {t} = takes t"
  by (simp add: fun_eq_iff pool_takes_def)

lemma prologue_ready:
  assumes sc: "scheds w s = Some sc" "iom sc = None" and t: "t \<noteq> m_rootThread sc" "t_fiber w t = None"
    and fresh: "fresh_heap w"
    and tasks: "\<forall>x \<in> set (m_fibers sc). task_ready (takes t) s queued_states w x" "distinct (fids_of (m_fibers sc))"
    and id: "unat (s_fiber_id w) < unat kMaxFiberId"
  obtains w1 where "run_prologue iom_idle t s w = Inr (next_fid w + 1, w1)" "unat (s_fiber_id w1) = unat (s_fiber_id w) + 1"
    "next_fid w1 = next_fid w + 2" "queue_of s w1 = m_fibers sc" "pool_ready {t} s (entering t (next_fid w + 1) w1)"
proof -
  let ?m = "next_fid w"
  let ?w0 = "w\<lparr>t_scheduler := (t_scheduler w)(t := Some s)\<rparr>"
  obtain w1 where g: "GetThis t ?w0 = Inr (?m, w1)" and w1: "heap w1 = (heap w)(?m \<mapsto> thread_fiber)"
    "next_fid w1 = ?m + 1" "scheds w1 = scheds w" "s_fiber_id w1 = s_fiber_id w" "t_scheduler_fiber w1 = t_scheduler_fiber w"
    using t(2) by (auto simp: GetThis_def Fiber_main_def new_fiber_def safeFiberCountIncr_def SetThis_def
      thread_fiber_def Let_def)
  let ?w2 = "w1\<lparr>t_scheduler_fiber := (t_scheduler_fiber w1)(t := Some ?m)\<rparr>"
  have "unat (s_fiber_id ?w2) < unat kMaxFiberId" using id w1(4) by simp
  then obtain fb w3 where new: "Fiber_new True (Some BReturn) 0 False ?w2 = Inr (next_fid ?w2, w3)"
    "heap w3 = (heap ?w2)(next_fid ?w2 \<mapsto> fb)" "m_state fb = S_INIT" "todo fb = Some BReturn"
    "next_fid w3 = next_fid ?w2 + 1" "scheds w3 = scheds ?w2" "t_scheduler_fiber w3 = t_scheduler_fiber ?w2"
    "unat (s_fiber_id w3) = unat (s_fiber_id ?w2) + 1"
    by (rule Fiber_new_plain)
  have old: "heap w3 g = heap w g" "g < ?m" if "heap w g \<noteq> None" for g
  proof -
    show "g < ?m" using that fresh by (meson fresh_heap_def not_le)
    then show "heap w3 g = heap w g" using new(2) w1(1,2) by simp
  qed
  have ready: "\<forall>x \<in> set (m_fibers sc). task_ready (takes t) s queued_states w3 x"
  proof
    fix x assume "x \<in> set (m_fibers sc)"
    with tasks(1) have r: "task_ready (takes t) s queued_states w x" by blast
    show "task_ready (takes t) s queued_states w3 x"
      using r by (rule task_ready_cong [rotated]) (use old task_ready_live [OF r] in blast)
  qed
  have low: "g < ?m" if "g \<in> set (fids_of (m_fibers sc))" for g
    using that tasks(1) task_ready_live old(2) unfolding set_fids_of by blast
  let ?c = "entering t (?m + 1) w3"
  have q: "queue_of s w3 = m_fibers sc" using new(6) w1(3) sc(1) by simp
  have main: "t_scheduler_fiber w3 t = Some ?m" "heap w3 ?m = Some thread_fiber" "heap w3 (?m + 1) = Some fb"
    using new(2,7) w1(1,2) by simp_all
  have "pool_ready {t} s ?c"
    unfolding pool_ready_def
  proof (intro conjI)
    show "fresh_heap (wworld ?c)"
      using fresh new(2,5) w1(1,2) by (simp add: fresh_heap_def)
    show "apart {t} s ?c"
      using main(1) q tasks(2) low by (fastforce simp: apart_def own_fids_def work_fids_def)
  qed (use q sc new(3,4,6) w1(3) main ready in \<open>simp_all add: idle_ok_def\<close>)
  moreover have "run_prologue iom_idle t s w = Inr (?m + 1, w3)"
    using sc t(1) g new(1) w1(2) by (simp add: run_prologue_def sched_at_Some idle_body_def Let_def)
  ultimately show thesis
    using new(5,8) w1(2,4) q by (intro that [of w3]) simp_all
qed

section \<open>Properties\<close>




text \<open>Two tasks for the example: a callback that schedules another and yields, and a fiber on hold.\<close>

definition busy_queue :: "task list" where
  "busy_queue = [FiberAndThread_cb (Some (BDo (AScheduleCb 0 BThrow 0) (BYieldToReady BReturn))) 0,
     FiberAndThread_fiber (Some 1) 0]"

definition busy_world :: sworld where
  "busy_world = one_sched busy_queue [1 \<mapsto> plain_fiber S_HOLD (BYieldToHold BReturn)]"

lemma work_left_busy: "work_left 0 busy_world = 11"
proof -
  have "fiber_weight (([1 \<mapsto> plain_fiber S_HOLD (BYieldToHold BReturn)]) g) = (if g = 1 then 2 else 0)" for g :: fid
    by (simp add: fiber_weight_def plain_fiber_def)
  then have "heap_weight {} busy_world = 2"
    unfolding heap_weight_def busy_world_def one_sched_simps by (simp del: fun_upd_apply One_nat_def)
  then show ?thesis
    by (simp add: work_left_def queue_weight_def busy_world_def busy_queue_def task_weight_def
      FiberAndThread_cb_def FiberAndThread_fiber_def)
qed


end
