(* ===== verification/Mutex.thy ===== *)
theory Mutex
  imports Prelude
begin

text \<open>
  \<open>ddg/mutex.h\<close> and \<open>ddg/mutex.cc\<close>: the semaphore, the locks over the POSIX primitives,
  the compare-and-swap lock as a system of interleaved threads, and the three scoped guards.
  The POSIX calls are modelled as glibc documents them: what a call does to the lock, the
  error number it returns, or that it blocks. The wrappers of this file build a
  \<open>std::logic_error\<close> on an error number and do not throw it, so an error of a POSIX
  call has no effect at all; \<open>discard_error\<close> marks each of those places.
\<close>

section \<open>The POSIX primitives the wrappers call\<close>

definition EDEADLK :: int where "EDEADLK = 35"
definition SEM_VALUE_MAX :: nat where "SEM_VALUE_MAX = 2147483647"

text \<open>A default (normal) mutex: locked by one thread; relocking by its owner deadlocks.\<close>

type_synonym pmutex = "tid option"

definition pthread_mutex_lock :: "tid \<Rightarrow> pmutex \<Rightarrow> (int \<times> pmutex) result" where
  "pthread_mutex_lock t m = (case m of None \<Rightarrow> Inr (0, Some t) | Some _ \<Rightarrow> Inl Blocked)"

definition pthread_mutex_unlock :: "tid \<Rightarrow> pmutex \<Rightarrow> (int \<times> pmutex) result" where
  "pthread_mutex_unlock t m =
     (if m = Some t then Inr (0, None) else Inl (UB ''unlock of a mutex not held''))"

text \<open>A read-write lock: one writer, or any number of readers (a thread may read twice).\<close>

record rwlock =
  writer :: "tid option"
  readers :: "tid list"

definition rw_free :: rwlock where
  "rw_free = \<lparr>writer = None, readers = []\<rparr>"

definition pthread_rwlock_rdlock :: "tid \<Rightarrow> rwlock \<Rightarrow> (int \<times> rwlock) result" where
  "pthread_rwlock_rdlock t l =
     (case writer l of
        None \<Rightarrow> Inr (0, l\<lparr>readers := t # readers l\<rparr>)
      | Some w \<Rightarrow> if w = t then Inr (EDEADLK, l) else Inl Blocked)"

definition pthread_rwlock_wrlock :: "tid \<Rightarrow> rwlock \<Rightarrow> (int \<times> rwlock) result" where
  "pthread_rwlock_wrlock t l =
     (case writer l of
        None \<Rightarrow> if readers l = [] then Inr (0, l\<lparr>writer := Some t\<rparr>) else Inl Blocked
      | Some w \<Rightarrow> if w = t then Inr (EDEADLK, l) else Inl Blocked)"

definition pthread_rwlock_unlock :: "tid \<Rightarrow> rwlock \<Rightarrow> (int \<times> rwlock) result" where
  "pthread_rwlock_unlock t l =
     (if writer l = Some t then Inr (0, l\<lparr>writer := None\<rparr>)
      else if t \<in> set (readers l) then Inr (0, l\<lparr>readers := remove1 t (readers l)\<rparr>)
      else Inl (UB ''unlock of a read-write lock not held''))"

text \<open>
  A semaphore's value. \<open>sem_wait\<close> may be interrupted by a signal handler (\<open>intr\<close>), which
  is an error return; \<open>sem_post\<close> fails at the maximal value.
\<close>

definition sem_init :: "u32 \<Rightarrow> int \<times> nat" where
  "sem_init count = (if unat count > SEM_VALUE_MAX then (-1, 0) else (0, unat count))"

definition sem_wait :: "bool \<Rightarrow> nat \<Rightarrow> (int \<times> nat) result" where
  "sem_wait intr v = (if v > 0 then Inr (0, v - 1) else if intr then Inr (-1, v) else Inl Blocked)"

definition sem_post :: "nat \<Rightarrow> int \<times> nat" where
  "sem_post v = (if v = SEM_VALUE_MAX then (-1, v) else (0, v + 1))"

section \<open>The wrappers\<close>

text \<open>
  \<open>if (call) { std::logic_error(msg); }\<close>: the temporary is destroyed, the error number
  is lost and control goes on with whatever the call left.
\<close>

definition discard_error :: "string \<Rightarrow> int \<times> 's \<Rightarrow> 's" where
  "discard_error msg r = (if fst r \<noteq> 0 then snd r else snd r)"

definition Semphore :: "u32 \<Rightarrow> nat result" where
  "Semphore count =
     (if fst (sem_init count) \<noteq> 0 then Inl (Exn ''sem_init error'')
      else Inr (snd (sem_init count)))"

definition Semphore_wait :: "bool \<Rightarrow> nat \<Rightarrow> nat result" where
  "Semphore_wait intr v =
     and_then (sem_wait intr v) (\<lambda>r. Inr (discard_error ''sem_wait error'' r))"

definition Semphore_post :: "nat \<Rightarrow> nat" where
  "Semphore_post v = discard_error ''sem_post error'' (sem_post v)"

definition Mutex_lock :: "tid \<Rightarrow> pmutex \<Rightarrow> pmutex result" where
  "Mutex_lock t m =
     and_then (pthread_mutex_lock t m) (\<lambda>r. Inr (discard_error ''pthread_mutex_lock error'' r))"

definition Mutex_unlock :: "tid \<Rightarrow> pmutex \<Rightarrow> pmutex result" where
  "Mutex_unlock t m =
     and_then (pthread_mutex_unlock t m)
       (\<lambda>r. Inr (discard_error ''pthread_mutex_unlock error'' r))"

text \<open>The spin lock: the same discipline, waiting by spinning.\<close>

definition SpinLock_lock :: "tid \<Rightarrow> pmutex \<Rightarrow> pmutex result" where
  "SpinLock_lock t m =
     and_then (pthread_mutex_lock t m) (\<lambda>r. Inr (discard_error ''pthread_spin_lock error'' r))"

definition SpinLock_unlock :: "tid \<Rightarrow> pmutex \<Rightarrow> pmutex result" where
  "SpinLock_unlock t m =
     and_then (pthread_mutex_unlock t m)
       (\<lambda>r. Inr (discard_error ''pthread_spin_unlock error'' r))"

text \<open>
  The constructors of the other locks get the result of \<open>pthread_mutex_init\<close> and its relatives, which they
  discard as well: \<open>None\<close> is an object that was never initialised. Destroying a lock that is held is
  undefined; \<open>SpinLock\<close> and \<open>CASLock\<close> destroy nothing.
\<close>

definition Mutex_new :: "int \<Rightarrow> pmutex option" where
  "Mutex_new init = discard_error ''pthread_mutex_init error'' (init, if init = 0 then Some None else None)"

definition SpinLock_new :: "int \<Rightarrow> pmutex option" where
  "SpinLock_new init = discard_error ''pthread_spin_init error'' (init, if init = 0 then Some None else None)"

definition RWMutex_new :: "int \<Rightarrow> rwlock option" where
  "RWMutex_new init = discard_error ''pthread_rwlock_init error'' (init, if init = 0 then Some rw_free else None)"

definition Mutex_dtor :: "pmutex option \<Rightarrow> unit result" where
  "Mutex_dtor m = (if m = Some None then Inr () else Inl (UB ''pthread_mutex_destroy''))"

definition SpinLock_dtor :: "pmutex option \<Rightarrow> unit result" where
  "SpinLock_dtor m = Inr ()"

definition RWMutex_dtor :: "rwlock option \<Rightarrow> unit result" where
  "RWMutex_dtor l = (if l = Some rw_free then Inr () else Inl (UB ''pthread_rwlock_destroy''))"

text \<open>A semaphore may not be destroyed while threads are blocked on it.\<close>

definition Semphore_dtor :: "tid set \<Rightarrow> nat \<Rightarrow> unit result" where
  "Semphore_dtor blocked v = (if blocked = {} then Inr () else Inl (UB ''sem_destroy''))"

definition NullLock_lock :: "unit \<Rightarrow> unit result" where
  "NullLock_lock m = Inr m"

definition NullLock_unlock :: "unit \<Rightarrow> unit result" where
  "NullLock_unlock m = Inr m"

definition RWMutex_rdlock :: "tid \<Rightarrow> rwlock \<Rightarrow> rwlock result" where
  "RWMutex_rdlock t l =
     and_then (pthread_rwlock_rdlock t l)
       (\<lambda>r. Inr (discard_error ''pthread_rwlock_rdlock error'' r))"

definition RWMutex_wrlock :: "tid \<Rightarrow> rwlock \<Rightarrow> rwlock result" where
  "RWMutex_wrlock t l =
     and_then (pthread_rwlock_wrlock t l)
       (\<lambda>r. Inr (discard_error ''pthread_rwlock_wrlock error'' r))"

definition RWMutex_unlock :: "tid \<Rightarrow> rwlock \<Rightarrow> rwlock result" where
  "RWMutex_unlock t l =
     and_then (pthread_rwlock_unlock t l)
       (\<lambda>r. Inr (discard_error ''pthread_rwlock_unlock error'' r))"

section \<open>The scoped guards\<close>

text \<open>
  A guard holds a reference to its lock and the flag \<open>m_islocked\<close>: its state is the pair
  of the flag and the referenced lock. \<open>lk\<close> and \<open>ul\<close> are the operations of the template
  argument \<open>T\<close> (\<open>lock\<close>, \<open>rdlock\<close> or \<open>wrlock\<close>, and \<open>unlock\<close>).
\<close>

type_synonym 'm guard = "bool \<times> 'm"

definition ScopedLockImpl :: "('m \<Rightarrow> 'm result) \<Rightarrow> 'm \<Rightarrow> 'm guard result" where
  "ScopedLockImpl lk m = and_then (lk m) (\<lambda>m'. Inr (True, m'))"

definition ScopedLockImpl_lock :: "('m \<Rightarrow> 'm result) \<Rightarrow> 'm guard \<Rightarrow> 'm guard result" where
  "ScopedLockImpl_lock lk g =
     (if \<not> fst g then and_then (lk (snd g)) (\<lambda>m'. Inr (True, m')) else Inr g)"

definition ScopedLockImpl_unlock :: "('m \<Rightarrow> 'm result) \<Rightarrow> 'm guard \<Rightarrow> 'm guard result" where
  "ScopedLockImpl_unlock ul g =
     (if fst g then and_then (ul (snd g)) (\<lambda>m'. Inr (False, m')) else Inr g)"

text \<open>The destructor: \<open>unlock()\<close>, after which only the lock is left.\<close>

definition ScopedLockImpl_dtor :: "('m \<Rightarrow> 'm result) \<Rightarrow> 'm guard \<Rightarrow> 'm result" where
  "ScopedLockImpl_dtor ul g = and_then (ScopedLockImpl_unlock ul g) (\<lambda>g'. Inr (snd g'))"

definition ReadScopedLockImpl :: "('m \<Rightarrow> 'm result) \<Rightarrow> 'm \<Rightarrow> 'm guard result" where
  "ReadScopedLockImpl rdlk m = and_then (rdlk m) (\<lambda>m'. Inr (True, m'))"

definition ReadScopedLockImpl_lock :: "('m \<Rightarrow> 'm result) \<Rightarrow> 'm guard \<Rightarrow> 'm guard result" where
  "ReadScopedLockImpl_lock rdlk g =
     (if \<not> fst g then and_then (rdlk (snd g)) (\<lambda>m'. Inr (True, m')) else Inr g)"

definition ReadScopedLockImpl_unlock :: "('m \<Rightarrow> 'm result) \<Rightarrow> 'm guard \<Rightarrow> 'm guard result" where
  "ReadScopedLockImpl_unlock ul g =
     (if fst g then and_then (ul (snd g)) (\<lambda>m'. Inr (False, m')) else Inr g)"

definition ReadScopedLockImpl_dtor :: "('m \<Rightarrow> 'm result) \<Rightarrow> 'm guard \<Rightarrow> 'm result" where
  "ReadScopedLockImpl_dtor ul g =
     and_then (ReadScopedLockImpl_unlock ul g) (\<lambda>g'. Inr (snd g'))"

text \<open>The write guard's constructor takes the lock and leaves \<open>m_islocked\<close> false.\<close>

definition WriteScopedLockImpl :: "('m \<Rightarrow> 'm result) \<Rightarrow> 'm \<Rightarrow> 'm guard result" where
  "WriteScopedLockImpl wrlk m = and_then (wrlk m) (\<lambda>m'. Inr (False, m'))"

definition WriteScopedLockImpl_lock :: "('m \<Rightarrow> 'm result) \<Rightarrow> 'm guard \<Rightarrow> 'm guard result" where
  "WriteScopedLockImpl_lock wrlk g =
     (if \<not> fst g then and_then (wrlk (snd g)) (\<lambda>m'. Inr (True, m')) else Inr g)"

definition WriteScopedLockImpl_unlock :: "('m \<Rightarrow> 'm result) \<Rightarrow> 'm guard \<Rightarrow> 'm guard result" where
  "WriteScopedLockImpl_unlock ul g =
     (if fst g then and_then (ul (snd g)) (\<lambda>m'. Inr (False, m')) else Inr g)"

definition WriteScopedLockImpl_dtor :: "('m \<Rightarrow> 'm result) \<Rightarrow> 'm guard \<Rightarrow> 'm result" where
  "WriteScopedLockImpl_dtor ul g =
     and_then (WriteScopedLockImpl_unlock ul g) (\<lambda>g'. Inr (snd g'))"

text \<open>
  A block that opens with a guard over an \<open>RWMutex\<close> and does not touch the lock otherwise:
  the effect of the guard's constructor and destructor on the lock.
\<close>

definition read_scope :: "tid \<Rightarrow> rwlock \<Rightarrow> rwlock result" where
  "read_scope t l =
     and_then (ReadScopedLockImpl (RWMutex_rdlock t) l)
       (ReadScopedLockImpl_dtor (RWMutex_unlock t))"

definition write_scope :: "tid \<Rightarrow> rwlock \<Rightarrow> rwlock result" where
  "write_scope t l =
     and_then (WriteScopedLockImpl (RWMutex_wrlock t) l)
       (WriteScopedLockImpl_dtor (RWMutex_unlock t))"

section \<open>What the guards do, for any lock\<close>

text \<open>
  The contract a lock gives its guard: from a state in which it is available the lock is
  taken, and unlocking gives that state back.
\<close>

locale lockable =
  fixes lk :: "'m \<Rightarrow> 'm result"
    and ul :: "'m \<Rightarrow> 'm result"
    and avail :: "'m \<Rightarrow> bool"
  assumes lk_avail: "avail m \<Longrightarrow> \<exists>m'. lk m = Inr m'"
    and ul_lk: "avail m \<Longrightarrow> lk m = Inr m' \<Longrightarrow> ul m' = Inr m"
begin

lemma scope_restores:
  "avail m \<Longrightarrow> and_then (ScopedLockImpl lk m) (ScopedLockImpl_dtor ul) = Inr m"
  using lk_avail [of m] ul_lk [of m]
  by (auto simp: ScopedLockImpl_def ScopedLockImpl_dtor_def ScopedLockImpl_unlock_def)

lemma early_unlock_restores:
  assumes "avail m"
  shows "\<exists>g. and_then (ScopedLockImpl lk m) (ScopedLockImpl_unlock ul) = Inr g \<and> snd g = m
    \<and> ScopedLockImpl_unlock ul g = Inr g \<and> ScopedLockImpl_dtor ul g = Inr m"
  using lk_avail [OF assms] ul_lk [OF assms]
  by (auto simp: ScopedLockImpl_def ScopedLockImpl_dtor_def ScopedLockImpl_unlock_def)

lemma relock_restores:
  assumes "avail m"
  shows "and_then (and_then (ScopedLockImpl lk m) (ScopedLockImpl_unlock ul))
    (\<lambda>g. and_then (ScopedLockImpl_lock lk g) (ScopedLockImpl_dtor ul)) = Inr m"
  using lk_avail [OF assms] ul_lk [OF assms]
  by (auto simp: ScopedLockImpl_def ScopedLockImpl_dtor_def ScopedLockImpl_unlock_def
    ScopedLockImpl_lock_def)

lemma lock_twice_is_once:
  "ScopedLockImpl lk m = Inr g \<Longrightarrow> ScopedLockImpl_lock lk g = Inr g"
  by (auto simp: ScopedLockImpl_def ScopedLockImpl_lock_def)

end

lemmas lock_defs [lock_simps] =
  discard_error_def Mutex_lock_def Mutex_unlock_def SpinLock_lock_def SpinLock_unlock_def
  pthread_mutex_lock_def pthread_mutex_unlock_def RWMutex_rdlock_def RWMutex_wrlock_def
  RWMutex_unlock_def pthread_rwlock_rdlock_def pthread_rwlock_wrlock_def
  pthread_rwlock_unlock_def NullLock_lock_def NullLock_unlock_def

interpretation mtx: lockable "Mutex_lock t" "Mutex_unlock t" "\<lambda>m. m = None" for t
  by unfold_locales (auto simp: lock_simps)

interpretation spin: lockable "SpinLock_lock t" "SpinLock_unlock t" "\<lambda>m. m = None" for t
  by unfold_locales (auto simp: lock_simps)

interpretation nul: lockable NullLock_lock NullLock_unlock "\<lambda>_. True"
  by unfold_locales (auto simp: lock_simps)

interpretation rd: lockable "RWMutex_rdlock t" "RWMutex_unlock t" "\<lambda>l. writer l = None" for t
  by unfold_locales (auto simp: lock_simps)

interpretation wr: lockable "RWMutex_wrlock t" "RWMutex_unlock t" "\<lambda>l. l = rw_free" for t
  by unfold_locales (auto simp: lock_simps rw_free_def)

text \<open>The read guard is the scoped guard over \<open>rdlock\<close>.\<close>

lemma ReadScopedLockImpl_eq:
  "ReadScopedLockImpl = ScopedLockImpl"
  "ReadScopedLockImpl_dtor = ScopedLockImpl_dtor"
  by (intro ext, simp add: ReadScopedLockImpl_def ScopedLockImpl_def ReadScopedLockImpl_dtor_def
    ScopedLockImpl_dtor_def ReadScopedLockImpl_unlock_def ScopedLockImpl_unlock_def)+

lemma read_scope_free [lock_simps]: "writer l = None \<Longrightarrow> read_scope t l = Inr l"
  unfolding read_scope_def ReadScopedLockImpl_eq by (rule rd.scope_restores)

lemma read_scope_own [lock_simps]:
  "writer l = Some t \<Longrightarrow> read_scope t l = Inr (l\<lparr>writer := None\<rparr>)"
  by (simp add: read_scope_def ReadScopedLockImpl_def ReadScopedLockImpl_dtor_def
    ReadScopedLockImpl_unlock_def lock_defs EDEADLK_def)

lemma read_scope_other [lock_simps]:
  "writer l = Some w \<Longrightarrow> w \<noteq> t \<Longrightarrow> read_scope t l = Inl Blocked"
  by (simp add: read_scope_def ReadScopedLockImpl_def lock_defs)

lemma write_scope_free [lock_simps]:
  "writer l = None \<Longrightarrow> readers l = [] \<Longrightarrow> write_scope t l = Inr (l\<lparr>writer := Some t\<rparr>)"
  by (simp add: write_scope_def WriteScopedLockImpl_def WriteScopedLockImpl_dtor_def
    WriteScopedLockImpl_unlock_def lock_defs)

lemma write_scope_own [lock_simps]: "writer l = Some t \<Longrightarrow> write_scope t l = Inr l"
  by (simp add: write_scope_def WriteScopedLockImpl_def WriteScopedLockImpl_dtor_def
    WriteScopedLockImpl_unlock_def lock_defs EDEADLK_def)

lemma write_scope_Inl: "write_scope t l = Inl e \<Longrightarrow> e = Blocked"
  by (cases "writer l") (auto simp: write_scope_def WriteScopedLockImpl_def WriteScopedLockImpl_dtor_def
      WriteScopedLockImpl_unlock_def lock_defs split: if_splits)

lemma write_scope_other [lock_simps]:
  "writer l = Some w \<Longrightarrow> w \<noteq> t \<Longrightarrow> write_scope t l = Inl Blocked"
  by (simp add: write_scope_def WriteScopedLockImpl_def lock_defs)

section \<open>The compare-and-swap lock, as interleaved threads\<close>

text \<open>
  A thread outside \<open>lock()\<close>, about to execute the \<open>compare_exchange_weak\<close> of the loop
  condition with its local \<open>expect\<close>, about to execute the loop body (which resets
  \<open>expect\<close>), or past \<open>lock()\<close>. The atomic flag is shared.
\<close>

datatype cas_pc = CasIdle | CasTry bool | CasRetry bool | CasHeld

record cas_sys =
  m_flag :: bool
  cas_pcs :: "tid \<Rightarrow> cas_pc"

definition CASLock :: cas_sys where
  "CASLock = \<lparr>m_flag = False, cas_pcs = (\<lambda>_. CasIdle)\<rparr>"

definition cas_goto :: "tid \<Rightarrow> cas_pc \<Rightarrow> cas_sys \<Rightarrow> cas_sys" where
  "cas_goto t p s = s\<lparr>cas_pcs := (cas_pcs s)(t := p)\<rparr>"

text \<open>
  \<open>compare_exchange_weak(expect, true)\<close>: equal and not a spurious failure, the flag becomes
  true and the call succeeds; otherwise \<open>expect\<close> receives the flag's value.
\<close>

definition CASLock_try :: "bool \<Rightarrow> bool \<Rightarrow> tid \<Rightarrow> cas_sys \<Rightarrow> cas_sys" where
  "CASLock_try spurious expect t s =
     (if m_flag s = expect \<and> \<not> spurious then cas_goto t CasHeld (s\<lparr>m_flag := True\<rparr>)
      else cas_goto t (CasRetry (m_flag s)) s)"

definition CASLock_retry :: "bool \<Rightarrow> tid \<Rightarrow> cas_sys \<Rightarrow> cas_sys" where
  "CASLock_retry expect t s = cas_goto t (CasTry False) s"

definition CASLock_unlock :: "tid \<Rightarrow> cas_sys \<Rightarrow> cas_sys" where
  "CASLock_unlock t s = cas_goto t CasIdle (s\<lparr>m_flag := False\<rparr>)"

inductive cas_step :: "cas_sys \<Rightarrow> cas_sys \<Rightarrow> bool" where
  enter: "cas_pcs s t = CasIdle \<Longrightarrow> cas_step s (cas_goto t (CasTry False) s)"
| attempt: "cas_pcs s t = CasTry e \<Longrightarrow> cas_step s (CASLock_try sp e t s)"
| retry: "cas_pcs s t = CasRetry e \<Longrightarrow> cas_step s (CASLock_retry e t s)"
| unlock: "cas_pcs s t = CasHeld \<Longrightarrow> cas_step s (CASLock_unlock t s)"

inductive cas_reachable :: "cas_sys \<Rightarrow> bool" where
  start: "cas_reachable CASLock"
| step: "cas_reachable s \<Longrightarrow> cas_step s s' \<Longrightarrow> cas_reachable s'"

declare cas_step.intros [step_intros] cas_reachable.intros [step_intros]

definition cas_inv :: "cas_sys \<Rightarrow> bool" where
  "cas_inv s \<longleftrightarrow>
     (\<forall>t. cas_pcs s t \<noteq> CasTry True) \<and>
     (\<forall>t. cas_pcs s t = CasHeld \<longrightarrow> m_flag s) \<and>
     (\<forall>t u. cas_pcs s t = CasHeld \<longrightarrow> cas_pcs s u = CasHeld \<longrightarrow> t = u) \<and>
     (m_flag s \<longrightarrow> (\<exists>t. cas_pcs s t = CasHeld))"

lemma cas_inv_start: "cas_inv CASLock"
  by (simp add: cas_inv_def CASLock_def)

lemma cas_inv_goto:
  "cas_inv s \<Longrightarrow> cas_pcs s t \<noteq> CasHeld \<Longrightarrow> p \<noteq> CasHeld \<Longrightarrow> p \<noteq> CasTry True \<Longrightarrow>
    cas_inv (cas_goto t p s)"
  unfolding cas_inv_def cas_goto_def by (auto split: if_splits)

lemma cas_inv_enter: "cas_inv s \<Longrightarrow> cas_pcs s t = CasIdle \<Longrightarrow> cas_inv (cas_goto t (CasTry False) s)"
  by (rule cas_inv_goto) auto

lemma cas_inv_win:
  "cas_inv s \<Longrightarrow> \<not> m_flag s \<Longrightarrow> cas_inv (cas_goto t CasHeld (s\<lparr>m_flag := True\<rparr>))"
  unfolding cas_inv_def cas_goto_def by auto

lemma cas_inv_try:
  assumes inv: "cas_inv s" and pc: "cas_pcs s t = CasTry e"
  shows "cas_inv (CASLock_try sp e t s)"
proof (cases "m_flag s = e \<and> \<not> sp")
  case True
  moreover have "e = False" using inv pc by (cases e) (auto simp: cas_inv_def)
  ultimately show ?thesis using inv by (simp add: CASLock_try_def cas_inv_win)
next
  case False
  with inv pc show ?thesis by (auto simp: CASLock_try_def intro!: cas_inv_goto)
qed

lemma cas_inv_retry: "cas_inv s \<Longrightarrow> cas_pcs s t = CasRetry e \<Longrightarrow> cas_inv (CASLock_retry e t s)"
  unfolding CASLock_retry_def by (rule cas_inv_goto) auto

lemma cas_inv_unlock: "cas_inv s \<Longrightarrow> cas_pcs s t = CasHeld \<Longrightarrow> cas_inv (CASLock_unlock t s)"
  unfolding cas_inv_def cas_goto_def CASLock_unlock_def by (auto split: if_splits)

lemma cas_step_inv: "cas_step s s' \<Longrightarrow> cas_inv s \<Longrightarrow> cas_inv s'"
  by (induction rule: cas_step.induct)
    (simp_all add: cas_inv_enter cas_inv_try cas_inv_retry cas_inv_unlock)

lemma cas_reachable_inv: "cas_reachable s \<Longrightarrow> cas_inv s"
  by (induction rule: cas_reachable.induct) (auto intro: cas_inv_start cas_step_inv)

section \<open>Properties\<close>

text \<open>
  C32: mutual exclusion of the compare-and-swap lock. In every state that any number of
  threads can reach by any interleaving of \<open>lock\<close> and \<open>unlock\<close>, spurious failures of
  the weak exchange included, at most one thread is past \<open>lock\<close>, and the flag is set
  exactly while one is.
\<close>

theorem CASLock_mutual_exclusion:
  assumes "cas_reachable s"
  shows "(cas_pcs s t = CasHeld \<and> cas_pcs s u = CasHeld \<longrightarrow> t = u) \<and>
    (m_flag s \<longleftrightarrow> (\<exists>t. cas_pcs s t = CasHeld))"
  using cas_reachable_inv [OF assms] unfolding cas_inv_def by blast

theorem CASLock_mutual_exclusion_witness:
  "\<exists>s. cas_pcs s 7 = CasHeld \<and> m_flag s \<and> cas_reachable s \<and> \<not> cas_pcs s 8 = CasHeld"
proof -
  let ?s1 = "cas_goto 7 (CasTry False) CASLock"
  let ?s2 = "CASLock_try False False 7 ?s1"
  have "cas_step CASLock ?s1"
    by (rule cas_step.enter) (simp add: CASLock_def)
  moreover have "cas_step ?s1 ?s2"
    by (rule cas_step.attempt) (simp add: cas_goto_def)
  ultimately have "cas_reachable ?s2"
    by (blast intro: cas_reachable.intros)
  moreover have "cas_pcs ?s2 7 = CasHeld"
    by (simp add: CASLock_try_def CASLock_def cas_goto_def)
  ultimately show ?thesis
    using CASLock_mutual_exclusion [of ?s2 7 8] by auto
qed

text \<open>
  The scoped guard over a mutex or a spin lock. From a free lock the constructor takes it
  for the calling thread and the destructor gives the free lock back; an \<open>unlock()\<close> in
  between, and a further one, change nothing about that.
\<close>

theorem ScopedLockImpl_balanced:
  "ScopedLockImpl (Mutex_lock t) None = Inr (True, Some t)
   \<and> ScopedLockImpl_dtor (Mutex_unlock t) (True, Some t) = Inr None
   \<and> ScopedLockImpl_unlock (Mutex_unlock t) (True, Some t) = Inr (False, None)
   \<and> ScopedLockImpl_unlock (Mutex_unlock t) (False, None) = Inr (False, None)
   \<and> ScopedLockImpl_dtor (Mutex_unlock t) (False, None) = Inr None
   \<and> and_then (ScopedLockImpl (SpinLock_lock t) None) (ScopedLockImpl_dtor (SpinLock_unlock t))
     = Inr None"
  using mtx.scope_restores [of None t] spin.scope_restores [of None t]
  by (auto simp: ScopedLockImpl_def ScopedLockImpl_unlock_def ScopedLockImpl_dtor_def lock_simps)

text \<open>
  The life of a lock: made, used by one read block and destroyed. Once a write block has run, the
  destructor is undefined, because the lock is still held; and so is that of a lock whose
  initialisation failed, which the constructor does not report.
\<close>

theorem RWMutex_lifetime:
  "RWMutex_new 0 = Some l \<Longrightarrow> RWMutex_dtor (Some l) = Inr ()
    \<and> and_then (read_scope t l) (\<lambda>l'. RWMutex_dtor (Some l')) = Inr ()
    \<and> and_then (write_scope t l) (\<lambda>l'. RWMutex_dtor (Some l')) = Inl (UB ''pthread_rwlock_destroy'')
    \<and> (init \<noteq> 0 \<longrightarrow> RWMutex_dtor (RWMutex_new init) = Inl (UB ''pthread_rwlock_destroy''))"
  by (auto simp: RWMutex_new_def RWMutex_dtor_def discard_error_def rw_free_def lock_simps)

theorem RWMutex_lifetime_witness:
  "and_then (write_scope 1 rw_free) (\<lambda>l'. RWMutex_dtor (Some l')) = Inl (UB ''pthread_rwlock_destroy'')"
  using RWMutex_lifetime [of rw_free 1 1] by (simp add: RWMutex_new_def discard_error_def)

text \<open>
  C40: the write guard never releases its lock. A block guarded by \<open>WriteScopedLockImpl\<close> leaves
  the lock owned by its thread; from then on every read or write block of any other thread
  blocks, while a read block of the same thread fails to lock (the error is discarded) and
  its guard's destructor releases the write lock.
\<close>

theorem WriteScopedLockImpl_leaks:
  assumes "writer l = None" and "readers l = []"
  shows "\<exists>l'. write_scope t l = Inr l' \<and> writer l' = Some t
    \<and> (\<forall>u. u \<noteq> t \<longrightarrow> read_scope u l' = Inl Blocked \<and> write_scope u l' = Inl Blocked)
    \<and> write_scope t l' = Inr l' \<and> read_scope t l' = Inr l"
  using assms by (cases l) (auto simp: lock_simps)

theorem WriteScopedLockImpl_leaks_witness:
  "\<exists>l'. write_scope 1 rw_free = Inr l' \<and> read_scope 2 l' = Inl Blocked"
  using WriteScopedLockImpl_leaks [of rw_free 1] by (auto simp: rw_free_def)

end
