(* ===== verification/IOManager.thy ===== *)
theory IOManager
  imports SchedulerRun Mutex
begin

unbundle bit_operations_syntax

text \<open>
  \<open>ddg/iomanager.h\<close> and \<open>ddg/iomanager.cc\<close>: the table of file-descriptor contexts, the
  operations that register and cancel events, and one round of the idle loop that turns
  delivered events and expired timers into tasks. The kernel is a parameter: \<open>ctl\<close> is
  \<open>epoll_ctl\<close> on the manager's epoll instance, over an opaque kernel state. The timers of the
  base class \<open>TimerManager\<close>, whose header is not in the repository, are parameters too.
\<close>

section \<open>Events and contexts\<close>

definition EPOLLIN :: u32 where "EPOLLIN = 0x1"
definition EPOLLOUT :: u32 where "EPOLLOUT = 0x4"
definition EPOLLHUP :: u32 where "EPOLLHUP = 0x10"
definition EPOLLET :: u32 where "EPOLLET = 0x80000000"
definition EPOLL_CTL_ADD :: u32 where "EPOLL_CTL_ADD = 1"
definition EPOLL_CTL_DEL :: u32 where "EPOLL_CTL_DEL = 2"
definition EPOLL_CTL_MOD :: u32 where "EPOLL_CTL_MOD = 3"

definition NONE :: u32 where "NONE = 0"
definition READ :: u32 where "READ = EPOLLIN"
definition WRITE :: u32 where "WRITE = EPOLLOUT"

record event_context =
  ec_scheduler :: "sid option"
  ec_fiber :: "fid option"
  ec_cb :: "action body option"

record fd_context =
  ctx_read :: event_context
  ctx_write :: event_context
  ctx_fd :: u32
  ctx_events :: u32

text \<open>The manager's own members; a context pointer of the vector may be null.\<close>

record iomanager =
  m_mutex :: rwlock
  m_fdContext :: "fd_context option list"

record 'k ioworld = sworld +
  ioms :: "sid \<Rightarrow> iomanager option"
  kernel :: 'k

text \<open>\<open>epoll_ctl(m_epfd, op, fd, &ev)\<close>: the manager stands for its \<open>m_epfd\<close>.\<close>

type_synonym 'k epoll_ctl = "sid \<Rightarrow> u32 \<Rightarrow> u32 \<Rightarrow> u32 \<Rightarrow> 'k \<Rightarrow> int \<times> 'k"

definition no_event :: event_context where
  "no_event = \<lparr>ec_scheduler = None, ec_fiber = None, ec_cb = None\<rparr>"

definition FdContext :: "nat \<Rightarrow> fd_context" where
  "FdContext i = \<lparr>ctx_read = no_event, ctx_write = no_event, ctx_fd = of_nat i, ctx_events = NONE\<rparr>"

definition io_at :: "sid \<Rightarrow> ('k, 'z) ioworld_scheme \<Rightarrow> iomanager result" where
  "io_at s w = (case ioms w s of None \<Rightarrow> Inl (UB ''no such IOManager'') | Some io \<Rightarrow> Inr io)"

definition upd_io :: "sid \<Rightarrow> (iomanager \<Rightarrow> iomanager) \<Rightarrow> ('k, 'z) ioworld_scheme \<Rightarrow> ('k, 'z) ioworld_scheme" where
  "upd_io s g w = w\<lparr>ioms := (ioms w)(s := map_option g (ioms w s))\<rparr>"

text \<open>\<open>m_fdContext[i]\<close>, dereferenced.\<close>

definition fd_ctx_at :: "sid \<Rightarrow> nat \<Rightarrow> ('k, 'z) ioworld_scheme \<Rightarrow> fd_context result" where
  "fd_ctx_at s i w =
     and_then (io_at s w) (\<lambda>io.
       if i < length (m_fdContext io)
       then (case m_fdContext io ! i of
               None \<Rightarrow> Inl (UB ''null FdContext'') | Some c \<Rightarrow> Inr c)
       else Inl (UB ''m_fdContext: index out of range''))"

definition set_fd_ctx :: "sid \<Rightarrow> nat \<Rightarrow> fd_context \<Rightarrow> ('k, 'z) ioworld_scheme \<Rightarrow> ('k, 'z) ioworld_scheme" where
  "set_fd_ctx s i c w = upd_io s (\<lambda>io. io\<lparr>m_fdContext := (m_fdContext io)[i := Some c]\<rparr>) w"

text \<open>\<open>m_pendingEventCount++\<close> and \<open>--\<close>.\<close>

definition upd_pending :: "(u64 \<Rightarrow> u64) \<Rightarrow> sid \<Rightarrow> 'z sworld_scheme \<Rightarrow> 'z sworld_scheme" where
  "upd_pending g s w =
     upd_sched s (\<lambda>sc. sc\<lparr>iom := map_option
       (\<lambda>io. io\<lparr>m_pendingEventCount := g (m_pendingEventCount io)\<rparr>) (iom sc)\<rparr>) w"

text \<open>The index \<open>static_cast<size_t>(fd)\<close>; the \<open>int\<close> is kept as its 32 bits.\<close>

definition fd_index :: "u32 \<Rightarrow> nat" where
  "fd_index fd = unat (scast fd :: u64)"

section \<open>Operations on one context\<close>

definition getContext :: "u32 \<Rightarrow> fd_context \<Rightarrow> event_context result" where
  "getContext event c =
     (if event = READ then Inr (ctx_read c)
      else if event = WRITE then Inr (ctx_write c)
      else Inl (AssertFail ''getContext''))"

text \<open>Writing through the reference that \<open>getContext\<close> returned.\<close>

definition putContext :: "u32 \<Rightarrow> event_context \<Rightarrow> fd_context \<Rightarrow> fd_context" where
  "putContext event ec c = (if event = READ then c\<lparr>ctx_read := ec\<rparr> else c\<lparr>ctx_write := ec\<rparr>)"

definition resetContext :: "event_context \<Rightarrow> event_context" where
  "resetContext ec = ec\<lparr>ec_cb := None, ec_fiber := None, ec_scheduler := None\<rparr>"

text \<open>
  \<open>schedule(&ctx.cb)\<close> or \<open>schedule(&ctx.fiber)\<close>: the callback or fiber is swapped out of the
  context into a task for any thread.
\<close>

definition schedule_context :: "event_context \<Rightarrow> sid \<Rightarrow> 'z sworld_scheme \<Rightarrow> event_context \<times> 'z sworld_scheme" where
  "schedule_context ec s w =
     (if ec_cb ec \<noteq> None
      then (ec\<lparr>ec_cb := None\<rparr>, upd_sched s (schedule_cb (ec_cb ec) 0) w)
      else (ec\<lparr>ec_fiber := None\<rparr>, upd_sched s (schedule_fiber (ec_fiber ec) 0) w))"

text \<open>
  The event is taken out of the mask and handed to the scheduler that was current when it
  was added.
\<close>

definition triggerEvent ::
  "u32 \<Rightarrow> fd_context \<Rightarrow> 'z sworld_scheme \<Rightarrow> (fd_context \<times> 'z sworld_scheme) result" where
  "triggerEvent event c w =
     and_then (ddg_assert ''events & event'' (ctx_events c AND event \<noteq> 0)) (\<lambda>_.
     let c1 = c\<lparr>ctx_events := ctx_events c AND NOT event\<rparr>
     in and_then (getContext event c1) (\<lambda>ec.
        case ec_scheduler ec of
          None \<Rightarrow> Inl (UB ''null scheduler'')
        | Some s \<Rightarrow> and_then (sched_at s w) (\<lambda>_.
            let (ec1, w1) = schedule_context ec s w
            in Inr (putContext event (ec1\<lparr>ec_scheduler := None\<rparr>) c1, w1))))"

section \<open>The table\<close>

text \<open>\<open>m_fdContext.resize(size)\<close>, then a new context for every null pointer.\<close>

definition contextResize :: "nat \<Rightarrow> fd_context option list \<Rightarrow> fd_context option list" where
  "contextResize sz ctxs =
     (let xs = take sz ctxs @ replicate (sz - length ctxs) None
      in map (\<lambda>i. case xs ! i of None \<Rightarrow> Some (FdContext i) | Some c \<Rightarrow> Some c) [0..<length xs])"

text \<open>
  The constructor: the results of \<open>epoll_create\<close>, \<open>pipe\<close> and \<open>fcntl\<close> are given, and \<open>tfd\<close> is the
  read end of the pipe.
\<close>

definition IOManager_new ::
  "'k epoll_ctl \<Rightarrow> int \<Rightarrow> int \<Rightarrow> int \<Rightarrow> u32 \<Rightarrow> tid \<Rightarrow> sid \<Rightarrow> u64 \<Rightarrow> bool \<Rightarrow> string \<Rightarrow>
   ('k, 'z) ioworld_scheme \<Rightarrow> ('k, 'z) ioworld_scheme result" where
  "IOManager_new ctl epfd pipe_ret fcntl_ret tfd t s threads use_caller name w =
     and_then (Scheduler_new (Some \<lparr>pipe_bytes = 0, m_pendingEventCount = 0\<rparr>) t s threads use_caller name w) (\<lambda>w1.
     and_then (ddg_assert ''m_epfd > 0'' (epfd > 0)) (\<lambda>_.
     and_then (ddg_assert ''ret == 0'' (pipe_ret = 0)) (\<lambda>_.
     and_then (ddg_assert ''ret == 0'' (fcntl_ret = 0)) (\<lambda>_.
     let (ret, k) = ctl s EPOLL_CTL_ADD tfd (EPOLLIN OR EPOLLET) (kernel w1)
     in and_then (ddg_assert ''ret == 0'' (ret = 0)) (\<lambda>_.
        Inr (w1\<lparr>kernel := k,
          ioms := (ioms w1)(s := Some \<lparr>m_mutex = rw_free, m_fdContext = contextResize 32 []\<rparr>)\<rparr>))))))"

section \<open>Registering and cancelling\<close>

text \<open>
  The part of \<open>addEvent\<close> that finds the context: under the read guard when the table is large
  enough, otherwise after growing it under the write guard. \<open>1.5 * fd\<close> is exact in a double
  and is truncated; a negative one does not convert to \<open>size_t\<close>.
\<close>

definition addEvent_find :: "tid \<Rightarrow> sid \<Rightarrow> u32 \<Rightarrow> ('k, 'z) ioworld_scheme \<Rightarrow> ('k, 'z) ioworld_scheme result" where
  "addEvent_find t s fd w =
     and_then (io_at s w) (\<lambda>io.
     and_then (read_scope t (m_mutex io)) (\<lambda>l1.
       if length (m_fdContext io) > fd_index fd
       then Inr (upd_io s (\<lambda>io. io\<lparr>m_mutex := l1\<rparr>) w)
       else and_then (write_scope t l1) (\<lambda>l2.
         if sint fd < 0 then Inl (UB ''negative double to size_t'')
         else Inr (upd_io s (\<lambda>io. io\<lparr>m_mutex := l2,
                m_fdContext := contextResize (nat (3 * sint fd div 2)) (m_fdContext io)\<rparr>) w))))"

text \<open>
  The part after a successful \<open>epoll_ctl\<close>: the count, the mask, and the callback or the
  running fiber stored in the event's context, which has to be empty.
\<close>

definition addEvent_arm ::
  "tid \<Rightarrow> sid \<Rightarrow> nat \<Rightarrow> u32 \<Rightarrow> action body option \<Rightarrow> fd_context \<Rightarrow> ('k, 'z) ioworld_scheme \<Rightarrow>
   ('k, 'z) ioworld_scheme result" where
  "addEvent_arm t s i event cb c w =
     (let w1 = upd_pending (\<lambda>n. n + 1) s w;
          c1 = c\<lparr>ctx_events := ctx_events c OR event\<rparr>
      in and_then (getContext event c1) (\<lambda>ec.
         and_then (ddg_assert ''!scheduler && !fiber && !cb''
            (ec_scheduler ec = None \<and> ec_fiber ec = None \<and> ec_cb ec = None)) (\<lambda>_.
         let ec1 = ec\<lparr>ec_scheduler := t_scheduler w1 t\<rparr>
         in case cb of
              Some b \<Rightarrow> Inr (set_fd_ctx s i (putContext event (ec1\<lparr>ec_cb := Some b\<rparr>) c1) w1)
            | None \<Rightarrow>
                and_then (GetThis t w1) (\<lambda>(f, w2).
                and_then (getState f w2) (\<lambda>st.
                and_then (ddg_assert ''state'' (st = S_EXEC)) (\<lambda>_.
                Inr (set_fd_ctx s i (putContext event (ec1\<lparr>ec_fiber := Some f\<rparr>) c1) w2)))))))"

definition addEvent ::
  "'k epoll_ctl \<Rightarrow> tid \<Rightarrow> sid \<Rightarrow> u32 \<Rightarrow> u32 \<Rightarrow> action body option \<Rightarrow> ('k, 'z) ioworld_scheme \<Rightarrow>
   (int \<times> ('k, 'z) ioworld_scheme) result" where
  "addEvent ctl t s fd event cb w =
     and_then (addEvent_find t s fd w) (\<lambda>w1.
     and_then (fd_ctx_at s (fd_index fd) w1) (\<lambda>c.
     let op = (if ctx_events c \<noteq> 0 then EPOLL_CTL_MOD else EPOLL_CTL_ADD);
         (ret, k) = ctl s op fd (EPOLLET OR ctx_events c OR event) (kernel w1);
         w2 = w1\<lparr>kernel := k\<rparr>
     in if ret \<noteq> 0 then Inr (-1, w2)
        else and_then (addEvent_arm t s (fd_index fd) event cb c w2) (\<lambda>w3. Inr (0, w3))))"

text \<open>The read guard around the lookup of the other operations, and the early returns.\<close>

definition find_ctx ::
  "tid \<Rightarrow> sid \<Rightarrow> u32 \<Rightarrow> ('k, 'z) ioworld_scheme \<Rightarrow> (fd_context option \<times> ('k, 'z) ioworld_scheme) result" where
  "find_ctx t s fd w =
     and_then (io_at s w) (\<lambda>io.
     and_then (read_scope t (m_mutex io)) (\<lambda>l.
     let w1 = upd_io s (\<lambda>io. io\<lparr>m_mutex := l\<rparr>) w
     in if fd_index fd \<ge> length (m_fdContext io) then Inr (None, w1)
        else and_then (fd_ctx_at s (fd_index fd) w1) (\<lambda>c. Inr (Some c, w1))))"

definition delEvent ::
  "'k epoll_ctl \<Rightarrow> tid \<Rightarrow> sid \<Rightarrow> u32 \<Rightarrow> u32 \<Rightarrow> ('k, 'z) ioworld_scheme \<Rightarrow> (bool \<times> ('k, 'z) ioworld_scheme) result" where
  "delEvent ctl t s fd event w =
     and_then (find_ctx t s fd w) (\<lambda>(found, w1).
     case found of None \<Rightarrow> Inr (False, w1)
     | Some c \<Rightarrow>
         if ctx_events c AND event = 0 then Inr (False, w1)
         else
           let new_events = ctx_events c AND NOT event;
               op = (if new_events \<noteq> 0 then EPOLL_CTL_MOD else EPOLL_CTL_DEL);
               (ret, k) = ctl s op fd (EPOLLET OR new_events) (kernel w1);
               w2 = w1\<lparr>kernel := k\<rparr>
           in if ret \<noteq> 0 then Inr (False, w2)
              else let w3 = upd_pending (\<lambda>n. n - 1) s w2; c1 = c\<lparr>ctx_events := new_events\<rparr>
                in and_then (getContext event c1) (\<lambda>ec.
                   Inr (True, set_fd_ctx s (fd_index fd) (putContext event (resetContext ec) c1) w3)))"

text \<open>\<open>fd_ctx->triggerEvent(event); m_pendingEventCount--;\<close>\<close>

definition fire :: "sid \<Rightarrow> nat \<Rightarrow> u32 \<Rightarrow> ('k, 'z) ioworld_scheme \<Rightarrow> ('k, 'z) ioworld_scheme result" where
  "fire s i event w =
     and_then (fd_ctx_at s i w) (\<lambda>c.
     and_then (triggerEvent event c w) (\<lambda>(c1, w1).
     Inr (upd_pending (\<lambda>n. n - 1) s (set_fd_ctx s i c1 w1))))"

text \<open>\<open>cancelEvent\<close> and \<open>cancelAll\<close> put the operation code into the mask.\<close>

definition cancelEvent ::
  "'k epoll_ctl \<Rightarrow> tid \<Rightarrow> sid \<Rightarrow> u32 \<Rightarrow> u32 \<Rightarrow> ('k, 'z) ioworld_scheme \<Rightarrow> (bool \<times> ('k, 'z) ioworld_scheme) result" where
  "cancelEvent ctl t s fd event w =
     and_then (find_ctx t s fd w) (\<lambda>(found, w1).
     case found of None \<Rightarrow> Inr (False, w1)
     | Some c \<Rightarrow>
         if ctx_events c AND event = 0 then Inr (False, w1)
         else
           let new_events = ctx_events c AND NOT event;
               op = (if new_events \<noteq> 0 then EPOLL_CTL_MOD else EPOLL_CTL_DEL);
               (ret, k) = ctl s op fd op (kernel w1);
               w2 = w1\<lparr>kernel := k\<rparr>
           in if ret \<noteq> 0 then Inr (False, w2)
              else and_then (fire s (fd_index fd) event w2) (\<lambda>w3. Inr (True, w3)))"

definition fire_if :: "sid \<Rightarrow> nat \<Rightarrow> u32 \<Rightarrow> ('k, 'z) ioworld_scheme \<Rightarrow> ('k, 'z) ioworld_scheme result" where
  "fire_if s i event w =
     and_then (fd_ctx_at s i w) (\<lambda>c. if ctx_events c AND event \<noteq> 0 then fire s i event w else Inr w)"

definition cancelAll ::
  "'k epoll_ctl \<Rightarrow> tid \<Rightarrow> sid \<Rightarrow> u32 \<Rightarrow> ('k, 'z) ioworld_scheme \<Rightarrow> (bool \<times> ('k, 'z) ioworld_scheme) result" where
  "cancelAll ctl t s fd w =
     and_then (find_ctx t s fd w) (\<lambda>(found, w1).
     case found of None \<Rightarrow> Inr (False, w1)
     | Some c \<Rightarrow>
         if ctx_events c = 0 then Inr (False, w1)
         else
           let (ret, k) = ctl s EPOLL_CTL_DEL fd EPOLL_CTL_DEL (kernel w1);
               w2 = w1\<lparr>kernel := k\<rparr>
           in if ret \<noteq> 0 then Inr (False, w2)
              else
                and_then (fire_if s (fd_index fd) READ w2) (\<lambda>w3.
                and_then (fire_if s (fd_index fd) WRITE w3) (\<lambda>w4.
                and_then (fd_ctx_at s (fd_index fd) w4) (\<lambda>c4.
                and_then (ddg_assert ''fd_ctx->events == 0'' (ctx_events c4 = 0)) (\<lambda>_.
                Inr (True, w4))))))"

section \<open>The idle loop\<close>

text \<open>
  The time \<open>epoll_wait\<close> is given, as an \<open>int\<close>: the comparison is made on the value cast to
  \<open>int\<close>, the assignment takes the 64-bit value.
\<close>

definition MAX_TIMEOUT :: u32 where "MAX_TIMEOUT = 3000"

definition cap_timeout :: "u64 \<Rightarrow> u64" where
  "cap_timeout next_timeout =
     (if next_timeout \<noteq> -1
      then (if sint (ucast next_timeout :: u32) > sint MAX_TIMEOUT then scast MAX_TIMEOUT else next_timeout)
      else scast MAX_TIMEOUT)"

definition wait_timeout :: "u64 \<Rightarrow> int" where
  "wait_timeout next_timeout = sint (ucast (cap_timeout next_timeout) :: u32)"

text \<open>
  The loop around \<open>epoll_wait\<close>: a call that a signal interrupts is made again. \<open>rets\<close> are the results
  of the calls with whether \<open>errno\<close> is \<open>EINTR\<close>; the result is the timeouts of the calls made and the last return
  value, or nothing if all calls given were interrupted.
\<close>

fun epoll_wait_loop :: "(int \<times> bool) list \<Rightarrow> u64 \<Rightarrow> int list \<times> int option" where
  "epoll_wait_loop [] next_timeout = ([], None)"
| "epoll_wait_loop ((ret, eintr) # rets) next_timeout =
     (let next' = cap_timeout next_timeout
      in if ret < 0 \<and> eintr
         then (let (ts, r) = epoll_wait_loop rets next' in (wait_timeout next_timeout # ts, r))
         else ([wait_timeout next_timeout], Some ret))"

text \<open>\<open>while (read(...) > 0)\<close> on the pipe, 256 bytes at a time, with what is left in it.\<close>

fun drain_pipe :: "nat \<Rightarrow> nat" where
  "drain_pipe n = (if n = 0 then n else drain_pipe (n - min 256 n))"

declare drain_pipe.simps [simp del]

text \<open>What \<open>epoll_wait\<close> delivers: the pipe's read end or the pointer to a context.\<close>

datatype ev_data = EvTickle | EvCtx nat

record epoll_event =
  ev_events :: u32
  ev_data :: ev_data

text \<open>The body of the loop over the delivered events, for one of them.\<close>

definition real_events :: "u32 \<Rightarrow> u32" where
  "real_events evs =
     (let r = (if evs AND (EPOLLIN OR EPOLLHUP) \<noteq> 0 then NONE OR READ else NONE)
      in if evs AND EPOLLOUT \<noteq> 0 then r OR WRITE else r)"

definition widen_events :: "u32 \<Rightarrow> u32 \<Rightarrow> u32" where
  "widen_events registered evs =
     (if evs AND (EPOLLIN OR EPOLLHUP) \<noteq> 0 then evs OR ((EPOLLIN OR EPOLLHUP) AND registered) else evs)"

definition fire_real :: "sid \<Rightarrow> nat \<Rightarrow> u32 \<Rightarrow> ('k, 'z) ioworld_scheme \<Rightarrow> ('k, 'z) ioworld_scheme result" where
  "fire_real s i real w =
     and_then (if real AND READ \<noteq> 0 then fire s i READ w else Inr w) (\<lambda>w1.
       if real AND WRITE \<noteq> 0 then fire s i WRITE w1 else Inr w1)"

definition rearm_and_fire ::
  "'k epoll_ctl \<Rightarrow> sid \<Rightarrow> nat \<Rightarrow> fd_context \<Rightarrow> u32 \<Rightarrow> u32 \<Rightarrow> ('k, 'z) ioworld_scheme \<Rightarrow>
   ('k, 'z) ioworld_scheme result" where
  "rearm_and_fire ctl s i c evs real w =
     (if ctx_events c AND real = NONE then Inr w
      else
        let left_evs = ctx_events c AND NOT real;
            op = (if left_evs \<noteq> 0 then EPOLL_CTL_MOD else EPOLL_CTL_DEL);
            (ret, k) = ctl s op (ctx_fd c) evs (kernel w);
            w1 = w\<lparr>kernel := k\<rparr>
        in if ret \<noteq> 0 then Inr w1 else fire_real s i real w1)"

definition handle_event ::
  "'k epoll_ctl \<Rightarrow> sid \<Rightarrow> epoll_event \<Rightarrow> ('k, 'z) ioworld_scheme \<Rightarrow> ('k, 'z) ioworld_scheme result" where
  "handle_event ctl s ev w =
     (case ev_data ev of
        EvTickle \<Rightarrow>
          Inr (upd_sched s (\<lambda>sc. sc\<lparr>iom := map_option (\<lambda>io. io\<lparr>pipe_bytes := drain_pipe (pipe_bytes io)\<rparr>) (iom sc)\<rparr>) w)
      | EvCtx i \<Rightarrow>
          and_then (fd_ctx_at s i w) (\<lambda>c.
          let evs = widen_events (ctx_events c) (ev_events ev)
          in rearm_and_fire ctl s i c evs (real_events evs) w))"

fun handle_events ::
  "'k epoll_ctl \<Rightarrow> sid \<Rightarrow> epoll_event list \<Rightarrow> ('k, 'z) ioworld_scheme \<Rightarrow> ('k, 'z) ioworld_scheme result" where
  "handle_events ctl s [] w = Inr w"
| "handle_events ctl s (ev # evs) w = and_then (handle_event ctl s ev w) (handle_events ctl s evs)"

text \<open>
  One round of \<open>while (true)\<close> up to the point where the idle fiber gives control back:
  \<open>next_timer\<close> is what \<open>getNextTimer\<close> returned, \<open>expired\<close> what \<open>listExpiredCallback\<close> filled in,
  \<open>evs\<close> the events of \<open>epoll_wait\<close>. The flag says that the loop is left.
\<close>

definition isStoped_timeout :: "u64 \<Rightarrow> sched \<Rightarrow> bool" where
  "isStoped_timeout next_timer sc \<longleftrightarrow> next_timer = -1 \<and> isStoped sc"

definition idle_round ::
  "'k epoll_ctl \<Rightarrow> sid \<Rightarrow> u64 \<Rightarrow> action body option list \<Rightarrow> epoll_event list \<Rightarrow> ('k, 'z) ioworld_scheme \<Rightarrow>
   (bool \<times> ('k, 'z) ioworld_scheme) result" where
  "idle_round ctl s next_timer expired evs w =
     and_then (sched_at s w) (\<lambda>sc.
       if isStoped_timeout next_timer sc then Inr (True, w)
       else let w1 = (if expired \<noteq> [] then upd_sched s (\<lambda>sc. snd (schedule_range expired sc)) w else w)
         in and_then (handle_events ctl s evs w1) (\<lambda>w2. Inr (False, w2)))"

definition onTimerInsertedAtFront :: "sid \<Rightarrow> 'z sworld_scheme \<Rightarrow> 'z sworld_scheme" where
  "onTimerInsertedAtFront s w = upd_sched s tickle w"

text \<open>\<open>IOManager::GetThis\<close>: the current scheduler, if it is an \<open>IOManager\<close>.\<close>

definition IOManager_GetThis :: "tid \<Rightarrow> 'z sworld_scheme \<Rightarrow> sid option" where
  "IOManager_GetThis t w =
     (case t_scheduler w t of
        None \<Rightarrow> None
      | Some s \<Rightarrow> (case scheds w s of
            None \<Rightarrow> None
          | Some sc \<Rightarrow> (case iom sc of None \<Rightarrow> None | Some _ \<Rightarrow> Some s)))"

section \<open>The loops of the idle fiber\<close>

lemma drain_pipe [simp]: "drain_pipe n = 0"
  by (induction n rule: drain_pipe.induct) (subst drain_pipe.simps, simp)

lemma cap_timeout_idem: "cap_timeout (cap_timeout n) = cap_timeout n"
  by (simp add: cap_timeout_def MAX_TIMEOUT_def)

text \<open>Every call waits for the same time, however long the interrupted ones have waited; the loop ends with the first call that is not interrupted.\<close>

lemma epoll_wait_loop_result:
  "epoll_wait_loop rets n =
     (replicate (min (length rets) (Suc (length (takeWhile (\<lambda>(ret, eintr). ret < 0 \<and> eintr) rets)))) (wait_timeout n),
      map_option fst (find (\<lambda>(ret, eintr). \<not> (ret < 0 \<and> eintr)) rets))"
proof (induction rets arbitrary: n)
  case (Cons r rets)
  have "wait_timeout (cap_timeout n) = wait_timeout n" by (simp add: wait_timeout_def cap_timeout_idem)
  then show ?case using Cons by (cases r) (auto simp: case_prod_beta Let_def)
qed simp

section \<open>Contexts and the table: the invariant\<close>

lemmas event_consts = EPOLLIN_def EPOLLOUT_def EPOLLHUP_def EPOLLET_def NONE_def READ_def WRITE_def
  EPOLL_CTL_ADD_def EPOLL_CTL_DEL_def EPOLL_CTL_MOD_def

definition valid_mask :: "u32 \<Rightarrow> bool" where
  "valid_mask m \<longleftrightarrow> m \<in> {NONE, READ, WRITE, READ OR WRITE}"

definition armed :: "event_context \<Rightarrow> bool" where
  "armed ec \<longleftrightarrow> (ec_cb ec \<noteq> None) \<noteq> (ec_fiber ec \<noteq> None)"

text \<open>A bit of the mask is set exactly when the context of its event holds a callback or a fiber.\<close>

definition ctx_ok :: "fd_context \<Rightarrow> bool" where
  "ctx_ok c \<longleftrightarrow> valid_mask (ctx_events c)
     \<and> (if ctx_events c AND READ \<noteq> 0 then armed (ctx_read c) else ctx_read c = no_event)
     \<and> (if ctx_events c AND WRITE \<noteq> 0 then armed (ctx_write c) else ctx_write c = no_event)"

definition armed_count :: "fd_context \<Rightarrow> nat" where
  "armed_count c = (if ctx_events c AND READ \<noteq> 0 then 1 else 0) + (if ctx_events c AND WRITE \<noteq> 0 then 1 else 0)"

definition table_ok :: "fd_context option list \<Rightarrow> bool" where
  "table_ok xs \<longleftrightarrow> 32 \<le> length xs \<and> (\<forall>i < length xs. \<exists>c. xs ! i = Some c \<and> ctx_fd c = of_nat i \<and> ctx_ok c)"

definition ctx_count :: "fd_context option \<Rightarrow> nat" where
  "ctx_count p = (case p of None \<Rightarrow> 0 | Some c \<Rightarrow> armed_count c)"

definition total :: "fd_context option list \<Rightarrow> nat" where
  "total xs = sum_list (map ctx_count xs)"

definition pending_of :: "sid \<Rightarrow> 'z sworld_scheme \<Rightarrow> u64 option" where
  "pending_of s w = (case scheds w s of None \<Rightarrow> None | Some sc \<Rightarrow> map_option m_pendingEventCount (iom sc))"

definition io_inv :: "sid \<Rightarrow> ('k, 'z) ioworld_scheme \<Rightarrow> bool" where
  "io_inv s w \<longleftrightarrow> (\<exists>io. ioms w s = Some io \<and> table_ok (m_fdContext io)
     \<and> pending_of s w = Some (of_nat (total (m_fdContext io))))"

lemma FdContext_ok [simp]: "ctx_ok (FdContext i)" "armed_count (FdContext i) = 0" "ctx_fd (FdContext i) = of_nat i"
  by (simp_all add: FdContext_def ctx_ok_def armed_count_def valid_mask_def event_consts no_event_def)

text \<open>Setting and clearing the bit of one event.\<close>

lemma mask_cases:
  "valid_mask m \<Longrightarrow> m = 0 \<or> m = 1 \<or> m = 4 \<or> m = 5"
  by (auto simp: valid_mask_def event_consts)

lemma ctx_ok_set:
  assumes "ctx_ok c" "event = READ \<or> event = WRITE" "ctx_events c AND event = 0" "armed ec"
  shows "ctx_ok (putContext event ec (c\<lparr>ctx_events := ctx_events c OR event\<rparr>))
    \<and> armed_count (putContext event ec (c\<lparr>ctx_events := ctx_events c OR event\<rparr>)) = armed_count c + 1"
proof -
  from assms(1) have "valid_mask (ctx_events c)" by (simp add: ctx_ok_def)
  from mask_cases [OF this] assms show ?thesis
    by (elim disjE) (simp_all add: ctx_ok_def putContext_def armed_count_def valid_mask_def event_consts)
qed

lemma ctx_ok_clear:
  assumes "ctx_ok c" "event = READ \<or> event = WRITE" "ctx_events c AND event \<noteq> 0"
  shows "ctx_ok (putContext event no_event (c\<lparr>ctx_events := ctx_events c AND NOT event\<rparr>))
    \<and> armed_count c = armed_count (putContext event no_event (c\<lparr>ctx_events := ctx_events c AND NOT event\<rparr>)) + 1"
proof -
  from assms(1) have "valid_mask (ctx_events c)" by (simp add: ctx_ok_def)
  from mask_cases [OF this] assms show ?thesis
    by (elim disjE) (simp_all add: ctx_ok_def putContext_def armed_count_def valid_mask_def event_consts)
qed

lemma putContext_simps [simp]:
  "ctx_fd (putContext event ec c) = ctx_fd c" "ctx_events (putContext event ec c) = ctx_events c"
  by (simp_all add: putContext_def)

lemma resetContext_eq: "resetContext ec = no_event"
  by (cases ec) (simp add: resetContext_def no_event_def)

lemma getContext_armed:
  assumes "ctx_ok c" "getContext event (c\<lparr>ctx_events := m\<rparr>) = Inr ec"
  shows "event = READ \<or> event = WRITE" and "ec = (if event = READ then ctx_read c else ctx_write c)"
    and "if ctx_events c AND event \<noteq> 0 then armed ec else ec = no_event"
  using assms by (auto simp: getContext_def ctx_ok_def split: if_splits)

text \<open>What \<open>triggerEvent\<close> does to a context that is in order: it clears the event.\<close>

definition event_task :: "event_context \<Rightarrow> task" where
  "event_task ec = (if ec_cb ec \<noteq> None then FiberAndThread_cb (ec_cb ec) 0 else FiberAndThread_fiber (ec_fiber ec) 0)"

lemma thread_arg_0 [simp]: "thread_arg 0 = 0"
  by (simp add: thread_arg_def)

lemma triggerEvent_result:
  assumes "triggerEvent event c w = Inr (c1, w1)" "ctx_ok c"
  shows "event = READ \<or> event = WRITE" and "ctx_events c AND event \<noteq> 0"
    and "c1 = putContext event no_event (c\<lparr>ctx_events := ctx_events c AND NOT event\<rparr>)"
    and "\<exists>s. ec_scheduler (if event = READ then ctx_read c else ctx_write c) = Some s \<and> scheds w s \<noteq> None
      \<and> w1 = upd_sched s (schedule_ft (event_task (if event = READ then ctx_read c else ctx_write c))) w"
proof -
  let ?c = "c\<lparr>ctx_events := ctx_events c AND NOT event\<rparr>"
  from assms(1) show on: "ctx_events c AND event \<noteq> 0"
    by (auto simp: triggerEvent_def)
  from assms(1) on obtain ec s where ec: "getContext event ?c = Inr ec" "ec_scheduler ec = Some s"
    and s: "scheds w s \<noteq> None"
    and c1: "c1 = putContext event ((fst (schedule_context ec s w))\<lparr>ec_scheduler := None\<rparr>) ?c"
    and w1: "w1 = snd (schedule_context ec s w)"
    by (auto simp: triggerEvent_def Let_def case_prod_beta split: option.splits)
  have arm: "armed ec" and ec': "ec = (if event = READ then ctx_read c else ctx_write c)"
    using getContext_armed [OF assms(2) ec(1)] on by simp_all
  show "event = READ \<or> event = WRITE" by (rule getContext_armed(1) [OF assms(2) ec(1)])
  have "(fst (schedule_context ec s w))\<lparr>ec_scheduler := None\<rparr> = no_event"
    using arm by (cases ec) (auto simp: armed_def no_event_def schedule_context_def)
  then show "c1 = putContext event no_event ?c" using c1 by simp
  show "\<exists>s. ec_scheduler (if event = READ then ctx_read c else ctx_write c) = Some s \<and> scheds w s \<noteq> None
      \<and> w1 = upd_sched s (schedule_ft (event_task (if event = READ then ctx_read c else ctx_write c))) w"
    unfolding ec' [symmetric] using w1 s ec(2)
    by (simp add: event_task_def schedule_context_def schedule_cb_eq schedule_fiber_eq)
qed

text \<open>Scheduling leaves the pending count alone.\<close>

lemma pending_upd_sched:
  "(\<And>sc. map_option m_pendingEventCount (iom (g sc)) = map_option m_pendingEventCount (iom sc)) \<Longrightarrow>
    pending_of s (upd_sched s' g w) = pending_of s w"
  by (simp add: pending_of_def split: option.splits)

lemma pending_schedule_ft [simp]:
  "map_option m_pendingEventCount (iom (schedule_ft ft sc)) = map_option m_pendingEventCount (iom sc)"
  by (simp add: schedule_ft_def scheduleNoLock_def tickle_def IOManager_tickle_def Let_def split: option.splits)

lemma pending_upd_pending [simp]: "pending_of s (upd_pending g s w) = map_option g (pending_of s w)"
  by (simp add: pending_of_def upd_pending_def option.map_comp comp_def split: option.splits)

lemma ioms_frame [simp]:
  "ioms (upd_sched s g w) = ioms w" "ioms (upd_pending h s w) = ioms w"
  "kernel (upd_sched s g w) = kernel w" "kernel (upd_pending h s w) = kernel w"
  by (simp_all add: upd_sched_def upd_pending_def)

lemma upd_io_frame [simp]:
  "scheds (upd_io s g w) = scheds w" "heap (upd_io s g w) = heap w" "t_fiber (upd_io s g w) = t_fiber w"
  "t_scheduler (upd_io s g w) = t_scheduler w" "kernel (upd_io s g w) = kernel w"
  "ioms (upd_io s g w) s' = (if s' = s then map_option g (ioms w s) else ioms w s')"
  by (simp_all add: upd_io_def)

lemma pending_io [simp]: "pending_of s (upd_io s' g w) = pending_of s w" "pending_of s (set_fd_ctx s' i c w) = pending_of s w"
  by (simp_all add: pending_of_def set_fd_ctx_def)

lemma pending_kernel [simp]: "pending_of s (w\<lparr>kernel := k\<rparr>) = pending_of s w"
  by (simp add: pending_of_def)

text \<open>Replacing one context changes the total by its difference.\<close>

lemma total_update:
  assumes "i < length xs" "xs ! i = Some c"
  shows "total (xs[i := Some c']) + armed_count c = total xs + armed_count c'"
proof -
  have "ctx_count (xs ! i) \<le> sum_list (map ctx_count xs)"
    using elem_le_sum_list [of i "map ctx_count xs"] assms(1) by simp
  then show ?thesis
    using assms by (simp add: total_def map_update sum_list_update ctx_count_def)
qed

lemma table_ok_update:
  "table_ok xs \<Longrightarrow> ctx_ok c \<Longrightarrow> ctx_fd c = of_nat i \<Longrightarrow> table_ok (xs[i := Some c])"
  unfolding table_ok_def by (metis length_list_update nth_list_update_eq nth_list_update_neq)

lemma fd_ctx_at_Inr:
  "fd_ctx_at s i w = Inr c \<longleftrightarrow> (\<exists>io. ioms w s = Some io \<and> i < length (m_fdContext io) \<and> m_fdContext io ! i = Some c)"
  by (auto simp: fd_ctx_at_def io_at_def split: option.splits)

lemma io_inv_ctx:
  assumes "io_inv s w" "fd_ctx_at s i w = Inr c" shows "ctx_ok c" "ctx_fd c = of_nat i"
  using assms by (auto simp: io_inv_def fd_ctx_at_Inr table_ok_def)

lemma io_inv_set:
  assumes inv: "io_inv s w" and c: "fd_ctx_at s i w = Inr c" and ok: "ctx_ok c'" "ctx_fd c' = ctx_fd c"
    and io: "ioms w' = ioms w" and p: "pending_of s w' = map_option g (pending_of s w)"
    and g: "\<And>n. of_nat n = g (of_nat (n + armed_count c - armed_count c')) \<or> n + armed_count c < armed_count c'"
  shows "io_inv s (set_fd_ctx s i c' w')"
proof -
  obtain io where io0: "ioms w s = Some io" "table_ok (m_fdContext io)" "i < length (m_fdContext io)"
    "m_fdContext io ! i = Some c" "pending_of s w = Some (of_nat (total (m_fdContext io)))"
    using inv c by (auto simp: io_inv_def fd_ctx_at_Inr)
  let ?xs = "(m_fdContext io)[i := Some c']"
  have "ctx_fd c' = of_nat i" using ok(2) io_inv_ctx(2) [OF inv c] by simp
  then have "table_ok ?xs" using io0(2) ok by (intro table_ok_update) auto
  moreover have t: "total ?xs + armed_count c = total (m_fdContext io) + armed_count c'"
    using io0 by (intro total_update) auto
  have "of_nat (total ?xs) = g (of_nat (total (m_fdContext io)))"
    using g [of "total ?xs"] t by auto
  ultimately show ?thesis
    using io io0 p by (auto simp: io_inv_def set_fd_ctx_def)
qed

lemma io_inv_frame:
  "io_inv s w \<Longrightarrow> ioms w' s = ioms w s \<Longrightarrow> pending_of s w' = pending_of s w \<Longrightarrow> io_inv s w'"
  by (simp add: io_inv_def)

section \<open>Every operation keeps the invariant\<close>

lemma fd_ctx_at_frame:
  "ioms w' = ioms w \<Longrightarrow> fd_ctx_at s i w' = fd_ctx_at s i w"
  by (simp add: fd_ctx_at_def io_at_def)

lemma io_inv_kernel [simp]: "io_inv s (w\<lparr>kernel := k\<rparr>) = io_inv s w"
  by (simp add: io_inv_def)

lemma fire_inv:
  assumes inv: "io_inv s w" and r: "fire s i event w = Inr w'"
  shows "io_inv s w'"
proof -
  obtain c c1 w1 where c: "fd_ctx_at s i w = Inr c" and tr: "triggerEvent event c w = Inr (c1, w1)"
    and w': "w' = upd_pending (\<lambda>n. n - 1) s (set_fd_ctx s i c1 w1)"
    using r by (auto simp: fire_def)
  have ok: "ctx_ok c" using io_inv_ctx [OF inv c] by simp
  note t = triggerEvent_result [OF tr ok]
  have c1: "ctx_ok c1" "armed_count c = armed_count c1 + 1" "ctx_fd c1 = ctx_fd c"
    using ctx_ok_clear [OF ok t(1,2)] t(3) by simp_all
  obtain s' ft where w1: "w1 = upd_sched s' (schedule_ft ft) w" using t(4) by blast
  have "io_inv s (set_fd_ctx s i c1 (upd_pending (\<lambda>n. n - 1) s w1))"
  proof (rule io_inv_set [OF inv c c1(1,3)])
    show "pending_of s (upd_pending (\<lambda>n. n - 1) s w1) = map_option (\<lambda>n. n - 1) (pending_of s w)"
      unfolding w1 pending_upd_pending by (subst pending_upd_sched) simp_all
  qed (simp_all add: w1 c1(2))
  then show ?thesis
    by (rule io_inv_frame) (simp_all add: w' set_fd_ctx_def)
qed

lemma fire_if_inv: "io_inv s w \<Longrightarrow> fire_if s i event w = Inr w' \<Longrightarrow> io_inv s w'"
  by (auto simp: fire_if_def intro: fire_inv split: if_splits)

lemma io_inv_lock: "io_inv s (upd_io s' (\<lambda>io. io\<lparr>m_mutex := l\<rparr>) w) = io_inv s w"
  by (auto simp: io_inv_def)

lemma find_ctx_result:
  assumes "find_ctx t s fd w = Inr (found, w1)"
  shows "\<exists>l. w1 = upd_io s (\<lambda>io. io\<lparr>m_mutex := l\<rparr>) w"
    and "case found of None \<Rightarrow> True | Some c \<Rightarrow> fd_ctx_at s (fd_index fd) w1 = Inr c"
  using assms by (auto simp: find_ctx_def Let_def split: if_splits)

lemma find_ctx_inv:
  assumes "io_inv s w" "find_ctx t s fd w = Inr (found, w1)" shows "io_inv s w1"
  using find_ctx_result(1) [OF assms(2)] assms(1) by (auto simp: io_inv_lock)

lemma cancelEvent_inv:
  assumes inv: "io_inv s w" and r: "cancelEvent ctl t s fd event w = Inr (b, w')"
  shows "io_inv s w'"
proof -
  obtain found w1 where f: "find_ctx t s fd w = Inr (found, w1)" using r by (auto simp: cancelEvent_def)
  note inv1 = find_ctx_inv [OF inv f]
  then have k: "io_inv s (w1\<lparr>kernel := k\<rparr>)" for k by simp
  show ?thesis
    using r f inv1
    by (auto simp: cancelEvent_def Let_def case_prod_beta split: option.splits if_splits dest!: fire_inv [OF k])
qed

lemma cancelAll_inv:
  assumes inv: "io_inv s w" and r: "cancelAll ctl t s fd w = Inr (b, w')"
  shows "io_inv s w'"
proof -
  obtain found w1 where f: "find_ctx t s fd w = Inr (found, w1)" using r by (auto simp: cancelAll_def)
  note inv1 = find_ctx_inv [OF inv f]
  then have k: "io_inv s (w1\<lparr>kernel := k\<rparr>)" for k by simp
  show ?thesis
    using r f inv1
    by (auto simp: cancelAll_def Let_def case_prod_beta split: option.splits if_splits dest!: fire_if_inv [OF k] intro: fire_if_inv)
qed

lemma delEvent_inv:
  assumes inv: "io_inv s w" and r: "delEvent ctl t s fd event w = Inr (b, w')"
  shows "io_inv s w'"
proof -
  obtain found w1 where f: "find_ctx t s fd w = Inr (found, w1)" using r by (auto simp: delEvent_def)
  note inv1 = find_ctx_inv [OF inv f]
  show ?thesis
  proof (cases "b")
    case False
    then show ?thesis
      using r f inv1 by (auto simp: delEvent_def Let_def case_prod_beta split: option.splits if_splits)
  next
    case True
    then obtain c where found: "found = Some c" using r f by (auto simp: delEvent_def split: option.splits)
    let ?c1 = "c\<lparr>ctx_events := ctx_events c AND NOT event\<rparr>"
    obtain k ec where on: "ctx_events c AND event \<noteq> 0" and ec: "getContext event ?c1 = Inr ec"
      and w': "w' = set_fd_ctx s (fd_index fd) (putContext event no_event ?c1)
                      (upd_pending (\<lambda>n. n - 1) s (w1\<lparr>kernel := k\<rparr>))"
      using r f True found
      by (auto simp: delEvent_def Let_def case_prod_beta resetContext_eq split: if_splits)
    have c: "fd_ctx_at s (fd_index fd) w1 = Inr c" using find_ctx_result(2) [OF f] found by simp
    note ok = io_inv_ctx(1) [OF inv1 c]
    from ctx_ok_clear [OF ok getContext_armed(1) [OF ok ec] on] show ?thesis
      unfolding w' by (intro io_inv_set [OF inv1 c, where g = "\<lambda>n. n - 1"]) simp_all
  qed
qed

text \<open>Growing the table adds empty contexts at its end.\<close>

lemma contextResize_grow:
  assumes "length xs \<le> n" "table_ok xs"
  shows "table_ok (contextResize n xs) \<and> total (contextResize n xs) = total xs \<and> length (contextResize n xs) = n
    \<and> (\<forall>i < length xs. contextResize n xs ! i = xs ! i)"
proof -
  let ?g = "\<lambda>i. Some (FdContext i)"
  have "contextResize n xs = xs @ map ?g [length xs..<n]"
  proof (rule nth_equalityI)
    fix i assume "i < length (contextResize n xs)"
    then have "i < n" using assms(1) by (simp add: contextResize_def)
    then show "contextResize n xs ! i = (xs @ map ?g [length xs..<n]) ! i"
      using assms by (cases "i < length xs") (auto simp: contextResize_def nth_append table_ok_def split: option.splits)
  qed (use assms(1) in \<open>simp add: contextResize_def\<close>)
  moreover have "ctx_count \<circ> ?g = (\<lambda>i. 0)"
    by (simp add: fun_eq_iff ctx_count_def)
  then have "total (xs @ map ?g [length xs..<n]) = total xs"
    by (simp add: total_def comp_def)
  ultimately show ?thesis
    using assms by (auto simp: table_ok_def nth_append)
qed

lemma fd_index_nonneg: "0 \<le> sint fd \<Longrightarrow> int (fd_index fd) = sint fd"
proof -
  assume pos: "0 \<le> sint fd"
  have "uint (word_of_int k :: u64) = k" if "0 \<le> k" "k < 2 ^ 31" for k
    using that by (simp add: uint_word_of_int)
  from this [OF pos] have "uint (word_of_int (sint fd) :: u64) = sint fd"
    using sint_lt [of fd] by simp
  moreover have "int (unat x) = uint x" for x :: u64 by simp
  ultimately show ?thesis unfolding fd_index_def scast_eq by presburger
qed

lemma addEvent_find_result:
  assumes inv: "io_inv s w" and r: "addEvent_find t s fd w = Inr w1"
  shows "io_inv s w1 \<and> t_scheduler w1 = t_scheduler w \<and> scheds w1 = scheds w \<and> kernel w1 = kernel w"
proof -
  obtain io l1 where io: "ioms w s = Some io" "table_ok (m_fdContext io)" and l1: "read_scope t (m_mutex io) = Inr l1"
    using inv r by (auto simp: addEvent_find_def io_inv_def io_at_def)
  show ?thesis
  proof (cases "length (m_fdContext io) > fd_index fd")
    case True
    then show ?thesis using r io l1 inv by (auto simp: addEvent_find_def io_at_def io_inv_lock)
  next
    case False
    then obtain l2 where pos: "0 \<le> sint fd"
      and w1: "w1 = upd_io s (\<lambda>io. io\<lparr>m_mutex := l2, m_fdContext := contextResize (nat (3 * sint fd div 2)) (m_fdContext io)\<rparr>) w"
      using r io l1 by (auto simp: addEvent_find_def io_at_def split: if_splits)
    have "length (m_fdContext io) \<le> nat (3 * sint fd div 2)"
      using False fd_index_nonneg [OF pos] io(2) by linarith
    from contextResize_grow [OF this io(2)] io inv show ?thesis
      by (auto simp: w1 io_inv_def)
  qed
qed

lemma GetThis_more: "GetThis t w = Inr (f, w') \<Longrightarrow> fibers.more w' = fibers.more w"
  by (auto simp: GetThis_def Fiber_main_def new_fiber_def safeFiberCountIncr_def SetThis_def Let_def
      split: option.splits)

lemma ioworld_more:
  "fibers.more w' = fibers.more w \<Longrightarrow> scheds w' = scheds w \<and> ioms w' = ioms w \<and> kernel w' = kernel (w :: ('k, 'z) ioworld_scheme)"
  by (cases w; cases w') simp

lemma addEvent_arm_inv:
  assumes inv: "io_inv s w" and c: "fd_ctx_at s i w = Inr c" and r: "addEvent_arm t s i event cb c w = Inr w'"
  shows "io_inv s w'"
proof -
  let ?c1 = "c\<lparr>ctx_events := ctx_events c OR event\<rparr>"
  note ok = io_inv_ctx(1) [OF inv c]
  obtain ec where ec: "getContext event ?c1 = Inr ec" "ec_scheduler ec = None" "ec_fiber ec = None" "ec_cb ec = None"
    using r by (auto simp: addEvent_arm_def Let_def)
  have off: "ctx_events c AND event = 0"
    using getContext_armed(3) [OF ok ec(1)] ec by (auto simp: armed_def split: if_splits)
  have "\<exists>ec1 w1. armed ec1 \<and> w' = set_fd_ctx s i (putContext event ec1 ?c1) w1 \<and> ioms w1 = ioms w
      \<and> pending_of s w1 = map_option (\<lambda>n. n + 1) (pending_of s w)"
  proof (cases cb)
    case (Some b)
    then show ?thesis
      using r ec by (intro exI [of _ "ec\<lparr>ec_scheduler := t_scheduler (upd_pending (\<lambda>n. n + 1) s w) t, ec_cb := Some b\<rparr>"]
          exI [of _ "upd_pending (\<lambda>n. n + 1) s w"]) (auto simp: addEvent_arm_def Let_def armed_def)
  next
    case None
    then obtain f w2 where g: "GetThis t (upd_pending (\<lambda>n. n + 1) s w) = Inr (f, w2)"
      and w': "w' = set_fd_ctx s i (putContext event
        (ec\<lparr>ec_scheduler := t_scheduler (upd_pending (\<lambda>n. n + 1) s w) t, ec_fiber := Some f\<rparr>) ?c1) w2"
      using r ec by (auto simp: addEvent_arm_def Let_def)
    from ioworld_more [OF GetThis_more [OF g]]
    have "ioms w2 = ioms w" "scheds w2 = scheds (upd_pending (\<lambda>n. n + 1) s w)" by simp_all
    moreover from this(2) have "pending_of s w2 = pending_of s (upd_pending (\<lambda>n. n + 1) s w)"
      by (simp add: pending_of_def)
    ultimately show ?thesis
      using w' ec by (intro exI [of _ "ec\<lparr>ec_scheduler := t_scheduler (upd_pending (\<lambda>n. n + 1) s w) t, ec_fiber := Some f\<rparr>"]
          exI [of _ w2]) (simp add: armed_def)
  qed
  then obtain ec1 w1 where e: "armed ec1" "w' = set_fd_ctx s i (putContext event ec1 ?c1) w1" "ioms w1 = ioms w"
      "pending_of s w1 = map_option (\<lambda>n. n + 1) (pending_of s w)" by blast
  from ctx_ok_set [OF ok getContext_armed(1) [OF ok ec(1)] off e(1)] show ?thesis
    unfolding e(2) by (intro io_inv_set [OF inv c _ _ e(3,4)]) (auto simp: of_nat_diff Suc_le_eq)
qed

lemma addEvent_inv:
  assumes inv: "io_inv s w" and r: "addEvent ctl t s fd event cb w = Inr (ret, w')"
  shows "io_inv s w'"
proof -
  obtain w1 c where f: "addEvent_find t s fd w = Inr w1" and c: "fd_ctx_at s (fd_index fd) w1 = Inr c"
    using r by (auto simp: addEvent_def)
  have "io_inv s w1" using addEvent_find_result [OF inv f] by simp
  then have k: "io_inv s (w1\<lparr>kernel := k\<rparr>)" "fd_ctx_at s (fd_index fd) (w1\<lparr>kernel := k\<rparr>) = Inr c" for k
    using c by (simp_all add: fd_ctx_at_frame [of "w1\<lparr>kernel := k\<rparr>" w1])
  show ?thesis
    using r f c k(1)
    by (auto simp: addEvent_def Let_def case_prod_beta split: if_splits dest!: addEvent_arm_inv [OF k])
qed

lemma fire_real_inv: "fire_real s i real w = Inr w' \<Longrightarrow> io_inv s w \<Longrightarrow> io_inv s w'"
  unfolding fire_real_def and_then_Inr_iff by (auto split: if_splits dest: fire_inv)

lemma rearm_and_fire_inv:
  assumes inv: "io_inv s w" and r: "rearm_and_fire ctl s i c evs real w = Inr w'"
  shows "io_inv s w'"
proof -
  define op where "op = (if ctx_events c AND NOT real \<noteq> 0 then EPOLL_CTL_MOD else EPOLL_CTL_DEL)"
  define k where "k = snd (ctl s op (ctx_fd c) evs (kernel w))"
  have "w' = w \<or> w' = w\<lparr>kernel := k\<rparr> \<or> fire_real s i real (w\<lparr>kernel := k\<rparr>) = Inr w'"
    using r unfolding rearm_and_fire_def Let_def case_prod_beta op_def [symmetric] k_def [symmetric]
    by (simp split: if_splits)
  then show ?thesis
  proof (elim disjE)
    assume "fire_real s i real (w\<lparr>kernel := k\<rparr>) = Inr w'"
    then show ?thesis using inv by (rule fire_real_inv [OF _ iffD2 [OF io_inv_kernel]])
  qed (use inv in simp_all)
qed

lemma handle_event_inv:
  assumes inv: "io_inv s w" and r: "handle_event ctl s ev w = Inr w'"
  shows "io_inv s w'"
proof (cases "ev_data ev")
  case EvTickle
  then have "w' = upd_sched s (\<lambda>sc. sc\<lparr>iom := map_option (\<lambda>io. io\<lparr>pipe_bytes := 0\<rparr>) (iom sc)\<rparr>) w"
    using r by (simp add: handle_event_def)
  moreover have "pending_of s w' = pending_of s w"
    unfolding calculation by (rule pending_upd_sched) (simp add: option.map_comp comp_def)
  ultimately show ?thesis using inv by (intro io_inv_frame [OF inv]) simp_all
next
  case (EvCtx i)
  with r rearm_and_fire_inv [OF inv] show ?thesis
    by (auto simp: handle_event_def Let_def)
qed

lemma handle_events_inv: "io_inv s w \<Longrightarrow> handle_events ctl s evs w = Inr w' \<Longrightarrow> io_inv s w'"
  by (induction evs arbitrary: w) (auto dest: handle_event_inv)

lemma pending_scheduleNoLock:
  "map_option m_pendingEventCount (iom (snd (scheduleNoLock ft sc))) = map_option m_pendingEventCount (iom sc)"
  by (simp add: scheduleNoLock_def Let_def)

lemma pending_tickle: "map_option m_pendingEventCount (iom (tickle sc)) = map_option m_pendingEventCount (iom sc)"
  by (cases "iom sc") (simp_all add: tickle_def IOManager_tickle_def)

lemma pending_schedule_range [simp]:
  "map_option m_pendingEventCount (iom (snd (schedule_range cbs sc))) = map_option m_pendingEventCount (iom sc)"
proof -
  have "map_option m_pendingEventCount (iom (snd (snd (schedule_loop cbs b sc)))) = map_option m_pendingEventCount (iom sc)" for b
    by (induction cbs arbitrary: b sc) (simp_all add: case_prod_beta Let_def pending_scheduleNoLock)
  then show ?thesis
    by (simp add: schedule_range_def case_prod_beta Let_def pending_tickle)
qed

lemma idle_round_inv:
  assumes inv: "io_inv s w" and r: "idle_round ctl s next_timer expired evs w = Inr (b, w')"
  shows "io_inv s w'"
proof -
  let ?w1 = "if expired \<noteq> [] then upd_sched s (\<lambda>sc. snd (schedule_range expired sc)) w else w"
  have "io_inv s ?w1"
    by (rule io_inv_frame [OF inv]) (simp_all add: pending_upd_sched)
  then show ?thesis
    using r inv by (auto simp: idle_round_def Let_def split: if_splits intro: handle_events_inv)
qed

section \<open>The program around the manager\<close>

text \<open>
  The steps that any thread may take on the manager, and everything else the program does,
  which does not touch the table or the count.
\<close>

inductive io_step :: "'k epoll_ctl \<Rightarrow> sid \<Rightarrow> 'k ioworld \<Rightarrow> 'k ioworld \<Rightarrow> bool" for ctl s where
  io_add [step_intros]: "addEvent ctl t s fd event cb w = Inr (r, w') \<Longrightarrow> io_step ctl s w w'"
| io_del [step_intros]: "delEvent ctl t s fd event w = Inr (b, w') \<Longrightarrow> io_step ctl s w w'"
| io_cancel [step_intros]: "cancelEvent ctl t s fd event w = Inr (b, w') \<Longrightarrow> io_step ctl s w w'"
| io_cancel_all [step_intros]: "cancelAll ctl t s fd w = Inr (b, w') \<Longrightarrow> io_step ctl s w w'"
| io_idle [step_intros]: "idle_round ctl s next_timer expired evs w = Inr (b, w') \<Longrightarrow> io_step ctl s w w'"
| io_other [step_intros]: "ioms w' s = ioms w s \<Longrightarrow> pending_of s w' = pending_of s w \<Longrightarrow> io_step ctl s w w'"

lemma io_step_inv: "io_step ctl s w w' \<Longrightarrow> io_inv s w \<Longrightarrow> io_inv s w'"
  by (cases rule: io_step.cases)
    (auto intro: addEvent_inv delEvent_inv cancelEvent_inv cancelAll_inv idle_round_inv io_inv_frame)

lemma io_steps_inv: "(io_step ctl s)\<^sup>*\<^sup>* w w' \<Longrightarrow> io_inv s w \<Longrightarrow> io_inv s w'"
  by (induction rule: rtranclp_induct) (auto intro: io_step_inv)

lemma table_new: "table_ok (contextResize 32 []) \<and> total (contextResize 32 []) = 0"
proof -
  have "contextResize 32 [] = map (\<lambda>i. Some (FdContext i)) [0..<32]"
    by (rule nth_equalityI) (simp_all add: contextResize_def)
  moreover have "ctx_count \<circ> (\<lambda>i. Some (FdContext i)) = (\<lambda>i. 0)"
    by (simp add: fun_eq_iff ctx_count_def)
  ultimately show ?thesis by (simp add: table_ok_def total_def comp_def)
qed

lemma Fiber_new_more: "Fiber_new stk cb st uc w = Inr (f, w') \<Longrightarrow> fibers.more w' = fibers.more w"
  by (auto simp: Fiber_new_def safeFiberIdIncr_def new_fiber_def safeFiberCountIncr_def Let_def split: if_splits)

lemma Scheduler_new_iom:
  assumes "Scheduler_new sub t s threads uc name w = Inr w'"
  shows "\<exists>sc. scheds w' s = Some sc \<and> iom sc = sub"
proof (cases uc)
  case True
  with assms show ?thesis by (auto simp: Scheduler_new_def Let_def)
next
  case False
  with assms show ?thesis by (auto simp: Scheduler_new_def Let_def)
qed

lemma IOManager_new_inv:
  assumes "IOManager_new ctl epfd pr fr tfd t s threads uc name w = Inr w'"
  shows "io_inv s w'"
proof -
  obtain w1 k where n: "Scheduler_new (Some \<lparr>pipe_bytes = 0, m_pendingEventCount = 0\<rparr>) t s threads uc name w = Inr w1"
    and w': "w' = w1\<lparr>kernel := k, ioms := (ioms w1)(s := Some \<lparr>m_mutex = rw_free, m_fdContext = contextResize 32 []\<rparr>)\<rparr>"
    using assms by (auto simp: IOManager_new_def Let_def case_prod_beta)
  from Scheduler_new_iom [OF n] obtain sc where "scheds w1 s = Some sc" "iom sc = Some \<lparr>pipe_bytes = 0, m_pendingEventCount = 0\<rparr>"
    by blast
  then show ?thesis using table_new by (simp add: io_inv_def w' pending_of_def)
qed

text \<open>What the kernel documents of \<open>epoll_ctl\<close>: a successful change sets the interest mask.\<close>

definition epoll_mod_sets :: "'k epoll_ctl \<Rightarrow> (sid \<Rightarrow> u32 \<Rightarrow> 'k \<Rightarrow> u32 option) \<Rightarrow> bool" where
  "epoll_mod_sets ctl interest \<longleftrightarrow>
     (\<forall>s fd mask k. fst (ctl s EPOLL_CTL_MOD fd mask k) = 0 \<longrightarrow>
        interest s fd (snd (ctl s EPOLL_CTL_MOD fd mask k)) = Some mask)"

text \<open>An interest list: adding twice fails, changing and deleting need an entry.\<close>

definition table_ctl :: "((sid \<times> u32) \<Rightarrow> u32 option) epoll_ctl" where
  "table_ctl s op fd m k =
     (if op = EPOLL_CTL_ADD then (if k (s, fd) = None then (0, k((s, fd) \<mapsto> m)) else (-1, k))
      else if k (s, fd) = None then (-1, k)
      else if op = EPOLL_CTL_MOD then (0, k((s, fd) \<mapsto> m))
      else (0, k((s, fd) := None)))"

lemma table_ctl_mod: "epoll_mod_sets table_ctl (\<lambda>s fd k. k (s, fd))"
  by (auto simp: epoll_mod_sets_def table_ctl_def event_consts)

text \<open>A manager with a full table of empty contexts, except number 5, for examples.\<close>

definition waiting :: "action body \<Rightarrow> event_context" where
  "waiting b = \<lparr>ec_scheduler = Some 0, ec_fiber = None, ec_cb = Some b\<rparr>"

definition io_example :: "fd_context \<Rightarrow> u64 \<Rightarrow> ((sid \<times> u32) \<Rightarrow> u32 option) ioworld" where
  "io_example c n = \<lparr>heap = Map.empty, next_fid = 0, s_fiber_id = 0, s_fiber_id_set = {}, s_fiber_count = 0,
     g_fiber_stack_size = 4096, t_fiber = Map.empty, t_threadFiber = Map.empty, t_scheduler_fiber = Map.empty,
     scheds = [0 \<mapsto> \<lparr>sched_name = ''io'', m_threads = [], m_fibers = [], m_rootFiber = None,
       m_threadIds = [], m_threadCount = 1, m_activeThreadCount = 0, m_idleThreadCount = 0,
       m_stopping = False, m_autoStop = False, m_rootThread = 0,
       iom = Some \<lparr>pipe_bytes = 0, m_pendingEventCount = n\<rparr>\<rparr>],
     t_scheduler = [7 \<mapsto> 0],
     ioms = [0 \<mapsto> \<lparr>m_mutex = rw_free,
       m_fdContext = (map (\<lambda>i. Some (FdContext i)) [0..<32])[5 := Some c]\<rparr>],
     kernel = [(0, 5) \<mapsto> EPOLLET OR ctx_events c]\<rparr>"

definition ctx5 :: "event_context \<Rightarrow> event_context \<Rightarrow> u32 \<Rightarrow> fd_context" where
  "ctx5 r wr m = \<lparr>ctx_read = r, ctx_write = wr, ctx_fd = 5, ctx_events = m\<rparr>"

lemma io_example_simps [simp]:
  "ioms (io_example c n) s = (if s = 0 then Some \<lparr>m_mutex = rw_free,
       m_fdContext = (map (\<lambda>i. Some (FdContext i)) [0..<32])[5 := Some c]\<rparr> else None)"
  "scheds (io_example c n) s = (if s = 0 then Some \<lparr>sched_name = ''io'', m_threads = [], m_fibers = [], m_rootFiber = None,
       m_threadIds = [], m_threadCount = 1, m_activeThreadCount = 0, m_idleThreadCount = 0,
       m_stopping = False, m_autoStop = False, m_rootThread = 0,
       iom = Some \<lparr>pipe_bytes = 0, m_pendingEventCount = n\<rparr>\<rparr> else None)"
  "t_scheduler (io_example c n) = [7 \<mapsto> 0]"
  "kernel (io_example c n) = [(0, 5) \<mapsto> EPOLLET OR ctx_events c]"
  by (simp_all add: io_example_def)

lemma io_example_ctx [simp]: "fd_ctx_at 0 5 (io_example c n) = Inr c"
  by (simp add: fd_ctx_at_Inr)

lemma fd_index_5 [simp]: "fd_index 5 = 5"
  by (simp add: fd_index_def)

lemma io_example_inv: "ctx_ok c \<Longrightarrow> ctx_fd c = 5 \<Longrightarrow> io_inv 0 (io_example c (of_nat (armed_count c)))"
proof -
  let ?xs = "map (\<lambda>i. Some (FdContext i)) [0..<32]"
  assume c: "ctx_ok c" "ctx_fd c = 5"
  have t: "table_ok ?xs" by (simp add: table_ok_def)
  then have "table_ok (?xs[5 := Some c])" by (rule table_ok_update) (simp_all add: c)
  moreover have "ctx_count \<circ> (\<lambda>i. Some (FdContext i)) = (\<lambda>i. 0)" by (simp add: fun_eq_iff ctx_count_def)
  then have "total ?xs = 0" by (simp add: total_def comp_def)
  then have "total (?xs[5 := Some c]) = armed_count c"
    using total_update [of 5 ?xs "FdContext 5" c] by simp
  ultimately show ?thesis by (simp add: io_inv_def pending_of_def)
qed

lemma upd_io_same_lock: "ioms w s = Some io \<Longrightarrow> upd_io s (\<lambda>io'. io'\<lparr>m_mutex := m_mutex io\<rparr>) w = w"
  by (cases w) (simp add: upd_io_def fun_upd_idem)

lemma addEvent_find_there:
  "ioms w s = Some io \<Longrightarrow> writer (m_mutex io) = None \<Longrightarrow> fd_index fd < length (m_fdContext io) \<Longrightarrow>
    addEvent_find t s fd w = Inr w"
  by (simp add: addEvent_find_def io_at_def read_scope_free upd_io_same_lock)

lemma find_ctx_there:
  "ioms w s = Some io \<Longrightarrow> writer (m_mutex io) = None \<Longrightarrow> fd_ctx_at s (fd_index fd) w = Inr c \<Longrightarrow>
    find_ctx t s fd w = Inr (Some c, w)"
  by (auto simp: find_ctx_def io_at_def read_scope_free upd_io_same_lock fd_ctx_at_Inr Let_def)

lemma fd_ctx_at_set [simp]:
  "fd_ctx_at s i w = Inr c \<Longrightarrow> fd_ctx_at s i (set_fd_ctx s i c' w) = Inr c'"
  by (auto simp: fd_ctx_at_Inr set_fd_ctx_def)

lemma getContext_put:
  "event = READ \<or> event = WRITE \<Longrightarrow> getContext event (putContext event ec c) = Inr ec"
  by (auto simp: getContext_def putContext_def event_consts)

lemma and_sub_zero: "(x :: u32) AND m = 0 \<Longrightarrow> m AND n = n \<Longrightarrow> x AND n = 0"
  by (metis and.assoc and_zero_eq bit.conj_zero_left)

lemma fire_ready:
  assumes c: "fd_ctx_at s i w = Inr c" "ctx_ok c" and ev: "event = READ \<or> event = WRITE" "ctx_events c AND event \<noteq> 0"
    and ec: "ec = (if event = READ then ctx_read c else ctx_write c)" "ec_scheduler ec = Some s'" "scheds w s' \<noteq> None"
  shows "fire s i event w = Inr (upd_pending (\<lambda>n. n - 1) s
    (set_fd_ctx s i (putContext event no_event (c\<lparr>ctx_events := ctx_events c AND NOT event\<rparr>))
      (upd_sched s' (schedule_ft (event_task ec)) w)))"
proof -
  let ?c1 = "c\<lparr>ctx_events := ctx_events c AND NOT event\<rparr>"
  have g: "getContext event ?c1 = Inr ec"
    using ev(1) ec(1) unfolding getContext_def by (cases "event = READ") auto
  have "armed ec" using getContext_armed(3) [OF c(2) g] ev(2) by simp
  then have n: "(fst (schedule_context ec s' w))\<lparr>ec_scheduler := None\<rparr> = no_event"
    by (cases ec) (auto simp: armed_def no_event_def schedule_context_def)
  have w: "snd (schedule_context ec s' w) = upd_sched s' (schedule_ft (event_task ec)) w"
    by (simp add: event_task_def schedule_context_def schedule_cb_eq schedule_fiber_eq)
  obtain sc where "sched_at s' w = Inr sc" using ec(3) by auto
  then have "triggerEvent event c w = Inr (putContext event no_event ?c1, upd_sched s' (schedule_ft (event_task ec)) w)"
    using ev(2) g ec(2) n w by (simp add: triggerEvent_def Let_def case_prod_beta)
  then show ?thesis using c(1) by (simp add: fire_def)
qed

lemma fire_unregistered:
  "fd_ctx_at s i w = Inr c \<Longrightarrow> ctx_events c AND event = 0 \<Longrightarrow> fire s i event w = Inl (AssertFail ''events & event'')"
  by (simp add: fire_def triggerEvent_def)

lemma mask_with_both:
  assumes "(m :: u32) AND EPOLLIN \<noteq> 0" "m AND EPOLLOUT = 0"
  shows "real_events (widen_events (READ OR WRITE) m) = READ"
    and "widen_events (READ OR WRITE) m AND EPOLLOUT = 0"
proof -
  have in_hup: "m AND (EPOLLIN OR EPOLLHUP) \<noteq> 0"
    using assms(1) and_sub_zero [of m "EPOLLIN OR EPOLLHUP" EPOLLIN] by (auto simp: event_consts)
  then have w: "widen_events (READ OR WRITE) m = m OR EPOLLIN"
    by (simp add: widen_events_def event_consts)
  show out: "widen_events (READ OR WRITE) m AND EPOLLOUT = 0"
    using assms(2) unfolding w bit.conj_disj_distrib2 by (simp add: event_consts)
  have "(m OR EPOLLIN) AND EPOLLIN = EPOLLIN"
    by (simp add: ac_simps)
  then have "(m OR EPOLLIN) AND (EPOLLIN OR EPOLLHUP) \<noteq> 0"
    using and_sub_zero [of "m OR EPOLLIN" "EPOLLIN OR EPOLLHUP" EPOLLIN] by (auto simp: event_consts)
  then show "real_events (widen_events (READ OR WRITE) m) = READ"
    using out unfolding w by (simp add: real_events_def event_consts)
qed

lemma fire_read_keeps_write:
  assumes inv: "io_inv s w" and c: "fd_ctx_at s i w = Inr c" "ctx_events c = READ OR WRITE"
    and r: "fire s i READ w = Inr w'"
  shows "(\<exists>c'. fd_ctx_at s i w' = Inr c' \<and> ctx_events c' = WRITE \<and> ctx_write c' = ctx_write c) \<and> kernel w' = kernel w"
proof -
  obtain c1 w1 where tr: "triggerEvent READ c w = Inr (c1, w1)"
    and w': "w' = upd_pending (\<lambda>n. n - 1) s (set_fd_ctx s i c1 w1)"
    using r c by (auto simp: fire_def)
  note t = triggerEvent_result [OF tr io_inv_ctx(1) [OF inv c(1)]]
  obtain s' ft where w1: "w1 = upd_sched s' (schedule_ft ft) w" using t(4) by blast
  have "fd_ctx_at s i w1 = Inr c" using c(1) by (simp add: w1 fd_ctx_at_frame [of "upd_sched s' (schedule_ft ft) w" w])
  then have "fd_ctx_at s i (set_fd_ctx s i c1 w1) = Inr c1" by simp
  then have "fd_ctx_at s i w' = Inr c1" by (simp add: w' fd_ctx_at_frame [of "upd_pending (\<lambda>n. n - 1) s (set_fd_ctx s i c1 w1)" "set_fd_ctx s i c1 w1"])
  moreover have "kernel w' = kernel w" by (simp add: w' w1 set_fd_ctx_def)
  ultimately show ?thesis
    using t(3) c(2) by (simp add: putContext_def event_consts)
qed

lemma fd_index_lt_grown: "0 \<le> sint fd \<Longrightarrow> 2 \<le> fd_index fd \<Longrightarrow> fd_index fd < nat (3 * sint fd div 2)"
  using fd_index_nonneg [of fd] by linarith

lemma rearm_idle: "ctx_events c = NONE \<Longrightarrow> rearm_and_fire ctl s i c evs real w = Inr w"
  by (simp add: rearm_and_fire_def event_consts)

lemma mask_with_read:
  assumes "(m :: u32) AND EPOLLIN \<noteq> 0" "m AND EPOLLOUT = 0"
  shows "real_events (widen_events READ m) = READ"
proof -
  have in_hup: "m AND (EPOLLIN OR EPOLLHUP) \<noteq> 0"
    using assms(1) and_sub_zero [of m "EPOLLIN OR EPOLLHUP" EPOLLIN] by (auto simp: event_consts)
  then have w: "widen_events READ m = m OR EPOLLIN"
    by (simp add: widen_events_def event_consts)
  have "(m OR EPOLLIN) AND EPOLLOUT = 0"
    using assms(2) unfolding bit.conj_disj_distrib2 by (simp add: event_consts)
  moreover have "(m OR EPOLLIN) AND EPOLLIN = EPOLLIN"
    by (simp add: ac_simps)
  then have "(m OR EPOLLIN) AND (EPOLLIN OR EPOLLHUP) \<noteq> 0"
    using and_sub_zero [of "m OR EPOLLIN" "EPOLLIN OR EPOLLHUP" EPOLLIN] by (auto simp: event_consts)
  ultimately show ?thesis
    unfolding w by (simp add: real_events_def event_consts)
qed

text \<open>What the delivery of a readable descriptor with a reader only does to the state.\<close>

definition read_fired :: "sid \<Rightarrow> nat \<Rightarrow> fd_context \<Rightarrow> sid \<Rightarrow> ('k, 'z) ioworld_scheme \<Rightarrow> ('k, 'z) ioworld_scheme" where
  "read_fired s i c s' w = upd_pending (\<lambda>n. n - 1) s
     (set_fd_ctx s i (c\<lparr>ctx_events := NONE, ctx_read := no_event\<rparr>)
       (upd_sched s' (schedule_ft (event_task (ctx_read c))) w))"

lemma read_armed:
  assumes "io_inv s w" "fd_ctx_at s i w = Inr c" "ctx_events c = READ"
  shows "ft_fiber (event_task (ctx_read c)) \<noteq> None \<or> ft_cb (event_task (ctx_read c)) \<noteq> None"
proof -
  have "armed (ctx_read c)"
    using io_inv_ctx(1) [OF assms(1,2)] assms(3) by (simp add: ctx_ok_def event_consts)
  then show ?thesis
    by (auto simp: armed_def event_task_def FiberAndThread_cb_def FiberAndThread_fiber_def)
qed

lemma handle_read_event:
  assumes inv: "io_inv s w" and c: "fd_ctx_at s i w = Inr c" "ctx_events c = READ"
    and ec: "ec_scheduler (ctx_read c) = Some s'" "scheds w s' = Some sc"
    and ev: "ev_data ev = EvCtx i" "ev_events ev AND EPOLLIN \<noteq> 0" "ev_events ev AND EPOLLOUT = 0"
    and ctl: "\<forall>m. fst (ctl s EPOLL_CTL_DEL (ctx_fd c) m (kernel w)) = 0"
  shows "\<exists>k. handle_event ctl s ev w = Inr (read_fired s i c s' (w\<lparr>kernel := k\<rparr>))"
proof -
  define evs where "evs = widen_events READ (ev_events ev)"
  define k where "k = snd (ctl s EPOLL_CTL_DEL (ctx_fd c) evs (kernel w))"
  have real: "real_events evs = READ" using mask_with_read [OF ev(2,3)] by (simp add: evs_def)
  have "handle_event ctl s ev w = rearm_and_fire ctl s i c evs READ w"
    using c ev(1) real by (simp add: handle_event_def evs_def)
  also have "\<dots> = fire s i READ (w\<lparr>kernel := k\<rparr>)"
    using ctl c(2) by (simp add: rearm_and_fire_def Let_def case_prod_beta event_consts k_def fire_real_def)
  also have "\<dots> = Inr (read_fired s i c s' (w\<lparr>kernel := k\<rparr>))"
  proof -
    have "fd_ctx_at s i (w\<lparr>kernel := k\<rparr>) = Inr c"
      using c(1) by (simp add: fd_ctx_at_frame [of "w\<lparr>kernel := k\<rparr>" w])
    from fire_ready [OF this io_inv_ctx(1) [OF inv c(1)], of READ "ctx_read c" s'] c(2) ec show ?thesis
      by (simp add: putContext_def event_consts read_fired_def)
  qed
  finally show ?thesis by blast
qed

lemma read_fired_ctx:
  assumes "fd_ctx_at s i w = Inr c"
  shows "fd_ctx_at s i (read_fired s i c s' w) = Inr (c\<lparr>ctx_events := NONE, ctx_read := no_event\<rparr>)"
proof -
  let ?w1 = "upd_sched s' (schedule_ft (event_task (ctx_read c))) w" and ?c' = "c\<lparr>ctx_events := NONE, ctx_read := no_event\<rparr>"
  have "fd_ctx_at s i ?w1 = Inr c" using assms by (simp add: fd_ctx_at_frame [of ?w1 w])
  then have "fd_ctx_at s i (set_fd_ctx s i ?c' ?w1) = Inr ?c'" by simp
  then show ?thesis
    by (simp add: read_fired_def fd_ctx_at_frame [of "upd_pending (\<lambda>n. n - 1) s (set_fd_ctx s i ?c' ?w1)" "set_fd_ctx s i ?c' ?w1"])
qed

lemma read_fired_queue:
  assumes "ft_fiber (event_task (ctx_read c)) \<noteq> None \<or> ft_cb (event_task (ctx_read c)) \<noteq> None"
    and "scheds w s' = Some sc"
  shows "\<exists>sc'. scheds (read_fired s i c s' w) s' = Some sc' \<and> m_fibers sc' = m_fibers sc @ [event_task (ctx_read c)]"
proof -
  have "m_fibers (schedule_ft (event_task (ctx_read c)) sc) = m_fibers sc @ [event_task (ctx_read c)]"
    using assms(1) by (simp add: schedule_ft_fibers)
  then show ?thesis
    using assms(2) by (cases "s' = s") (simp_all add: read_fired_def set_fd_ctx_def upd_pending_def)
qed

lemma read_fired_pending: "pending_of s (read_fired s i c s' w) = map_option (\<lambda>n. n - 1) (pending_of s w)"
proof -
  have "pending_of s (upd_sched s' (schedule_ft (event_task (ctx_read c))) w) = pending_of s w"
    by (subst pending_upd_sched) simp_all
  then show ?thesis by (simp add: read_fired_def)
qed

text \<open>A pending count of zero means that no event is registered.\<close>

lemma io_inv_none_pending:
  assumes inv: "io_inv s w" and io: "ioms w s = Some io" "length (m_fdContext io) < 2 ^ 62"
    and p: "pending_of s w = Some 0" and i: "i < length (m_fdContext io)"
  shows "\<exists>c. m_fdContext io ! i = Some c \<and> ctx_events c = NONE \<and> ctx_read c = no_event \<and> ctx_write c = no_event"
proof -
  let ?xs = "m_fdContext io"
  have t: "table_ok ?xs" "(of_nat (total ?xs) :: u64) = 0"
    using inv io p by (auto simp: io_inv_def)
  have cnt: "ctx_count q \<le> 2" for q
    by (simp add: ctx_count_def armed_count_def split: option.splits)
  have "total xs \<le> 2 * length xs" for xs
  proof (induction xs)
    case (Cons a xs)
    then show ?case using cnt [of a] by (simp add: total_def)
  qed (simp add: total_def)
  from this [of ?xs] have "total ?xs < 2 ^ 64" using io(2) by simp
  moreover from arg_cong [OF t(2), of unat] have "total ?xs mod 2 ^ 64 = 0" by (simp add: unat_of_nat)
  ultimately have "total ?xs = 0" by simp
  then have zero: "ctx_count (?xs ! i) = 0"
    using i elem_le_sum_list [of i "map ctx_count ?xs"] by (simp add: total_def)
  obtain c where c: "?xs ! i = Some c" "ctx_ok c" using t(1) i by (auto simp: table_ok_def)
  then have "valid_mask (ctx_events c)" by (simp add: ctx_ok_def)
  from mask_cases [OF this] c zero show ?thesis
    by (elim disjE) (simp_all add: ctx_ok_def ctx_count_def armed_count_def event_consts)
qed

lemma sint_small: "unat x < 2 ^ 31 \<Longrightarrow> sint (ucast (x :: u64) :: u32) = int (unat x)"
proof -
  assume u: "unat x < 2 ^ 31"
  have i: "int (unat x) = uint x" by simp
  have "int (unat x) < int (2 ^ 31)" using u by (simp only: of_nat_less_iff)
  then have x: "0 \<le> uint x" "uint x < 2 ^ 31" unfolding i by simp_all
  have "uint (ucast x :: u32) = uint x" using x by (simp add: uint_up_ucast unsigned_ucast_eq take_bit_int_eq_self)
  then have "sint (ucast x :: u32) = signed_take_bit 31 (uint x)" by (simp add: sint_uint)
  also have "\<dots> = uint x" by (rule signed_take_bit_int_eq_self; use x in linarith)
  finally show ?thesis by simp
qed

section \<open>Properties\<close>



text \<open>
  C22: \<open>addEvent\<close> with a callback, for a descriptor inside the table. If the kernel refuses, it returns
  \<open>-1\<close> and nothing else changes; if the event is registered already, the error is logged, the
  kernel is asked again and the process then aborts on the assertion; otherwise the event's bit
  is set, its context holds the callback and the caller's scheduler, the pending count goes up by
  one and the invariant holds.
\<close>

theorem addEvent_outcome:
  fixes ctl :: "'k epoll_ctl"
  assumes inv: "io_inv s w" and io: "ioms w s = Some io" "writer (m_mutex io) = None"
    and i: "fd_index fd < length (m_fdContext io)" and c: "fd_ctx_at s (fd_index fd) w = Inr c"
    and ev: "event \<in> {READ, WRITE}"
  defines "op \<equiv> (if ctx_events c \<noteq> 0 then EPOLL_CTL_MOD else EPOLL_CTL_ADD)"
  defines "res \<equiv> ctl s op fd (EPOLLET OR ctx_events c OR event) (kernel w)"
  shows "if fst res \<noteq> 0 then addEvent ctl t s fd event (Some b) w = Inr (-1, w\<lparr>kernel := snd res\<rparr>)
    else if ctx_events c AND event \<noteq> 0
      then addEvent ctl t s fd event (Some b) w = Inl (AssertFail ''!scheduler && !fiber && !cb'')
    else \<exists>w' c'. addEvent ctl t s fd event (Some b) w = Inr (0, w') \<and> io_inv s w'
      \<and> kernel w' = snd res \<and> pending_of s w' = map_option (\<lambda>n. n + 1) (pending_of s w)
      \<and> fd_ctx_at s (fd_index fd) w' = Inr c' \<and> ctx_events c' = ctx_events c OR event
      \<and> getContext event c' = Inr \<lparr>ec_scheduler = t_scheduler w t, ec_fiber = None, ec_cb = Some b\<rparr>"
proof -
  have find: "addEvent_find t s fd w = Inr w" by (rule addEvent_find_there [OF io i])
  let ?w2 = "w\<lparr>kernel := snd res\<rparr>"
  have c2: "fd_ctx_at s (fd_index fd) ?w2 = Inr c"
    using c by (simp add: fd_ctx_at_frame [of ?w2 w])
  have run: "addEvent ctl t s fd event (Some b) w = (if fst res \<noteq> 0 then Inr (-1, ?w2)
      else and_then (addEvent_arm t s (fd_index fd) event (Some b) c ?w2) (\<lambda>w3. Inr (0, w3)))"
    using find c by (simp add: addEvent_def res_def op_def Let_def case_prod_beta)
  note ok = io_inv_ctx(1) [OF inv c]
  let ?c1 = "c\<lparr>ctx_events := ctx_events c OR event\<rparr>"
  obtain ec where ec: "getContext event ?c1 = Inr ec" using ev unfolding getContext_def by (cases "event = READ") auto
  note old = getContext_armed(3) [OF ok ec]
  show ?thesis
  proof (cases "fst res \<noteq> 0")
    case True
    then show ?thesis using run by simp
  next
    case ret: False
    show ?thesis
    proof (cases "ctx_events c AND event \<noteq> 0")
      case True
      with old have "\<not> (ec_scheduler ec = None \<and> ec_fiber ec = None \<and> ec_cb ec = None)"
        by (auto simp: armed_def)
      then show ?thesis using run ret True ec by (simp add: addEvent_arm_def Let_def ddg_assert_def)
    next
      case False
      with old have "ec = no_event" by simp
      define ec1 where "ec1 = \<lparr>ec_scheduler = t_scheduler w t, ec_fiber = None, ec_cb = Some b\<rparr>"
      let ?w' = "set_fd_ctx s (fd_index fd) (putContext event ec1 ?c1) (upd_pending (\<lambda>n. n + 1) s ?w2)"
      have arm: "addEvent_arm t s (fd_index fd) event (Some b) c ?w2 = Inr ?w'"
        using ec \<open>ec = no_event\<close>
        by (simp add: addEvent_arm_def Let_def no_event_def ec1_def upd_pending_def)
      have "fd_ctx_at s (fd_index fd) (upd_pending (\<lambda>n. n + 1) s ?w2) = Inr c"
        using c2 by (simp add: fd_ctx_at_frame [of "upd_pending (\<lambda>n. n + 1) s ?w2" ?w2])
      then have "fd_ctx_at s (fd_index fd) ?w' = Inr (putContext event ec1 ?c1)" by simp
      moreover have "getContext event (putContext event ec1 ?c1) = Inr ec1"
        using ev by (intro getContext_put) simp
      moreover have "kernel ?w' = snd res" by (simp add: set_fd_ctx_def)
      moreover have "io_inv s ?w'"
        using addEvent_arm_inv [OF _ c2 arm] inv by simp
      ultimately show ?thesis
        using run ret False arm by (simp add: ec1_def)
    qed
  qed
qed

theorem addEvent_outcome_witness:
  "\<exists>w' c'. addEvent table_ctl 7 0 5 READ (Some BReturn) (io_example (ctx5 no_event (waiting BReturn) WRITE) 1) = Inr (0, w')
    \<and> fd_ctx_at 0 5 w' = Inr c' \<and> ctx_events c' = WRITE OR READ
    \<and> getContext READ c' = Inr (waiting BReturn)"
proof -
  let ?c = "ctx5 no_event (waiting BReturn) WRITE"
  have "io_inv 0 (io_example ?c 1)"
    using io_example_inv [of ?c] by (simp add: ctx5_def ctx_ok_def armed_count_def armed_def waiting_def valid_mask_def event_consts)
  from addEvent_outcome [OF this, of _ 5 ?c READ table_ctl 7 BReturn] show ?thesis
    by (simp add: ctx5_def waiting_def rw_free_def event_consts table_ctl_def) blast
qed



text \<open>
  Growing the table. For a descriptor beyond the table \<open>addEvent\<close> makes it large enough, but the
  write guard never gives the lock back: from then on every lookup of another thread blocks.
\<close>

theorem growing_keeps_the_write_lock:
  assumes io: "ioms w s = Some io" "m_mutex io = rw_free" "table_ok (m_fdContext io)"
    and fd: "length (m_fdContext io) \<le> fd_index fd" "0 \<le> sint fd" and u: "u \<noteq> t"
  shows "\<exists>w1 io1. addEvent_find t s fd w = Inr w1 \<and> ioms w1 s = Some io1
    \<and> fd_index fd < length (m_fdContext io1) \<and> writer (m_mutex io1) = Some t
    \<and> addEvent_find u s fd' w1 = Inl Blocked \<and> find_ctx u s fd' w1 = Inl Blocked"
proof -
  let ?io1 = "io\<lparr>m_mutex := rw_free\<lparr>writer := Some t\<rparr>, m_fdContext := contextResize (nat (3 * sint fd div 2)) (m_fdContext io)\<rparr>"
  let ?w1 = "upd_io s (\<lambda>io. io\<lparr>m_mutex := rw_free\<lparr>writer := Some t\<rparr>,
      m_fdContext := contextResize (nat (3 * sint fd div 2)) (m_fdContext io)\<rparr>) w"
  have two: "2 \<le> fd_index fd" using fd io(3) by (simp add: table_ok_def)
  note lt = fd_index_lt_grown [OF fd(2) two]
  have "length (contextResize (nat (3 * sint fd div 2)) (m_fdContext io)) = nat (3 * sint fd div 2)"
    using contextResize_grow [OF _ io(3)] fd lt by simp
  moreover have "addEvent_find t s fd w = Inr ?w1"
    using io fd by (simp add: addEvent_find_def io_at_def read_scope_free write_scope_free rw_free_def)
  moreover have io1: "ioms ?w1 s = Some ?io1" using io(1) by simp
  have "read_scope u (m_mutex ?io1) = Inl Blocked" using u by (simp add: read_scope_other)
  then have "addEvent_find u s fd' ?w1 = Inl Blocked" "find_ctx u s fd' ?w1 = Inl Blocked"
    unfolding addEvent_find_def find_ctx_def io_at_def io1 by simp_all
  ultimately show ?thesis
    using lt io1 by (intro exI [of _ ?w1] exI [of _ ?io1] conjI) simp_all
qed

theorem growing_keeps_the_write_lock_witness:
  "\<exists>w1. addEvent_find 7 0 40 (io_example (FdContext 5) 0) = Inr w1 \<and> find_ctx 8 0 5 w1 = Inl Blocked"
proof -
  have "table_ok ((map (\<lambda>i. Some (FdContext i)) [0..<32])[5 := Some (FdContext 5)])"
    by (rule table_ok_update) (simp_all add: table_ok_def)
  then show ?thesis
    using growing_keeps_the_write_lock [of "io_example (FdContext 5) 0" 0 _ 40 8 7 5]
    by (simp add: fd_index_def) blast
qed

text \<open>
  A reader and a writer on one descriptor. When the read event is delivered, the idle loop gives
  \<open>EPOLL_CTL_MOD\<close> the delivered events instead of the ones that are left: the writer's context is
  still armed, but the kernel's interest mask no longer contains \<open>EPOLLOUT\<close>.
\<close>

theorem read_event_drops_write_interest:
  assumes inv: "io_inv s w" and c: "fd_ctx_at s i w = Inr c" "ctx_events c = READ OR WRITE" and ev: "ev_data ev = EvCtx i"
    and m: "ev_events ev AND EPOLLIN \<noteq> 0" "ev_events ev AND EPOLLOUT = 0"
    and ctl: "epoll_mod_sets ctl interest" "\<forall>m. fst (ctl s EPOLL_CTL_MOD (ctx_fd c) m (kernel w)) = 0"
    and r: "handle_event ctl s ev w = Inr w'"
  shows "(\<exists>c'. fd_ctx_at s i w' = Inr c' \<and> ctx_events c' = WRITE \<and> ctx_write c' = ctx_write c)
    \<and> (\<exists>m'. interest s (ctx_fd c) (kernel w') = Some m' \<and> m' AND EPOLLOUT = 0)"
proof -
  define evs where "evs = widen_events (READ OR WRITE) (ev_events ev)"
  have out: "evs AND EPOLLOUT = 0" and real: "real_events evs = READ"
    using mask_with_both [OF m] by (simp_all add: evs_def)
  define k where "k = snd (ctl s EPOLL_CTL_MOD (ctx_fd c) evs (kernel w))"
  have "rearm_and_fire ctl s i c evs READ w = fire_real s i READ (w\<lparr>kernel := k\<rparr>)"
    using ctl(2) c(2) by (simp add: rearm_and_fire_def Let_def case_prod_beta event_consts k_def)
  moreover have "handle_event ctl s ev w = rearm_and_fire ctl s i c evs READ w"
    using c ev real by (simp add: handle_event_def evs_def)
  ultimately have f: "fire s i READ (w\<lparr>kernel := k\<rparr>) = Inr w'"
    using r by (simp add: fire_real_def event_consts)
  have "interest s (ctx_fd c) k = Some evs"
    using ctl by (simp add: epoll_mod_sets_def k_def)
  with fire_read_keeps_write [of s "w\<lparr>kernel := k\<rparr>" i c w'] f inv c out show ?thesis
    by (simp add: fd_ctx_at_frame [of "w\<lparr>kernel := k\<rparr>" w])
qed

theorem read_event_drops_write_interest_witness:
  "\<exists>w' m. handle_event table_ctl 0 \<lparr>ev_events = EPOLLIN, ev_data = EvCtx 5\<rparr>
        (io_example (ctx5 (waiting BReturn) (waiting BThrow) (READ OR WRITE)) 2) = Inr w'
    \<and> kernel w' (0, 5) = Some m \<and> m AND EPOLLOUT = 0"
proof -
  let ?c = "ctx5 (waiting BReturn) (waiting BThrow) (READ OR WRITE)"
  let ?ev = "\<lparr>ev_events = EPOLLIN, ev_data = EvCtx 5\<rparr>"
  have inv: "io_inv 0 (io_example ?c 2)"
    using io_example_inv [of ?c] by (simp add: ctx5_def ctx_ok_def armed_count_def armed_def waiting_def valid_mask_def event_consts)
  obtain w' where w': "handle_event table_ctl 0 ?ev (io_example ?c 2) = Inr w'"
    by (simp add: handle_event_def rearm_and_fire_def real_events_def widen_events_def table_ctl_def fire_real_def
      fire_def triggerEvent_def getContext_def ctx5_def waiting_def event_consts Let_def case_prod_beta
      fd_ctx_at_frame [of "io_example c n\<lparr>kernel := k\<rparr>" "io_example c n" for c n k] sched_at_Some)
  show ?thesis
    using read_event_drops_write_interest [OF inv io_example_ctx _ _ _ _ table_ctl_mod _ w'] w'
    by (simp add: ctx5_def event_consts table_ctl_def)
qed

text \<open>
  Cancelling one of two events. \<open>cancelEvent\<close> stores the operation code in the event mask, so
  after the reader is cancelled the kernel's interest mask is the number of \<open>EPOLL_CTL_MOD\<close>, in
  which \<open>EPOLLOUT\<close> is not set, while the writer's context is still armed.
\<close>

theorem cancel_drops_other_interest:
  assumes inv: "io_inv s w" and io: "ioms w s = Some io" "writer (m_mutex io) = None"
    and c: "fd_ctx_at s (fd_index fd) w = Inr c" "ctx_events c = READ OR WRITE"
    and ctl: "epoll_mod_sets ctl interest" "\<forall>m. fst (ctl s EPOLL_CTL_MOD fd m (kernel w)) = 0"
    and r: "cancelEvent ctl t s fd READ w = Inr (b, w')"
  shows "b \<and> (\<exists>c'. fd_ctx_at s (fd_index fd) w' = Inr c' \<and> ctx_events c' = WRITE \<and> ctx_write c' = ctx_write c)
    \<and> interest s fd (kernel w') = Some EPOLL_CTL_MOD \<and> EPOLL_CTL_MOD AND EPOLLOUT = 0"
proof -
  define k where "k = snd (ctl s EPOLL_CTL_MOD fd EPOLL_CTL_MOD (kernel w))"
  have "b \<and> fire s (fd_index fd) READ (w\<lparr>kernel := k\<rparr>) = Inr w'"
    using r ctl(2) c(2) find_ctx_there [OF io c(1)]
    by (simp add: cancelEvent_def Let_def case_prod_beta event_consts k_def)
  moreover have "interest s fd k = Some EPOLL_CTL_MOD"
    using ctl by (simp add: epoll_mod_sets_def k_def)
  ultimately show ?thesis
    using fire_read_keeps_write [of s "w\<lparr>kernel := k\<rparr>" "fd_index fd" c w'] inv c
    by (simp add: fd_ctx_at_frame [of "w\<lparr>kernel := k\<rparr>" w] event_consts)
qed

theorem cancel_drops_other_interest_witness:
  "\<exists>w'. cancelEvent table_ctl 7 0 5 READ (io_example (ctx5 (waiting BReturn) (waiting BThrow) (READ OR WRITE)) 2) = Inr (True, w')
    \<and> kernel w' (0, 5) = Some EPOLL_CTL_MOD"
proof -
  let ?c = "ctx5 (waiting BReturn) (waiting BThrow) (READ OR WRITE)"
  let ?w = "io_example ?c 2"
  have inv: "io_inv 0 ?w"
    using io_example_inv [of ?c] by (simp add: ctx5_def ctx_ok_def armed_count_def armed_def waiting_def valid_mask_def event_consts)
  have io: "\<exists>io. ioms ?w 0 = Some io \<and> writer (m_mutex io) = None" by (simp add: rw_free_def)
  then obtain io where io: "ioms ?w 0 = Some io" "writer (m_mutex io) = None" by blast
  have c: "fd_ctx_at 0 (fd_index 5) ?w = Inr ?c" by simp
  obtain b w' where w': "cancelEvent table_ctl 7 0 5 READ ?w = Inr (b, w')"
    using find_ctx_there [OF io c, of 7]
    by (simp add: cancelEvent_def table_ctl_def fire_def triggerEvent_def getContext_def ctx5_def waiting_def
      event_consts Let_def case_prod_beta
      fd_ctx_at_frame [of "io_example c n\<lparr>kernel := k\<rparr>" "io_example c n" for c n k] sched_at_Some)
  show ?thesis
    using cancel_drops_other_interest [OF inv io c _ table_ctl_mod _ w'] w'
    by (simp add: ctx5_def event_consts table_ctl_def)
qed

text \<open>
  A hang-up on a descriptor with only a writer. If the kernel reports \<open>EPOLLHUP\<close> together with
  \<open>EPOLLOUT\<close>, the idle loop counts the hang-up as a read event, which nobody registered, and the
  process aborts on the assertion of \<open>triggerEvent\<close>.
\<close>

theorem hangup_on_writer_aborts:
  assumes c: "fd_ctx_at s i w = Inr c" "ctx_events c = WRITE" and ev: "ev_data ev = EvCtx i"
    and m: "ev_events ev AND EPOLLHUP \<noteq> 0" "ev_events ev AND EPOLLOUT \<noteq> 0"
    and ctl: "\<forall>m. fst (ctl s EPOLL_CTL_DEL (ctx_fd c) m (kernel w)) = 0"
  shows "handle_event ctl s ev w = Inl (AssertFail ''events & event'')"
proof -
  have hup: "ev_events ev AND (EPOLLIN OR EPOLLHUP) \<noteq> 0"
    using m(1) and_sub_zero [of "ev_events ev" "EPOLLIN OR EPOLLHUP" EPOLLHUP] by (auto simp: event_consts)
  then have evs: "widen_events (ctx_events c) (ev_events ev) = ev_events ev"
    by (simp add: widen_events_def c(2) event_consts)
  have real: "real_events (ev_events ev) = READ OR WRITE"
    using hup m(2) by (simp add: real_events_def event_consts)
  define k where "k = snd (ctl s EPOLL_CTL_DEL (ctx_fd c) (ev_events ev) (kernel w))"
  have "fire s i READ (w\<lparr>kernel := k\<rparr>) = Inl (AssertFail ''events & event'')"
    by (rule fire_unregistered [of _ _ _ c]) (use c in \<open>simp_all add: fd_ctx_at_frame [of "w\<lparr>kernel := k\<rparr>" w] event_consts\<close>)
  moreover have "rearm_and_fire ctl s i c (ev_events ev) (READ OR WRITE) w = fire_real s i (READ OR WRITE) (w\<lparr>kernel := k\<rparr>)"
    using ctl c(2) by (simp add: rearm_and_fire_def Let_def case_prod_beta event_consts k_def)
  ultimately show ?thesis
    using c(1) ev evs real by (simp add: handle_event_def Let_def fire_real_def event_consts)
qed

theorem hangup_on_writer_aborts_witness:
  "handle_event table_ctl 0 \<lparr>ev_events = EPOLLHUP OR EPOLLOUT, ev_data = EvCtx 5\<rparr>
      (io_example (ctx5 no_event (waiting BReturn) WRITE) 1) = Inl (AssertFail ''events & event'')"
  by (rule hangup_on_writer_aborts [where i = 5 and c = "ctx5 no_event (waiting BReturn) WRITE"])
    (simp_all add: ctx5_def event_consts table_ctl_def)

text \<open>
  When the idle loop ends. It is left only with no timer set, an empty queue, no task held by
  any thread, and no event registered on any descriptor.
\<close>

theorem idle_leaves_when_nothing_waits:
  assumes inv: "io_inv s w" and r: "idle_round ctl s next_timer expired evs w = Inr (True, w')"
    and io: "ioms w s = Some io" "length (m_fdContext io) < 2 ^ 62" and sc: "scheds w s = Some sc"
  shows "w' = w \<and> next_timer = -1 \<and> m_fibers sc = [] \<and> m_activeThreadCount sc = 0
    \<and> (\<forall>i < length (m_fdContext io). \<exists>c. m_fdContext io ! i = Some c \<and> ctx_events c = NONE
        \<and> ctx_read c = no_event \<and> ctx_write c = no_event)"
proof -
  have stop: "w' = w" "isStoped_timeout next_timer sc"
    using r sc by (auto simp: idle_round_def sched_at_Some Let_def split: if_splits)
  have "pending_of s w \<noteq> None" using inv by (auto simp: io_inv_def)
  then obtain p where p: "iom sc = Some p" using sc by (auto simp: pending_of_def)
  then have "pending_of s w = Some 0" using stop(2) sc by (simp add: pending_of_def isStoped_timeout_def isStoped_def)
  from io_inv_none_pending [OF inv io this] stop p show ?thesis
    by (auto simp: isStoped_timeout_def isStoped_def Scheduler_isStoped_def)
qed

theorem idle_leaves_when_nothing_waits_witness:
  "\<exists>(w :: ((sid \<times> u32) \<Rightarrow> u32 option) ioworld) io. idle_round table_ctl 0 (-1) [] [] w = Inr (True, w) \<and> ioms w 0 = Some io
    \<and> (\<forall>i < length (m_fdContext io). \<exists>c. m_fdContext io ! i = Some c \<and> ctx_events c = NONE)"
proof -
  let ?w = "io_example (FdContext 5) 0"
  let ?v = "upd_sched 0 (\<lambda>sc. sc\<lparr>m_autoStop := True, m_stopping := True\<rparr>) ?w"
  have "io_inv 0 ?w" using io_example_inv [of "FdContext 5"] by simp
  then have inv: "io_inv 0 ?v" by (rule io_inv_frame) (simp_all add: pending_upd_sched)
  have r: "idle_round table_ctl 0 (-1) [] [] ?v = Inr (True, ?v)"
    by (simp add: idle_round_def sched_at_Some isStoped_timeout_def isStoped_def Scheduler_isStoped_def)
  obtain io sc where io: "ioms ?v 0 = Some io" "length (m_fdContext io) < 2 ^ 62" and sc: "scheds ?v 0 = Some sc"
    by simp
  from idle_leaves_when_nothing_waits [OF inv r io sc] r io(1) show ?thesis by blast
qed

text \<open>
  C36: the time \<open>epoll_wait\<close> is given is at most 3000 ms, and not negative when no timer is set or the
  next one is less than \<open>2^31\<close> ms away; a timer further away can make it negative, which
  \<open>epoll_wait\<close> takes as no limit at all.
\<close>

theorem wait_timeout_range:
  "wait_timeout next_timeout \<le> 3000
   \<and> (next_timeout = -1 \<or> unat next_timeout < 2 ^ 31 \<longrightarrow> 0 \<le> wait_timeout next_timeout)
   \<and> wait_timeout (2 ^ 31) = - (2 ^ 31)"
proof -
  have m: "sint MAX_TIMEOUT = 3000" "(scast MAX_TIMEOUT :: u64) = 3000" by (simp_all add: MAX_TIMEOUT_def)
  have three: "sint (ucast (3000 :: u64) :: u32) = 3000" by simp
  have "wait_timeout next_timeout \<le> 3000"
    using three by (simp add: wait_timeout_def cap_timeout_def m)
  moreover have "0 \<le> wait_timeout next_timeout" if "next_timeout = -1 \<or> unat next_timeout < 2 ^ 31"
    using that three sint_small [of next_timeout] by (auto simp: wait_timeout_def cap_timeout_def m)
  moreover have "wait_timeout (2 ^ 31) = - (2 ^ 31)"
    by (simp add: wait_timeout_def cap_timeout_def m)
  ultimately show ?thesis by blast
qed

theorem wait_timeout_range_witness:
  "0 \<le> wait_timeout 5000 \<and> wait_timeout (-1) = 3000"
proof
  have "(5000 :: u64) = -1 \<or> unat (5000 :: u64) < 2 ^ 31" by simp
  then show "0 \<le> wait_timeout 5000" using wait_timeout_range [of 5000] by blast
  show "wait_timeout (-1) = 3000" by (simp add: wait_timeout_def cap_timeout_def MAX_TIMEOUT_def)
qed

end
