(* ===== verification/IORefine.thy ===== *)
theory IORefine
  imports IOManager
begin

unbundle bit_operations_syntax

text \<open>
  What an \<open>IOManager\<close> promises, without masks, contexts and counts: a map from a descriptor and an
  event to the scheduler and the task that wait for it, next to the queues of the schedulers.
  Registering enters a task, cancelling or delivering an event moves its task to the end of the
  queue of its scheduler, deleting drops it. The operations of \<open>IOManager\<close> refine this.
\<close>

section \<open>The specification\<close>

type_synonym io_key = "nat \<times> u32"

record io_spec =
  registered :: "io_key \<Rightarrow> (sid option \<times> task) option"
  queued :: "sid \<Rightarrow> task list option"

definition spec_add :: "io_key \<Rightarrow> sid option \<times> task \<Rightarrow> io_spec \<Rightarrow> io_spec option" where
  "spec_add k r a = (if registered a k = None then Some (a\<lparr>registered := (registered a)(k \<mapsto> r)\<rparr>) else None)"

definition spec_del :: "io_key \<Rightarrow> io_spec \<Rightarrow> io_spec option" where
  "spec_del k a = (if registered a k = None then None else Some (a\<lparr>registered := (registered a)(k := None)\<rparr>))"

definition enqueue :: "sid \<Rightarrow> task list \<Rightarrow> io_spec \<Rightarrow> io_spec" where
  "enqueue s fts a = a\<lparr>queued := (queued a)(s := map_option (\<lambda>q. q @ fts) (queued a s))\<rparr>"

definition spec_fire :: "io_key \<Rightarrow> io_spec \<Rightarrow> io_spec option" where
  "spec_fire k a = (case registered a k of
     Some (Some s, ft) \<Rightarrow>
       if queued a s = None then None
       else Some (enqueue s [ft] (a\<lparr>registered := (registered a)(k := None)\<rparr>))
   | _ \<Rightarrow> None)"

fun spec_fires :: "io_key list \<Rightarrow> io_spec \<Rightarrow> io_spec option" where
  "spec_fires [] a = Some a"
| "spec_fires (k # ks) a = Option.bind (spec_fire k a) (spec_fires ks)"

text \<open>The events of one descriptor, in the order in which \<open>cancelAll\<close> and \<open>idle\<close> go through them.\<close>

definition events_in :: "nat \<Rightarrow> u32 \<Rightarrow> io_key list" where
  "events_in i m = (if m AND READ \<noteq> 0 then [(i, READ)] else []) @ (if m AND WRITE \<noteq> 0 then [(i, WRITE)] else [])"

definition timer_tasks :: "action body option list \<Rightarrow> task list" where
  "timer_tasks cbs = map (\<lambda>cb. FiberAndThread_cb cb 0) (filter (\<lambda>cb. cb \<noteq> None) cbs)"

section \<open>The abstraction\<close>

definition ctx_regs :: "fd_context \<Rightarrow> u32 \<Rightarrow> (sid option \<times> task) option" where
  "ctx_regs c e =
     (if ctx_events c AND e = 0 then None
      else if e = READ then Some (ec_scheduler (ctx_read c), event_task (ctx_read c))
      else if e = WRITE then Some (ec_scheduler (ctx_write c), event_task (ctx_write c))
      else None)"

definition regs_of :: "sid \<Rightarrow> ('k, 'z) ioworld_scheme \<Rightarrow> io_key \<Rightarrow> (sid option \<times> task) option" where
  "regs_of s w k = (case fd_ctx_at s (fst k) w of Inl _ \<Rightarrow> None | Inr c \<Rightarrow> ctx_regs c (snd k))"

definition queues :: "'z sworld_scheme \<Rightarrow> sid \<Rightarrow> task list option" where
  "queues w s = map_option m_fibers (scheds w s)"

definition io_abs :: "sid \<Rightarrow> ('k, 'z) ioworld_scheme \<Rightarrow> io_spec" where
  "io_abs s w = \<lparr>registered = regs_of s w, queued = queues w\<rparr>"

lemma io_abs_simps [simp]: "registered (io_abs s w) = regs_of s w" "queued (io_abs s w) = queues w"
  by (simp_all add: io_abs_def)

lemma io_abs_frame: "ioms w' = ioms w \<Longrightarrow> scheds w' = scheds w \<Longrightarrow> io_abs s w' = io_abs s w"
  by (simp add: io_abs_def regs_of_def queues_def fun_eq_iff fd_ctx_at_frame [of w' w])

lemma ctx_regs_set:
  assumes "ctx_ok c" "event = READ \<or> event = WRITE" "ctx_events c AND event = 0"
  shows "ctx_regs (putContext event ec (c\<lparr>ctx_events := ctx_events c OR event\<rparr>)) = (ctx_regs c)(event \<mapsto> (ec_scheduler ec, event_task ec))"
    and "ctx_regs c event = None"
proof -
  from assms(1) have "valid_mask (ctx_events c)" by (simp add: ctx_ok_def)
  from mask_cases [OF this] assms(2,3)
  show "ctx_regs (putContext event ec (c\<lparr>ctx_events := ctx_events c OR event\<rparr>)) = (ctx_regs c)(event \<mapsto> (ec_scheduler ec, event_task ec))"
    by (elim disjE) (auto simp: fun_eq_iff ctx_regs_def putContext_def event_consts)
  show "ctx_regs c event = None" using assms(3) by (simp add: ctx_regs_def)
qed

lemma ctx_regs_clear:
  assumes "ctx_ok c" "event = READ \<or> event = WRITE" "ctx_events c AND event \<noteq> 0"
  shows "ctx_regs (putContext event no_event (c\<lparr>ctx_events := ctx_events c AND NOT event\<rparr>)) = (ctx_regs c)(event := None)"
    and "ctx_regs c event = Some (ec_scheduler (if event = READ then ctx_read c else ctx_write c),
           event_task (if event = READ then ctx_read c else ctx_write c))"
proof -
  from assms(1) have "valid_mask (ctx_events c)" by (simp add: ctx_ok_def)
  from mask_cases [OF this] assms(2,3)
  show "ctx_regs (putContext event no_event (c\<lparr>ctx_events := ctx_events c AND NOT event\<rparr>)) = (ctx_regs c)(event := None)"
    by (elim disjE) (auto simp: fun_eq_iff ctx_regs_def putContext_def event_consts)
  show "ctx_regs c event = Some (ec_scheduler (if event = READ then ctx_read c else ctx_write c),
      event_task (if event = READ then ctx_read c else ctx_write c))"
    using assms(2,3) by (auto simp: ctx_regs_def)
qed

lemma regs_of_set:
  assumes "fd_ctx_at s i w = Inr c" "ctx_regs c' = (ctx_regs c)(e := r)"
  shows "regs_of s (set_fd_ctx s i c' w) = (regs_of s w)((i, e) := r)"
proof
  fix k :: io_key
  have other: "fd_ctx_at s j (set_fd_ctx s i c' w) = fd_ctx_at s j w" if "j \<noteq> i" for j
    using that assms(1) by (auto simp: fd_ctx_at_def io_at_def set_fd_ctx_def upd_io_def split: option.splits)
  show "regs_of s (set_fd_ctx s i c' w) k = ((regs_of s w)((i, e) := r)) k"
    using assms other [of "fst k"] by (cases k; cases "fst k = i") (auto simp: regs_of_def)
qed

lemma regs_of_frame: "ioms w' = ioms w \<Longrightarrow> regs_of s w' = regs_of s w"
  by (simp add: regs_of_def fun_eq_iff fd_ctx_at_frame [of w' w])

lemma queues_frame [simp]: "queues (set_fd_ctx s i c w) = queues w" "queues (upd_pending h s w) = queues w"
  "queues (upd_io s g w) = queues w" "queues (w\<lparr>kernel := k\<rparr>) = queues w"
  by (simp_all add: queues_def fun_eq_iff set_fd_ctx_def upd_pending_def option.map_comp comp_def)

lemma queues_schedule_ft:
  "ft_fiber ft \<noteq> None \<or> ft_cb ft \<noteq> None \<Longrightarrow>
    queues (upd_sched s (schedule_ft ft) w) = (queues w)(s := map_option (\<lambda>q. q @ [ft]) (queues w s))"
  by (auto simp: queues_def fun_eq_iff upd_sched_def schedule_ft_fibers option.map_comp comp_def)

lemma io_abs_kernel [simp]: "io_abs s (w\<lparr>kernel := k\<rparr>) = io_abs s w"
  by (rule io_abs_frame) simp_all

lemma io_abs_lock [simp]: "io_abs s (upd_io s (\<lambda>io. io\<lparr>m_mutex := l\<rparr>) w) = io_abs s w"
proof -
  have "fd_ctx_at s i (upd_io s (\<lambda>io. io\<lparr>m_mutex := l\<rparr>) w) = fd_ctx_at s i w" for i
    by (cases "ioms w s") (simp_all add: fd_ctx_at_def io_at_def)
  then show ?thesis by (simp add: io_abs_def regs_of_def fun_eq_iff)
qed

lemma armed_task: "armed ec \<Longrightarrow> ft_fiber (event_task ec) \<noteq> None \<or> ft_cb (event_task ec) \<noteq> None"
  by (auto simp: armed_def event_task_def FiberAndThread_cb_def FiberAndThread_fiber_def)

section \<open>Firing\<close>

lemma fire_refines:
  assumes inv: "io_inv s w" and r: "fire s i event w = Inr w'"
  shows "spec_fire (i, event) (io_abs s w) = Some (io_abs s w')"
proof -
  obtain c c1 w1 where c: "fd_ctx_at s i w = Inr c" and tr: "triggerEvent event c w = Inr (c1, w1)"
    and w': "w' = upd_pending (\<lambda>n. n - 1) s (set_fd_ctx s i c1 w1)"
    using r by (auto simp: fire_def)
  note ok = io_inv_ctx(1) [OF inv c]
  note t = triggerEvent_result [OF tr ok]
  define ec where "ec = (if event = READ then ctx_read c else ctx_write c)"
  obtain s' where s': "ec_scheduler ec = Some s'" "scheds w s' \<noteq> None" and w1: "w1 = upd_sched s' (schedule_ft (event_task ec)) w"
    using t(4) unfolding ec_def [symmetric] by blast
  have arm: "armed ec" using ok t(1,2) by (auto simp: ctx_ok_def ec_def event_consts)
  have reg: "regs_of s w (i, event) = Some (Some s', event_task ec)"
    using ctx_regs_clear(2) [OF ok t(1,2)] c s'(1) by (simp add: regs_of_def ec_def)
  have "fd_ctx_at s i w1 = Inr c" using c by (simp add: w1 fd_ctx_at_frame [of "upd_sched s' (schedule_ft (event_task ec)) w" w])
  from regs_of_set [OF this, of c1 event None] ctx_regs_clear(1) [OF ok t(1,2)]
  have "regs_of s (set_fd_ctx s i c1 w1) = (regs_of s w1)((i, event) := None)" by (simp add: t(3))
  moreover have "regs_of s w1 = regs_of s w" "regs_of s w' = regs_of s (set_fd_ctx s i c1 w1)"
    by (simp add: w1, rule regs_of_frame, simp) (simp add: w', rule regs_of_frame, simp)
  moreover have "queues w' = (queues w)(s' := map_option (\<lambda>q. q @ [event_task ec]) (queues w s'))"
    using queues_schedule_ft [OF armed_task [OF arm], of s' w] by (simp add: w' w1)
  ultimately show ?thesis
    using reg s'(2) by (simp add: spec_fire_def io_abs_def enqueue_def queues_def)
qed

lemma spec_fires_append: "spec_fires (ks @ ks') a = Option.bind (spec_fires ks a) (spec_fires ks')"
proof (induction ks arbitrary: a)
  case (Cons k ks)
  then show ?case by (cases "spec_fire k a") simp_all
qed simp

lemma fire_real_refines:
  assumes inv: "io_inv s w" and r: "fire_real s i real w = Inr w'"
  shows "spec_fires (events_in i real) (io_abs s w) = Some (io_abs s w')"
proof -
  obtain w1 where 1: "(if real AND READ \<noteq> 0 then fire s i READ w else Inr w) = Inr w1"
    "(if real AND WRITE \<noteq> 0 then fire s i WRITE w1 else Inr w1) = Inr w'"
    using r by (auto simp: fire_real_def)
  have inv1: "io_inv s w1" using 1(1) inv fire_inv [OF inv] by (simp split: if_splits)
  have "spec_fires (if real AND READ \<noteq> 0 then [(i, READ)] else []) (io_abs s w) = Some (io_abs s w1)"
    using 1(1) fire_refines [OF inv] by (simp split: if_splits)
  moreover have "spec_fires (if real AND WRITE \<noteq> 0 then [(i, WRITE)] else []) (io_abs s w1) = Some (io_abs s w')"
    using 1(2) fire_refines [OF inv1] by (simp split: if_splits)
  ultimately show ?thesis by (simp add: events_in_def spec_fires_append)
qed

text \<open>What firing does to the map: the keys were entered, each is fired once, and then they are gone.\<close>

lemma spec_fire_registered:
  "spec_fire k a = Some a' \<Longrightarrow> registered a' = (registered a)(k := None) \<and> registered a k \<noteq> None"
  by (auto simp: spec_fire_def enqueue_def split: option.splits if_splits)

lemma spec_fires_registered:
  "spec_fires ks a = Some a' \<Longrightarrow> distinct ks \<and> (\<forall>k \<in> set ks. registered a k \<noteq> None)
     \<and> (\<forall>k. registered a' k = (if k \<in> set ks then None else registered a k))"
proof (induction ks arbitrary: a)
  case (Cons k ks)
  then obtain a1 where a1: "spec_fire k a = Some a1" "spec_fires ks a1 = Some a'" by (auto simp: bind_eq_Some_conv)
  from spec_fire_registered [OF a1(1)] Cons.IH [OF a1(2)] show ?case by (auto split: if_splits)
qed simp

lemma spec_fires_other: "spec_fires ks a = Some a' \<Longrightarrow> k \<notin> set ks \<Longrightarrow> registered a' k = registered a k"
  using spec_fires_registered [of ks a a'] by (cases k) simp

section \<open>The operations\<close>

lemma find_ctx_abs: "find_ctx t s fd w = Inr (found, w1) \<Longrightarrow> io_abs s w1 = io_abs s w"
  by (drule find_ctx_result(1)) auto

lemma events_in_2:
  "events_in i READ = [(i, READ)]" "events_in i WRITE = [(i, WRITE)]"
  by (simp_all add: events_in_def event_consts)

lemma cancelEvent_refines:
  assumes inv: "io_inv s w" and r: "cancelEvent ctl t s fd event w = Inr (b, w')"
  shows "if b then spec_fire (fd_index fd, event) (io_abs s w) = Some (io_abs s w') else io_abs s w' = io_abs s w"
proof -
  obtain found w1 where f: "find_ctx t s fd w = Inr (found, w1)" using r by (auto simp: cancelEvent_def)
  have k: "io_inv s (w1\<lparr>kernel := k\<rparr>)" for k using find_ctx_inv [OF inv f] by simp
  show ?thesis
    using r f find_ctx_abs [OF f]
    by (auto simp: cancelEvent_def Let_def case_prod_beta split: option.splits if_splits dest!: fire_refines [OF k])
qed

lemma delEvent_refines:
  assumes inv: "io_inv s w" and r: "delEvent ctl t s fd event w = Inr (b, w')"
  shows "if b then spec_del (fd_index fd, event) (io_abs s w) = Some (io_abs s w') else io_abs s w' = io_abs s w"
proof -
  obtain found w1 where f: "find_ctx t s fd w = Inr (found, w1)" using r by (auto simp: delEvent_def)
  note inv1 = find_ctx_inv [OF inv f] and a = find_ctx_abs [OF f]
  show ?thesis
  proof (cases "b")
    case False
    then show ?thesis
      using r f a by (auto simp: delEvent_def Let_def case_prod_beta split: option.splits if_splits)
  next
    case True
    then obtain c where found: "found = Some c" using r f by (auto simp: delEvent_def split: option.splits)
    let ?i = "fd_index fd" and ?c1 = "c\<lparr>ctx_events := ctx_events c AND NOT event\<rparr>"
    obtain k ec where on: "ctx_events c AND event \<noteq> 0" and ec: "getContext event ?c1 = Inr ec"
      and w': "w' = set_fd_ctx s ?i (putContext event no_event ?c1) (upd_pending (\<lambda>n. n - 1) s (w1\<lparr>kernel := k\<rparr>))"
      using r f True found by (auto simp: delEvent_def Let_def case_prod_beta resetContext_eq split: if_splits)
    let ?w2 = "upd_pending (\<lambda>n. n - 1) s (w1\<lparr>kernel := k\<rparr>)"
    have c: "fd_ctx_at s ?i w1 = Inr c" using find_ctx_result(2) [OF f] found by simp
    note ok = io_inv_ctx(1) [OF inv1 c]
    note cl = ctx_regs_clear [OF ok getContext_armed(1) [OF ok ec] on]
    have c2: "fd_ctx_at s ?i ?w2 = Inr c" using c by (simp add: fd_ctx_at_frame [of ?w2 w1])
    have "regs_of s w' = (regs_of s ?w2)((?i, event) := None)"
      unfolding w' by (rule regs_of_set [OF c2 cl(1)])
    moreover have "regs_of s ?w2 = regs_of s w1" by (rule regs_of_frame) simp
    moreover have "regs_of s w1 (?i, event) \<noteq> None" using cl(2) c by (simp add: regs_of_def)
    moreover have "queues w' = queues w1" by (simp add: w')
    ultimately show ?thesis using True a by (simp add: spec_del_def io_abs_def)
  qed
qed

lemma fire_if_refines:
  assumes inv: "io_inv s w" and r: "fire_if s i event w = Inr w'"
  shows "\<exists>c. fd_ctx_at s i w = Inr c \<and>
    spec_fires (if ctx_events c AND event \<noteq> 0 then [(i, event)] else []) (io_abs s w) = Some (io_abs s w')"
  using r fire_refines [OF inv] by (auto simp: fire_if_def)

lemma cancelAll_refines:
  assumes inv: "io_inv s w" and r: "cancelAll ctl t s fd w = Inr (b, w')"
  shows "if b then spec_fires (filter (\<lambda>k. registered (io_abs s w) k \<noteq> None) [(fd_index fd, READ), (fd_index fd, WRITE)]) (io_abs s w)
                = Some (io_abs s w') \<and> (\<forall>e. registered (io_abs s w') (fd_index fd, e) = None)
         else io_abs s w' = io_abs s w"
proof -
  let ?i = "fd_index fd"
  obtain found w1 where f: "find_ctx t s fd w = Inr (found, w1)" using r by (auto simp: cancelAll_def)
  note inv1 = find_ctx_inv [OF inv f] and a = find_ctx_abs [OF f]
  show ?thesis
  proof (cases "b")
    case False
    then show ?thesis
      using r f a by (auto simp: cancelAll_def Let_def case_prod_beta split: option.splits if_splits)
  next
    case True
    then obtain c where found: "found = Some c" using r f by (auto simp: cancelAll_def split: option.splits)
    then have c: "fd_ctx_at s ?i w1 = Inr c" using find_ctx_result(2) [OF f] by simp
    obtain k w3 c4 where w3: "fire_if s ?i READ (w1\<lparr>kernel := k\<rparr>) = Inr w3" and w4: "fire_if s ?i WRITE w3 = Inr w'"
      and c4: "fd_ctx_at s ?i w' = Inr c4" "ctx_events c4 = 0"
      using r f True found by (auto simp: cancelAll_def Let_def case_prod_beta ddg_assert_def split: if_splits)
    have inv2: "io_inv s (w1\<lparr>kernel := k\<rparr>)" using inv1 by simp
    have inv3: "io_inv s w3" by (rule fire_if_inv [OF inv2 w3])
    let ?r = "if ctx_events c AND READ \<noteq> 0 then [(?i, READ)] else []"
    have 1: "spec_fires ?r (io_abs s w) = Some (io_abs s w3)"
      using fire_if_refines [OF inv2 w3] c a by (simp add: fd_ctx_at_frame [of "w1\<lparr>kernel := k\<rparr>" w1])
    obtain c3 where c3: "fd_ctx_at s ?i w3 = Inr c3"
      and 2: "spec_fires (if ctx_events c3 AND WRITE \<noteq> 0 then [(?i, WRITE)] else []) (io_abs s w3) = Some (io_abs s w')"
      using fire_if_refines [OF inv3 w4] by blast
    have reg: "registered (io_abs s w) (?i, e) \<noteq> None \<longleftrightarrow> ctx_events c AND e \<noteq> 0" if "e = READ \<or> e = WRITE" for e
      using that c unfolding a [symmetric] by (auto simp: regs_of_def ctx_regs_def)
    have reg3: "registered (io_abs s w3) (?i, WRITE) \<noteq> None \<longleftrightarrow> ctx_events c3 AND WRITE \<noteq> 0"
      using c3 by (auto simp: regs_of_def ctx_regs_def)
    have "registered (io_abs s w3) (?i, WRITE) = registered (io_abs s w) (?i, WRITE)"
      by (rule spec_fires_other [OF 1]) (simp add: event_consts)
    then have "(ctx_events c3 AND WRITE \<noteq> 0) = (ctx_events c AND WRITE \<noteq> 0)"
      using reg3 reg [of WRITE] by simp
    then have "spec_fires (?r @ (if ctx_events c AND WRITE \<noteq> 0 then [(?i, WRITE)] else [])) (io_abs s w) = Some (io_abs s w')"
      using 1 2 unfolding spec_fires_append by simp
    moreover have "filter (\<lambda>k. registered (io_abs s w) k \<noteq> None) [(?i, READ), (?i, WRITE)] = ?r @ (if ctx_events c AND WRITE \<noteq> 0 then [(?i, WRITE)] else [])"
      using reg [of READ] reg [of WRITE] by (simp del: io_abs_simps)
    moreover have "registered (io_abs s w') (?i, e) = None" for e
      using c4 by (simp add: regs_of_def ctx_regs_def)
    ultimately show ?thesis using True by (simp del: io_abs_simps filter.simps)
  qed
qed

lemma addEvent_find_abs:
  assumes inv: "io_inv s w" and r: "addEvent_find t s fd w = Inr w1"
  shows "io_abs s w1 = io_abs s w"
proof -
  obtain io l1 where io: "ioms w s = Some io" "table_ok (m_fdContext io)" and l1: "read_scope t (m_mutex io) = Inr l1"
    using inv r by (auto simp: addEvent_find_def io_inv_def io_at_def)
  let ?xs = "m_fdContext io"
  show ?thesis
  proof (cases "length ?xs > fd_index fd")
    case True
    then show ?thesis using r io l1 by (auto simp: addEvent_find_def io_at_def)
  next
    case False
    let ?n = "nat (3 * sint fd div 2)"
    obtain l2 where pos: "0 \<le> sint fd"
      and w1: "w1 = upd_io s (\<lambda>io. io\<lparr>m_mutex := l2, m_fdContext := contextResize ?n (m_fdContext io)\<rparr>) w"
      using r io l1 False by (auto simp: addEvent_find_def io_at_def split: if_splits)
    have n: "length ?xs \<le> ?n" using False fd_index_nonneg [OF pos] io(2) by linarith
    note g = contextResize_grow [OF n io(2)]
    have new: "contextResize ?n ?xs ! i = Some (FdContext i)" if "length ?xs \<le> i" "i < ?n" for i
      using that n by (simp add: contextResize_def nth_append)
    have "regs_of s w1 (i, e) = regs_of s w (i, e)" for i e
    proof (cases "i < length ?xs")
      case True
      then have "fd_ctx_at s i w1 = fd_ctx_at s i w" using g n io(1) by (simp add: fd_ctx_at_def io_at_def w1)
      then show ?thesis by (simp add: regs_of_def)
    next
      case False
      then have "regs_of s w (i, e) = None" using io(1) by (simp add: regs_of_def fd_ctx_at_def io_at_def)
      moreover have "regs_of s w1 (i, e) = None"
        using False g new [of i] io(1) by (cases "i < ?n") (simp_all add: regs_of_def fd_ctx_at_def io_at_def w1 ctx_regs_def FdContext_def NONE_def)
      ultimately show ?thesis by simp
    qed
    moreover have "queues w1 = queues w" by (simp add: w1)
    ultimately show ?thesis by (simp add: io_abs_def fun_eq_iff)
  qed
qed

lemma GetThis_t_fiber: "GetThis t w = Inr (f, w') \<Longrightarrow> t_fiber w' t = Some f"
  by (auto simp: GetThis_def ddg_assert_def Let_def case_prod_beta split: option.splits if_splits)

text \<open>The task of a registration: the callback, or else the fiber that the calling thread runs.\<close>

definition waiter :: "action body option \<Rightarrow> fid option \<Rightarrow> task" where
  "waiter cb f = (case cb of Some b \<Rightarrow> FiberAndThread_cb (Some b) 0 | None \<Rightarrow> FiberAndThread_fiber f 0)"

lemma addEvent_arm_refines:
  assumes inv: "io_inv s w" and c: "fd_ctx_at s i w = Inr c" and r: "addEvent_arm t s i event cb c w = Inr w'"
  shows "spec_add (i, event) (t_scheduler w t, waiter cb (t_fiber w' t)) (io_abs s w) = Some (io_abs s w')"
proof -
  let ?c1 = "c\<lparr>ctx_events := ctx_events c OR event\<rparr>" and ?w1 = "upd_pending (\<lambda>n. n + 1) s w"
  note ok = io_inv_ctx(1) [OF inv c]
  obtain ec where ec: "getContext event ?c1 = Inr ec" "ec_scheduler ec = None" "ec_fiber ec = None" "ec_cb ec = None"
    using r by (auto simp: addEvent_arm_def Let_def)
  have off: "ctx_events c AND event = 0"
    using getContext_armed(3) [OF ok ec(1)] ec by (auto simp: armed_def split: if_splits)
  have ts: "t_scheduler ?w1 t = t_scheduler w t" by (simp add: upd_pending_def)
  have "\<exists>ec1 w1. ec_scheduler ec1 = t_scheduler w t \<and> event_task ec1 = waiter cb (t_fiber w' t)
      \<and> w' = set_fd_ctx s i (putContext event ec1 ?c1) w1 \<and> ioms w1 = ioms w \<and> scheds w1 = scheds ?w1"
  proof (cases cb)
    case (Some b)
    then show ?thesis
      using r ec ts by (intro exI [of _ "ec\<lparr>ec_scheduler := t_scheduler ?w1 t, ec_cb := Some b\<rparr>"] exI [of _ ?w1])
        (auto simp: addEvent_arm_def Let_def event_task_def waiter_def)
  next
    case None
    let ?ec = "\<lambda>f. ec\<lparr>ec_scheduler := t_scheduler ?w1 t, ec_fiber := Some f\<rparr>"
    obtain f w2 where g: "GetThis t ?w1 = Inr (f, w2)" and w': "w' = set_fd_ctx s i (putContext event (?ec f) ?c1) w2"
      using r ec None by (auto simp: addEvent_arm_def Let_def)
    have "t_fiber w' t = Some f" using GetThis_t_fiber [OF g] by (simp add: w' set_fd_ctx_def)
    with ioworld_more [OF GetThis_more [OF g]] show ?thesis
      using w' ec ts None by (intro exI [of _ "?ec f"] exI [of _ w2]) (simp add: event_task_def waiter_def)
  qed
  then obtain ec1 w1 where e: "ec_scheduler ec1 = t_scheduler w t" "event_task ec1 = waiter cb (t_fiber w' t)"
      "w' = set_fd_ctx s i (putContext event ec1 ?c1) w1" "ioms w1 = ioms w" "scheds w1 = scheds ?w1" by blast
  note set = ctx_regs_set [OF ok getContext_armed(1) [OF ok ec(1)] off]
  have "fd_ctx_at s i w1 = Inr c" using c by (simp add: fd_ctx_at_frame [OF e(4)])
  then have "regs_of s w' = (regs_of s w1)((i, event) \<mapsto> (t_scheduler w t, waiter cb (t_fiber w' t)))"
    using set(1) [of ec1] unfolding e(1,2) by (subst e(3), rule regs_of_set)
  moreover have "regs_of s w1 = regs_of s w" by (rule regs_of_frame [OF e(4)])
  moreover have "regs_of s w (i, event) = None" using set(2) c by (simp add: regs_of_def)
  moreover have "queues w1 = queues ?w1" unfolding queues_def e(5) ..
  then have "queues w' = queues w" by (simp add: e(3))
  ultimately show ?thesis by (simp add: spec_add_def io_abs_def)
qed

lemma addEvent_refines:
  assumes inv: "io_inv s w" and r: "addEvent ctl t s fd event cb w = Inr (ret, w')"
  shows "if ret = 0 then spec_add (fd_index fd, event) (t_scheduler w t, waiter cb (t_fiber w' t)) (io_abs s w) = Some (io_abs s w')
         else ret = -1 \<and> io_abs s w' = io_abs s w"
proof -
  obtain w1 c where f: "addEvent_find t s fd w = Inr w1" and c: "fd_ctx_at s (fd_index fd) w1 = Inr c"
    using r by (auto simp: addEvent_def)
  note frame = addEvent_find_result [OF inv f] and a = addEvent_find_abs [OF inv f]
  have k: "io_inv s (w1\<lparr>kernel := k\<rparr>)" "fd_ctx_at s (fd_index fd) (w1\<lparr>kernel := k\<rparr>) = Inr c" for k
    using frame c by (simp_all add: fd_ctx_at_frame [of "w1\<lparr>kernel := k\<rparr>" w1])
  show ?thesis
    using r f c frame a
    by (auto simp: addEvent_def Let_def case_prod_beta split: if_splits dest!: addEvent_arm_refines [OF k])
qed

section \<open>The idle loop\<close>

text \<open>The registrations that a delivered event may fire.\<close>

definition delivered :: "epoll_event list \<Rightarrow> io_key set" where
  "delivered evs = {(i, e). \<exists>ev \<in> set evs. ev_data ev = EvCtx i \<and> (e = READ \<or> e = WRITE)}"

lemma events_in_subset: "set (events_in i m) \<subseteq> {(i, READ), (i, WRITE)}"
  by (auto simp: events_in_def)

lemma rearm_refines:
  assumes inv: "io_inv s w" and r: "rearm_and_fire ctl s i c evs real w = Inr w'"
  shows "\<exists>ks. spec_fires ks (io_abs s w) = Some (io_abs s w') \<and> (ks = [] \<or> ks = events_in i real)"
proof -
  define op where "op = (if ctx_events c AND NOT real \<noteq> 0 then EPOLL_CTL_MOD else EPOLL_CTL_DEL)"
  define k where "k = snd (ctl s op (ctx_fd c) evs (kernel w))"
  have inv2: "io_inv s (w\<lparr>kernel := k\<rparr>)" using inv by simp
  have "w' = w \<or> w' = w\<lparr>kernel := k\<rparr> \<or> fire_real s i real (w\<lparr>kernel := k\<rparr>) = Inr w'"
    using r unfolding rearm_and_fire_def Let_def case_prod_beta op_def [symmetric] k_def [symmetric]
    by (simp split: if_splits)
  then consider "io_abs s w' = io_abs s w" | "fire_real s i real (w\<lparr>kernel := k\<rparr>) = Inr w'" by auto
  then show ?thesis
  proof cases
    case 2
    then show ?thesis using fire_real_refines [OF inv2 2] by (intro exI [of _ "events_in i real"]) simp
  qed (intro exI [of _ "[]"], simp)
qed

lemma handle_event_refines:
  assumes inv: "io_inv s w" and r: "handle_event ctl s ev w = Inr w'"
  shows "\<exists>ks. spec_fires ks (io_abs s w) = Some (io_abs s w') \<and> set ks \<subseteq> delivered [ev]"
proof (cases "ev_data ev")
  case EvTickle
  then have "w' = upd_sched s (\<lambda>sc. sc\<lparr>iom := map_option (\<lambda>io. io\<lparr>pipe_bytes := 0\<rparr>) (iom sc)\<rparr>) w"
    using r by (simp add: handle_event_def)
  then have "queues w' = queues w" "ioms w' = ioms w"
    by (simp_all add: queues_def fun_eq_iff upd_sched_def option.map_comp comp_def)
  then have "io_abs s w' = io_abs s w" using regs_of_frame [of w' w s] by (simp add: io_abs_def)
  then show ?thesis by (intro exI [of _ "[]"]) simp
next
  case (EvCtx i)
  then obtain c where "rearm_and_fire ctl s i c (widen_events (ctx_events c) (ev_events ev))
      (real_events (widen_events (ctx_events c) (ev_events ev))) w = Inr w'"
    using r by (auto simp: handle_event_def Let_def)
  from rearm_refines [OF inv this] obtain ks where ks: "spec_fires ks (io_abs s w) = Some (io_abs s w')"
    "ks = [] \<or> (\<exists>real. ks = events_in i real)" by blast
  moreover have "set ks \<subseteq> delivered [ev]" using ks(2) events_in_subset EvCtx by (auto simp: delivered_def)
  ultimately show ?thesis by blast
qed

lemma handle_events_refines:
  "io_inv s w \<Longrightarrow> handle_events ctl s evs w = Inr w' \<Longrightarrow>
    \<exists>ks. spec_fires ks (io_abs s w) = Some (io_abs s w') \<and> set ks \<subseteq> delivered evs"
proof (induction evs arbitrary: w)
  case Nil
  then show ?case by (intro exI [of _ "[]"]) simp
next
  case (Cons ev evs)
  then obtain w1 where w1: "handle_event ctl s ev w = Inr w1" "handle_events ctl s evs w1 = Inr w'" by auto
  obtain ks where ks: "spec_fires ks (io_abs s w) = Some (io_abs s w1)" "set ks \<subseteq> delivered [ev]"
    using handle_event_refines [OF Cons.prems(1) w1(1)] by blast
  obtain ks' where ks': "spec_fires ks' (io_abs s w1) = Some (io_abs s w')" "set ks' \<subseteq> delivered evs"
    using Cons.IH [OF handle_event_inv [OF Cons.prems(1) w1(1)] w1(2)] by blast
  have "set (ks @ ks') \<subseteq> delivered (ev # evs)" using ks(2) ks'(2) by (auto simp: delivered_def)
  moreover have "spec_fires (ks @ ks') (io_abs s w) = Some (io_abs s w')" using ks(1) ks'(1) by (simp add: spec_fires_append)
  ultimately show ?case by blast
qed

lemma schedule_range_fibers: "m_fibers (snd (schedule_range cbs sc)) = m_fibers sc @ timer_tasks cbs"
proof -
  have "m_fibers (snd (snd (schedule_loop cbs b sc))) = m_fibers sc @ timer_tasks cbs" for b
    by (induction cbs arbitrary: b sc)
      (simp_all add: timer_tasks_def case_prod_beta Let_def scheduleNoLock_def FiberAndThread_cb_def)
  moreover have "m_fibers (tickle sc) = m_fibers sc" for sc
    by (simp add: tickle_def IOManager_tickle_def split: option.splits)
  ultimately show ?thesis by (simp add: schedule_range_def case_prod_beta Let_def)
qed

lemma idle_round_refines:
  assumes inv: "io_inv s w" and r: "idle_round ctl s next_timer expired evs w = Inr (b, w')"
  shows "if b then io_abs s w' = io_abs s w
    else \<exists>ks. spec_fires ks (enqueue s (timer_tasks expired) (io_abs s w)) = Some (io_abs s w') \<and> set ks \<subseteq> delivered evs"
proof (cases "b")
  case True
  then show ?thesis using r by (auto simp: idle_round_def Let_def split: if_splits)
next
  case False
  let ?w1 = "if expired \<noteq> [] then upd_sched s (\<lambda>sc. snd (schedule_range expired sc)) w else w"
  have run: "handle_events ctl s evs ?w1 = Inr w'"
    using r False by (auto simp: idle_round_def Let_def split: if_splits)
  have inv1: "io_inv s ?w1" by (rule io_inv_frame [OF inv]) (simp_all add: pending_upd_sched)
  have "map_option (\<lambda>q. q @ []) x = x" for x :: "task list option" by (cases x) simp_all
  then have "queues ?w1 = (queues w)(s := map_option (\<lambda>q. q @ timer_tasks expired) (queues w s))"
    by (simp add: queues_def fun_eq_iff schedule_range_fibers option.map_comp comp_def timer_tasks_def upd_sched_def)
  moreover have "regs_of s ?w1 = regs_of s w" by (rule regs_of_frame) simp
  ultimately have "io_abs s ?w1 = enqueue s (timer_tasks expired) (io_abs s w)" by (simp add: io_abs_def enqueue_def)
  then show ?thesis using handle_events_refines [OF inv1 run] False by simp
qed

section \<open>Properties\<close>

text \<open>
  C7: refinement. The operations of an \<open>IOManager\<close> are, on the map of registrations and the queues, the
  operations of the specification. A successful \<open>addEvent\<close> enters the callback, or else the running
  fiber, with the scheduler of the calling thread under a key that was free. A successful
  \<open>delEvent\<close> drops an entry, \<open>cancelEvent\<close> moves its task to the end of its scheduler's queue, \<open>cancelAll\<close>
  moves those of both events, the reader first, and leaves none. A round of the idle loop appends the
  expired timers' callbacks and then moves tasks of delivered events, each once. An operation
  that reports failure changes nothing of this.
\<close>

theorem iomanager_refines:
  assumes "io_inv s w"
  shows "(addEvent ctl t s fd event cb w = Inr (ret, w') \<longrightarrow>
      (if ret = 0 then spec_add (fd_index fd, event) (t_scheduler w t, waiter cb (t_fiber w' t)) (io_abs s w) = Some (io_abs s w')
       else ret = -1 \<and> io_abs s w' = io_abs s w))
    \<and> (delEvent ctl t s fd event w = Inr (b, w') \<longrightarrow>
      (if b then spec_del (fd_index fd, event) (io_abs s w) = Some (io_abs s w') else io_abs s w' = io_abs s w))
    \<and> (cancelEvent ctl t s fd event w = Inr (b, w') \<longrightarrow>
      (if b then spec_fire (fd_index fd, event) (io_abs s w) = Some (io_abs s w') else io_abs s w' = io_abs s w))
    \<and> (cancelAll ctl t s fd w = Inr (b, w') \<longrightarrow>
      (if b then spec_fires (filter (\<lambda>k. registered (io_abs s w) k \<noteq> None) [(fd_index fd, READ), (fd_index fd, WRITE)]) (io_abs s w)
              = Some (io_abs s w') \<and> (\<forall>e. registered (io_abs s w') (fd_index fd, e) = None)
       else io_abs s w' = io_abs s w))
    \<and> (idle_round ctl s next_timer expired evs w = Inr (b, w') \<longrightarrow>
      (if b then io_abs s w' = io_abs s w
       else \<exists>ks. spec_fires ks (enqueue s (timer_tasks expired) (io_abs s w)) = Some (io_abs s w')
              \<and> distinct ks \<and> set ks \<subseteq> delivered evs))"
  (is "(_ \<longrightarrow> ?add) \<and> (_ \<longrightarrow> ?del) \<and> (_ \<longrightarrow> ?cancel) \<and> (_ \<longrightarrow> ?all) \<and> (_ \<longrightarrow> ?idle)")
proof (intro conjI impI)
  show ?add if "addEvent ctl t s fd event cb w = Inr (ret, w')" by (rule addEvent_refines [OF assms that])
  show ?del if "delEvent ctl t s fd event w = Inr (b, w')" by (rule delEvent_refines [OF assms that])
  show ?cancel if "cancelEvent ctl t s fd event w = Inr (b, w')" by (rule cancelEvent_refines [OF assms that])
  show ?all if "cancelAll ctl t s fd w = Inr (b, w')" by (rule cancelAll_refines [OF assms that])
  show ?idle if "idle_round ctl s next_timer expired evs w = Inr (b, w')"
    using idle_round_refines [OF assms that] spec_fires_registered by (simp split: if_splits) blast
qed

theorem iomanager_refines_witness:
  "\<exists>w1. cancelEvent table_ctl 7 0 5 READ (io_example (ctx5 (waiting BReturn) (waiting BThrow) (READ OR WRITE)) 2) = Inr (True, w1)
    \<and> spec_fire (5, READ) (io_abs 0 (io_example (ctx5 (waiting BReturn) (waiting BThrow) (READ OR WRITE)) 2)) = Some (io_abs 0 w1)
    \<and> registered (io_abs 0 w1) (5, WRITE) = Some (Some 0, FiberAndThread_cb (Some BThrow) 0)"
proof -
  let ?c = "ctx5 (waiting BReturn) (waiting BThrow) (READ OR WRITE)"
  let ?w = "io_example ?c 2"
  have inv: "io_inv 0 ?w"
    using io_example_inv [of ?c] by (simp add: ctx5_def ctx_ok_def armed_count_def armed_def waiting_def valid_mask_def event_consts)
  have io: "\<exists>io. ioms ?w 0 = Some io \<and> writer (m_mutex io) = None" by (simp add: rw_free_def)
  then obtain io where io: "ioms ?w 0 = Some io" "writer (m_mutex io) = None" by blast
  have c: "fd_ctx_at 0 (fd_index 5) ?w = Inr ?c" by simp
  have run: "\<exists>w1. cancelEvent table_ctl 7 0 5 READ ?w = Inr (True, w1)"
    using find_ctx_there [OF io c, of 7]
    by (simp add: cancelEvent_def table_ctl_def fire_def triggerEvent_def getContext_def ctx5_def waiting_def
      event_consts Let_def case_prod_beta
      fd_ctx_at_frame [of "io_example c n\<lparr>kernel := k\<rparr>" "io_example c n" for c n k] sched_at_Some)
  then obtain w1 where w1: "cancelEvent table_ctl 7 0 5 READ ?w = Inr (True, w1)" by blast
  then have fired: "spec_fire (5, READ) (io_abs 0 ?w) = Some (io_abs 0 w1)"
    using iomanager_refines [OF inv, of table_ctl 7 5 READ _ _ w1 True] by (simp del: io_abs_simps)
  have "registered (io_abs 0 ?w) (5, WRITE) = Some (Some 0, FiberAndThread_cb (Some BThrow) 0)"
    by (simp add: regs_of_def ctx_regs_def ctx5_def waiting_def event_task_def event_consts)
  then have "registered (io_abs 0 w1) (5, WRITE) = Some (Some 0, FiberAndThread_cb (Some BThrow) 0)"
    using spec_fire_registered [OF fired] by (simp add: event_consts del: io_abs_simps)
  then show ?thesis using w1 fired by blast
qed

end
