(* ===== verification/IOLoop.thy ===== *)
theory IOLoop
  imports SchedulerDrain IORefine
begin

unbundle bit_operations_syntax

text \<open>
  A worker thread of an \<open>IOManager\<close>: the loop \<open>Scheduler::run\<close> with the idle fiber that \<open>IOManager::idle\<close>
  is, one round of it per entry. What epoll and the timers give to a round is the input of the
  loop. The loop is composed of the parts of \<open>Scheduler\<close>, \<open>Fiber\<close> and \<open>IOManager\<close>; callbacks act on the
  schedulers only, so they are run on the scheduler's part of the state.
\<close>

section \<open>The loop\<close>

text \<open>What one round of \<open>idle\<close> gets: \<open>getNextTimer\<close>, \<open>listExpiredCallback\<close> and the events of \<open>epoll_wait\<close>.\<close>

record idle_input =
  in_timer :: u64
  in_expired :: "action body option list"
  in_events :: "epoll_event list"

definition on_sworld :: "(sworld \<Rightarrow> sworld result) \<Rightarrow> 'k ioworld \<Rightarrow> 'k ioworld result" where
  "on_sworld g w = and_then (g (sworld.truncate w)) (\<lambda>w1. Inr (sworld.extend w1 (sworld.more w)))"

text \<open>
  \<open>swapIn\<close> of the idle fiber \<open>f\<close>, then \<open>idle\<close> from the head of its loop to where it gives control
  back: in the loop it swaps out as it is, with state \<open>EXEC\<close>; when it has left the loop, \<open>MainFunc\<close>
  ends. The callback is an endless loop and no \<open>body\<close>, so the context of the fiber is not touched in the loop:
  the next entry does the next round.
\<close>

definition idle_leave :: "tid \<Rightarrow> fid \<Rightarrow> bool \<Rightarrow> 'k ioworld \<Rightarrow> (fid \<times> 'k ioworld) result" where
  "idle_leave t f left w =
     (if left then leave_entry MainFunc t f (upd_fiber f (\<lambda>fb. fb\<lparr>m_cb := None, m_state := S_TERM\<rparr>) w)
      else and_then (GetThis t w) (\<lambda>(cur, w1).
           and_then (fiber_at cur w1) (\<lambda>fb. swapOut t cur (m_ctx fb) w1)))"

definition idle_run ::
  "'k epoll_ctl \<Rightarrow> tid \<Rightarrow> sid \<Rightarrow> idle_input \<Rightarrow> fid \<Rightarrow> 'k ioworld \<Rightarrow> 'k ioworld result" where
  "idle_run ctl t s inp f w =
     (let w1 = SetThis t (Some f) w
      in and_then (fiber_at f w1) (\<lambda>fb.
         and_then (ddg_assert ''m_state != State::EXEC'' (m_state fb \<noteq> S_EXEC)) (\<lambda>_.
         let w2 = setState f S_EXEC w1
         in and_then (deref_fiber (t_scheduler_fiber w2 t) w2) (\<lambda>m.
            and_then (ddg_assert ''never reach'' (m_ctx fb \<noteq> CtxFinished)) (\<lambda>_.
            and_then (idle_round ctl s (in_timer inp) (in_expired inp) (in_events inp) (set_ctx m CtxCalling w2))
              (\<lambda>(left, w3).
            and_then (idle_leave t f left w3) (\<lambda>(m', w4).
            if m' = m then Inr w4 else Inl (UB ''control left for another context''))))))))"

datatype 'k io_result = IoContinue "fid option" "'k ioworld" | IoBreak "'k ioworld"

text \<open>The rest of an iteration when the scan found nothing, and an iteration of \<open>while (true)\<close>.\<close>

definition io_run_idle ::
  "'k epoll_ctl \<Rightarrow> tid \<Rightarrow> sid \<Rightarrow> idle_input \<Rightarrow> fid option \<Rightarrow> 'k ioworld \<Rightarrow> 'k io_result result" where
  "io_run_idle ctl t s inp idle_ft w =
     (case idle_ft of
        None \<Rightarrow> Inr (IoBreak w)
      | Some f \<Rightarrow>
          and_then (idle_run ctl t s inp f
              (upd_sched s (\<lambda>sc. sc\<lparr>m_idleThreadCount := m_idleThreadCount sc + 1\<rparr>) w)) (\<lambda>w1.
          let w2 = upd_sched s (\<lambda>sc. sc\<lparr>m_idleThreadCount := m_idleThreadCount sc - 1\<rparr>) w1
          in and_then (getState f w2) (\<lambda>st.
             if st = S_EXEC then Inr (IoContinue idle_ft (setState f S_HOLD w2))
             else if st = S_TERM \<or> st = S_EXCEPT then Inr (IoContinue None w2)
             else Inr (IoContinue idle_ft w2))))"

definition io_run_iter ::
  "'k epoll_ctl \<Rightarrow> tid \<Rightarrow> sid \<Rightarrow> idle_input \<Rightarrow> fid option \<Rightarrow> 'k ioworld \<Rightarrow> 'k io_result result" where
  "io_run_iter ctl t s inp idle_ft w =
     and_then (take_task t s w) (\<lambda>(found, tickle_me, w1).
     let w2 = (if tickle_me then upd_sched s tickle w1 else w1)
     in case found of
          Some ft \<Rightarrow>
            and_then (on_sworld (\<lambda>v. if ft_fiber ft \<noteq> None \<or> ft_cb ft \<noteq> None then run_task t s ft v
                                    else Inr (run_account s v)) w2) (\<lambda>w3. Inr (IoContinue idle_ft w3))
        | None \<Rightarrow> io_run_idle ctl t s inp idle_ft w2)"

text \<open>
  The loop, for given inputs of its iterations; an iteration that runs a task does not look at
  its input. The result is \<open>OutOfFuel\<close> when the loop has not ended with them.
\<close>

fun io_run_loop ::
  "'k epoll_ctl \<Rightarrow> tid \<Rightarrow> sid \<Rightarrow> idle_input list \<Rightarrow> fid option \<Rightarrow> 'k ioworld \<Rightarrow> 'k ioworld result" where
  "io_run_loop ctl t s [] idle_ft w = Inl OutOfFuel"
| "io_run_loop ctl t s (inp # inps) idle_ft w =
     (case io_run_iter ctl t s inp idle_ft w of
        Inl e \<Rightarrow> Inl e
      | Inr (IoBreak w1) \<Rightarrow> Inr w1
      | Inr (IoContinue idle1 w1) \<Rightarrow> io_run_loop ctl t s inps idle1 w1)"

text \<open>\<open>run\<close>: \<open>idle_cb\<close> is the \<open>std::bind\<close> of \<open>idle\<close> that the idle fiber is made with.\<close>

definition io_run ::
  "action body \<Rightarrow> 'k epoll_ctl \<Rightarrow> tid \<Rightarrow> sid \<Rightarrow> idle_input list \<Rightarrow> 'k ioworld \<Rightarrow> 'k ioworld result" where
  "io_run idle_cb ctl t s inps w =
     and_then (run_prologue idle_cb t s (sworld.truncate w)) (\<lambda>(f, w1).
     io_run_loop ctl t s inps (Some f) (sworld.extend w1 (sworld.more w)))"

section \<open>The scheduler's part of the state\<close>

lemma truncate_simps [simp]:
  "scheds (sworld.truncate w) = scheds w" "heap (sworld.truncate w) = heap w" "t_fiber (sworld.truncate w) = t_fiber w"
  "t_scheduler_fiber (sworld.truncate w) = t_scheduler_fiber w" "next_fid (sworld.truncate w) = next_fid w"
  "s_fiber_id (sworld.truncate w) = s_fiber_id w"
  by (simp_all add: sworld.defs)

lemma extend_simps [simp]:
  "scheds (sworld.extend v r) = scheds v" "heap (sworld.extend v r) = heap v" "t_fiber (sworld.extend v r) = t_fiber v"
  "t_scheduler_fiber (sworld.extend v r) = t_scheduler_fiber v" "next_fid (sworld.extend v r) = next_fid v"
  "ioms (sworld.extend v (sworld.more w)) = ioms w" "kernel (sworld.extend v (sworld.more w)) = kernel w"
  by (simp_all add: sworld.defs) (cases w; simp)+

lemma on_sworld_Inr:
  "on_sworld g w = Inr w' \<longleftrightarrow> (\<exists>v. g (sworld.truncate w) = Inr v \<and> w' = sworld.extend v (sworld.more w))"
  by (auto simp: on_sworld_def)

lemma pending_scheds: "scheds w' = scheds w \<Longrightarrow> pending_of s w' = pending_of s w"
  by (simp add: pending_of_def)

section \<open>A task does not touch the manager\<close>

lemma sched_act_pending: "sched_act t a w = Inr w' \<Longrightarrow> pending_of s w' = pending_of s w"
  by (cases a) (auto simp: schedule_cb_eq schedule_fiber_eq pending_upd_sched)

lemma yield_pending:
  assumes "(if m = f then run_body sched_act e t f b w1 else Inr (m, w1)) = Inr (m', w')" "scheds w1 = scheds w"
    and "run_body sched_act e t f b w1 = Inr (m', w') \<Longrightarrow> pending_of s w' = pending_of s w1"
  shows "pending_of s w' = pending_of s w"
  using assms pending_scheds [OF assms(2)] by (simp split: if_splits)

lemma run_body_pending: "run_body sched_act e t f b w = Inr (m, w') \<Longrightarrow> pending_of s w' = pending_of s w"
proof (induction b arbitrary: w)
  case BReturn
  then show ?case by (intro pending_scheds) (auto dest!: leave_entry_result)
next
  case BThrow
  then show ?case by (intro pending_scheds) (auto dest!: leave_entry_result)
next
  case (BYieldToReady b)
  then obtain m1 w1 where y: "yield_to S_READY t (CtxBody e b) w = Inr (m1, w1)"
    and r: "(if m1 = f then run_body sched_act e t f b w1 else Inr (m1, w1)) = Inr (m, w')"
    by (auto simp: YieldToReady_def)
  show ?case by (rule yield_pending [OF r yield_to_scheds [OF y] BYieldToReady.IH])
next
  case (BYieldToHold b)
  then obtain m1 w1 where y: "yield_to S_HOLD t (CtxBody e b) w = Inr (m1, w1)"
    and r: "(if m1 = f then run_body sched_act e t f b w1 else Inr (m1, w1)) = Inr (m, w')"
    by (auto simp: YieldToHold_def)
  show ?case by (rule yield_pending [OF r yield_to_scheds [OF y] BYieldToHold.IH])
next
  case (BDo a b)
  then obtain w1 where "sched_act t a w = Inr w1" "run_body sched_act e t f b w1 = Inr (m, w')" by auto
  then show ?case using BDo.IH sched_act_pending by metis
qed

lemma swapIn_pending:
  assumes "swapIn sched_act t f w = Inr w'" shows "pending_of s w' = pending_of s w"
proof -
  let ?w2 = "setState f S_EXEC (SetThis t (Some f) w)"
  obtain m where "switch_to sched_act t m f ?w2 = Inr w'"
    using assms by (auto simp: swapIn_def Let_def split: if_splits)
  then consider "w' = ?w2" | "resume sched_act t f (set_ctx m CtxCalling ?w2) = Inr (m, w')"
    by (auto simp: switch_to_def split: if_splits)
  then show ?thesis
  proof cases
    case 2
    from resume_run_body [OF this] obtain e g b w3
      where "run_body sched_act e t g b w3 = Inr (m, w')" "scheds w3 = scheds w" by auto
    then show ?thesis using run_body_pending [of e t g b w3 m w' s] pending_scheds [of w3 w] by simp
  qed (intro pending_scheds, simp)
qed

lemma run_account_pending: "pending_of s (run_account s' w) = pending_of s w"
  by (simp add: run_account_def pending_upd_sched)

lemma task_fiber_scheds: "task_fiber ft w = Inr (f, ft1, w1) \<Longrightarrow> scheds w1 = scheds w"
  by (auto simp: task_fiber_def Fiber_new_def safeFiberIdIncr_def new_fiber_def safeFiberCountIncr_def Let_def
      split: option.splits if_splits)

lemma run_prologue_scheds:
  assumes "run_prologue idle_cb t s v = Inr (f, v1)" shows "scheds v1 = scheds v"
proof -
  have "scheds w1 = scheds w" if "Fiber_new True cb 0 False w = Inr (g, w1)" for cb g and w w1 :: sworld
    using that by (auto simp: Fiber_new_def safeFiberIdIncr_def new_fiber_def safeFiberCountIncr_def Let_def split: if_splits)
  then show ?thesis
    using assms by (auto simp: run_prologue_def Let_def split: if_splits dest!: GetThis_scheds)
qed

lemma run_task_pending:
  assumes "run_task t s ft w = Inr w'" shows "pending_of s' w' = pending_of s' w"
proof -
  obtain f ft1 w1 w2 where tf: "task_fiber ft w = Inr (f, ft1, w1)" and sw: "swapIn sched_act t f (setState f S_READY w1) = Inr w2"
    and st: "run_settle s f ft1 (run_account s w2) = Inr w'"
    using assms by (auto simp: run_task_def run_enter_def)
  have "pending_of s' w2 = pending_of s' w"
    using swapIn_pending [OF sw, of s'] pending_scheds [of "setState f S_READY w1" w] task_fiber_scheds [OF tf] by simp
  moreover have "pending_of s' (setState f S_HOLD v) = pending_of s' v" for v :: sworld
    by (rule pending_scheds) simp
  ultimately show ?thesis
    using st by (auto simp: run_settle_def run_account_pending pending_upd_sched split: if_splits)
qed

section \<open>The loop is made of steps of the manager\<close>

primrec io_world :: "'k io_result \<Rightarrow> 'k ioworld" where
  "io_world (IoContinue i w) = w"
| "io_world (IoBreak w) = w"

lemma io_other_more: "fibers.more w' = fibers.more w \<Longrightarrow> io_step ctl s w w'"
  using ioworld_more [of w' w] pending_scheds [of w' w] by (intro io_other) simp_all

lemma io_other_sched:
  "(\<And>sc. map_option m_pendingEventCount (iom (g sc)) = map_option m_pendingEventCount (iom sc)) \<Longrightarrow>
     io_step ctl s w (upd_sched s' g w)"
  by (intro io_other) (simp_all add: pending_upd_sched)

lemma scan_more:
  assumes "scan t tm pre xs w = Inr (found, tm', q, w')" shows "fibers.more w' = fibers.more w"
proof -
  obtain h where "w' = w\<lparr>heap := h\<rparr>"
    using scan_conserves [OF assms] unfolding promoted_def by blast
  then show ?thesis by simp
qed

text \<open>The scan, with what it does to the schedulers.\<close>

lemma take_task_frame:
  assumes "take_task t s w = Inr (found, tm, (w' :: 'k ioworld))"
  shows "ioms w' = ioms w" "kernel w' = kernel w" "pending_of s' w' = pending_of s' w"
    "\<exists>sc q. scheds w s = Some sc \<and> scheds w' s = Some (sc\<lparr>m_fibers := q,
       m_activeThreadCount := (if found = None then m_activeThreadCount sc else m_activeThreadCount sc + 1)\<rparr>)"
proof -
  obtain sc where sc: "scheds w s = Some sc" using assms by (auto simp: take_task_def)
  from take_task_scan [OF assms sc] obtain q w1 where q: "scan t False [] (m_fibers sc) w = Inr (found, tm, q, w1)"
    and w': "w' = upd_sched s (\<lambda>sc. sc\<lparr>m_fibers := q, m_activeThreadCount := (if found = None then m_activeThreadCount sc
                                   else m_activeThreadCount sc + 1)\<rparr>) w1" .
  have m: "scheds w1 = scheds w \<and> ioms w1 = ioms w \<and> kernel w1 = kernel w"
    by (rule ioworld_more [OF scan_more [OF q]])
  show "ioms w' = ioms w" "kernel w' = kernel w" "pending_of s' w' = pending_of s' w"
    using m pending_scheds [of w1 w s'] by (simp_all add: w' pending_upd_sched)
  show "\<exists>sc q. scheds w s = Some sc \<and> scheds w' s = Some (sc\<lparr>m_fibers := q,
       m_activeThreadCount := (if found = None then m_activeThreadCount sc else m_activeThreadCount sc + 1)\<rparr>)"
    using m sc by (auto simp: w')
qed

lemma set_ctx_more [simp]: "fibers.more (set_ctx f c w) = fibers.more w" "fibers.more (setState f st w) = fibers.more w"
  by (simp_all add: set_ctx_def setState_def)

lemma idle_leave_result:
  assumes "idle_leave t f left w = Inr (m, w')" "t_fiber w t = Some f" "heap w f = Some fb"
  shows "fibers.more w' = fibers.more w" "t_scheduler_fiber w t = Some m"
    "\<exists>fb'. heap w' f = Some fb' \<and> m_state fb' = (if left then S_TERM else m_state fb)"
  using assms
  by (auto simp: idle_leave_def leave_entry_def GetThis_current fiber_at_Some set_ctx_def split: if_splits dest!: swapOut_result)

text \<open>A round of \<open>idle\<close> leaves the fibers, and the size of the table, as they are.\<close>

definition table_size :: "sid \<Rightarrow> 'k ioworld \<Rightarrow> nat option" where
  "table_size s w = map_option (\<lambda>io. length (m_fdContext io)) (ioms w s)"

lemma table_size_frame: "ioms w' = ioms w \<Longrightarrow> table_size s w' = table_size s w"
  by (simp add: table_size_def)

definition io_kept :: "sid \<Rightarrow> 'k ioworld \<Rightarrow> 'k ioworld \<Rightarrow> bool" where
  "io_kept s w w' \<longleftrightarrow> same_fibers w w' \<and> s_fiber_id w' = s_fiber_id w \<and> table_size s w' = table_size s w"

lemma io_kept_refl [simp]: "io_kept s w w"
  by (simp add: io_kept_def)

lemma io_kept_trans: "io_kept s w w1 \<Longrightarrow> io_kept s w1 w2 \<Longrightarrow> io_kept s w w2"
  by (auto simp: io_kept_def intro: same_fibers_trans)

lemma io_kept_ops [simp]:
  "io_kept s w (upd_sched s' g w)" "io_kept s w (w\<lparr>kernel := k\<rparr>)" "io_kept s w (upd_pending h s' w)"
  "io_kept s w (set_fd_ctx s' i c w)"
  by (simp_all add: io_kept_def same_fibers_def table_size_def upd_pending_def set_fd_ctx_def upd_io_def
      upd_sched_def option.map_comp comp_def)

lemma fire_kept: "fire s i event w = Inr w' \<Longrightarrow> io_kept s w w'"
proof -
  assume r: "fire s i event w = Inr w'"
  obtain c c1 w1 where tr: "triggerEvent event c w = Inr (c1, w1)"
    and w': "w' = upd_pending (\<lambda>n. n - 1) s (set_fd_ctx s i c1 w1)"
    using r by (auto simp: fire_def)
  have "io_kept s w w1"
    using tr by (auto simp: triggerEvent_def schedule_context_def Let_def split: option.splits if_splits)
  then show ?thesis unfolding w' by (blast intro: io_kept_trans io_kept_ops)
qed

lemma fire_real_kept: "fire_real s i real w = Inr w' \<Longrightarrow> io_kept s w w'"
  by (auto simp: fire_real_def split: if_splits dest!: fire_kept intro: io_kept_trans)

lemma handle_event_kept: "handle_event ctl s ev w = Inr w' \<Longrightarrow> io_kept s w w'"
  by (auto simp: handle_event_def rearm_and_fire_def Let_def case_prod_beta split: ev_data.splits if_splits
      dest!: fire_real_kept intro: io_kept_trans io_kept_ops)

lemma handle_events_kept: "handle_events ctl s evs w = Inr w' \<Longrightarrow> io_kept s w w'"
  by (induction evs arbitrary: w) (auto dest: handle_event_kept intro: io_kept_trans)

lemma idle_round_kept:
  assumes "idle_round ctl s next_timer expired evs w = Inr (left, w')" shows "io_kept s w w'"
proof (cases left)
  case True
  then show ?thesis using assms by (auto simp: idle_round_def Let_def split: if_splits)
next
  case False
  then have "handle_events ctl s evs (if expired \<noteq> [] then upd_sched s (\<lambda>sc. snd (schedule_range expired sc)) w else w) = Inr w'"
    using assms by (auto simp: idle_round_def Let_def split: if_splits)
  from handle_events_kept [OF this] show ?thesis
    using io_kept_trans io_kept_ops(1) by (fastforce split: if_splits)
qed

lemma idle_run_result:
  assumes "idle_run ctl t s inp f w = Inr w'"
  shows "\<exists>w1 left w2. fibers.more w1 = fibers.more w
    \<and> idle_round ctl s (in_timer inp) (in_expired inp) (in_events inp) w1 = Inr (left, w2)
    \<and> fibers.more w' = fibers.more w2
    \<and> (\<exists>fb. heap w' f = Some fb \<and> m_state fb = (if left then S_TERM else S_EXEC))"
proof -
  let ?w2 = "setState f S_EXEC (SetThis t (Some f) w)"
  obtain fb m left w3 where fb: "heap w f = Some fb" and m: "t_scheduler_fiber w t = Some m"
    and rd: "idle_round ctl s (in_timer inp) (in_expired inp) (in_events inp) (set_ctx m CtxCalling ?w2) = Inr (left, w3)"
    and lv: "idle_leave t f left w3 = Inr (m, w')"
    using assms by (auto simp: idle_run_def deref_fiber_def Let_def split: option.splits if_splits)
  note k = idle_round_kept [OF rd, unfolded io_kept_def same_fibers_def]
  have "\<exists>fb'. heap w3 f = Some fb' \<and> m_state fb' = S_EXEC"
    using k fb by (simp add: set_ctx_def setState_def)
  then obtain fb' where fb': "heap w3 f = Some fb'" "m_state fb' = S_EXEC" by blast
  have "t_fiber w3 t = Some f" using k by (simp add: set_ctx_def setState_def)
  from idle_leave_result [OF lv this fb'(1)] fb'(2) have "fibers.more w' = fibers.more w3"
    "\<exists>fb. heap w' f = Some fb \<and> m_state fb = (if left then S_TERM else S_EXEC)"
    by (cases left; auto)+
  moreover have "fibers.more (set_ctx m CtxCalling ?w2) = fibers.more w" by simp
  ultimately show ?thesis using rd by blast
qed

lemma io_run_idle_result:
  assumes r: "io_run_idle ctl t s inp idle_ft w = Inr r"
  shows "(idle_ft = None \<and> r = IoBreak w)
    \<or> (\<exists>i w' w1 left w2. r = IoContinue i w' \<and> idle_ft \<noteq> None \<and> (i = None \<longleftrightarrow> left)
        \<and> fibers.more w1 = fibers.more (upd_sched s (\<lambda>sc. sc\<lparr>m_idleThreadCount := m_idleThreadCount sc + 1\<rparr>) w)
        \<and> idle_round ctl s (in_timer inp) (in_expired inp) (in_events inp) w1 = Inr (left, w2)
        \<and> fibers.more w' = fibers.more (upd_sched s (\<lambda>sc. sc\<lparr>m_idleThreadCount := m_idleThreadCount sc - 1\<rparr>) w2))"
proof (cases idle_ft)
  case None
  then show ?thesis using r by (simp add: io_run_idle_def)
next
  case (Some f)
  let ?in = "upd_sched s (\<lambda>sc. sc\<lparr>m_idleThreadCount := m_idleThreadCount sc + 1\<rparr>)"
    and ?out = "upd_sched s (\<lambda>sc. sc\<lparr>m_idleThreadCount := m_idleThreadCount sc - 1\<rparr>)"
  obtain w3 where w3: "idle_run ctl t s inp f (?in w) = Inr w3"
    using r Some by (auto simp: io_run_idle_def)
  from idle_run_result [OF w3] obtain w1 left w2 fb where
    1: "fibers.more w1 = fibers.more (?in w)"
      "idle_round ctl s (in_timer inp) (in_expired inp) (in_events inp) w1 = Inr (left, w2)"
      "fibers.more w3 = fibers.more w2" "heap w3 f = Some fb" "m_state fb = (if left then S_TERM else S_EXEC)"
    by blast
  have out: "fibers.more (?out w3) = fibers.more (?out w2)"
    using 1(3) by (cases w2; cases w3) (simp add: upd_sched_def)
  have "r = (if left then IoContinue None (?out w3) else IoContinue (Some f) (setState f S_HOLD (?out w3)))"
    using r Some w3 1(4,5) by (simp add: io_run_idle_def Let_def getState_Some split: if_splits)
  then have "\<exists>i w'. r = IoContinue i w' \<and> (i = None \<longleftrightarrow> left) \<and> fibers.more w' = fibers.more (?out w3)"
    by (cases left) auto
  then show ?thesis using Some 1(1,2) unfolding out by blast
qed

text \<open>An iteration, cut where the manager can see it.\<close>

lemma io_run_iter_steps:
  assumes r: "io_run_iter ctl t s inp idle_ft w = Inr r"
  shows "(io_step ctl s)\<^sup>*\<^sup>* w (io_world r)"
proof -
  obtain found tm w1 where tk: "take_task t s w = Inr (found, tm, w1)" using r by (auto simp: io_run_iter_def)
  let ?w2 = "if tm then upd_sched s tickle w1 else w1"
  have "io_step ctl s w w1"
    using take_task_frame(1,3) [OF tk] by (intro io_other) simp_all
  moreover have "(io_step ctl s)\<^sup>*\<^sup>* w1 ?w2"
    using io_other_sched [OF pending_tickle, of ctl s w1 s] by (simp add: r_into_rtranclp)
  ultimately have start: "(io_step ctl s)\<^sup>*\<^sup>* w ?w2" by (rule converse_rtranclp_into_rtranclp)
  have "(io_step ctl s)\<^sup>*\<^sup>* ?w2 (io_world r)"
  proof (cases found)
    case (Some ft)
    let ?g = "\<lambda>v. if ft_fiber ft \<noteq> None \<or> ft_cb ft \<noteq> None then run_task t s ft v else Inr (run_account s v)"
    obtain w3 where w3: "on_sworld ?g ?w2 = Inr w3" "r = IoContinue idle_ft w3"
      using r tk Some by (auto simp: io_run_iter_def Let_def)
    obtain v where v: "?g (sworld.truncate ?w2) = Inr v" "w3 = sworld.extend v (sworld.more ?w2)"
      using w3(1) unfolding on_sworld_Inr by blast
    have "pending_of s v = pending_of s (sworld.truncate ?w2)"
      using v(1) run_task_pending [of t s ft "sworld.truncate ?w2" v s] run_account_pending [of s s "sworld.truncate ?w2"]
      by (simp split: if_splits)
    then have "pending_of s w3 = pending_of s ?w2" by (simp add: v(2) pending_of_def)
    then show ?thesis using w3(2) v(2) by (auto intro!: r_into_rtranclp io_other)
  next
    case None
    then have id: "io_run_idle ctl t s inp idle_ft ?w2 = Inr r"
      using r tk by (simp add: io_run_iter_def Let_def)
    let ?in = "upd_sched s (\<lambda>sc. sc\<lparr>m_idleThreadCount := m_idleThreadCount sc + 1\<rparr>) ?w2"
    from io_run_idle_result [OF id] show ?thesis
    proof (elim disjE exE conjE)
      fix i w' wa left wb
      assume a: "r = IoContinue i w'" "fibers.more wa = fibers.more ?in"
        "idle_round ctl s (in_timer inp) (in_expired inp) (in_events inp) wa = Inr (left, wb)"
        "fibers.more w' = fibers.more (upd_sched s (\<lambda>sc. sc\<lparr>m_idleThreadCount := m_idleThreadCount sc - 1\<rparr>) wb)"
      have "(io_step ctl s)\<^sup>*\<^sup>* ?w2 ?in" by (rule r_into_rtranclp, rule io_other_sched) simp
      also have "io_step ctl s ?in wa" using a(2) by (rule io_other_more)
      also have "io_step ctl s wa wb" using a(3) by (rule io_idle)
      also have "io_step ctl s wb (upd_sched s (\<lambda>sc. sc\<lparr>m_idleThreadCount := m_idleThreadCount sc - 1\<rparr>) wb)"
        by (rule io_other_sched) simp
      also have "io_step ctl s \<dots> w'" using a(4) by (rule io_other_more)
      finally show ?thesis using a(1) by simp
    qed simp
  qed
  with start show ?thesis by (rule rtranclp_trans)
qed

lemma io_run_iter_inv: "io_inv s w \<Longrightarrow> io_run_iter ctl t s inp idle_ft w = Inr r \<Longrightarrow> io_inv s (io_world r)"
  using io_steps_inv io_run_iter_steps by blast

section \<open>How the loop ends\<close>

definition io_drained :: "sid \<Rightarrow> 'k ioworld \<Rightarrow> bool" where
  "io_drained s w \<longleftrightarrow> pending_of s w = Some 0 \<and> (\<exists>sc. scheds w s = Some sc \<and> m_fibers sc = []
     \<and> m_activeThreadCount sc = 0 \<and> m_stopping sc \<and> m_autoStop sc)"

lemma io_drained_frame:
  assumes "scheds w s = Some sc" "scheds w' s = Some sc'" "m_fibers sc' = m_fibers sc" "m_stopping sc' = m_stopping sc"
    and "m_autoStop sc' = m_autoStop sc" "m_activeThreadCount sc' = m_activeThreadCount sc" "pending_of s w' = pending_of s w"
  shows "io_drained s w' = io_drained s w"
  using assms by (simp add: io_drained_def)

lemma upd_sched_same: "scheds w s = Some sc \<Longrightarrow> g sc = sc \<Longrightarrow> upd_sched s g w = w"
  by (simp add: upd_sched_def fun_upd_idem)

lemma take_task_empty:
  assumes "scheds w s = Some sc" "m_fibers sc = []"
  shows "take_task t s w = Inr (None, False, w)"
  using assms upd_sched_same [OF assms(1), of "\<lambda>sc. sc\<lparr>m_fibers := []\<rparr>"]
  by (simp add: take_task_def sched_at_Some)

lemma isStoped_drained:
  "scheds w s = Some sc \<Longrightarrow> pending_of s w \<noteq> None \<Longrightarrow> isStoped sc \<longleftrightarrow> io_drained s w"
  by (auto simp: io_drained_def isStoped_def Scheduler_isStoped_def pending_of_def)

lemma idle_round_left:
  assumes r: "idle_round ctl s next_timer expired evs w = Inr (True, w')"
  shows "\<exists>sc. scheds w s = Some sc \<and> w' = w \<and> isStoped sc"
proof -
  obtain sc where sc: "sched_at s w = Inr sc" using r by (auto simp: idle_round_def)
  then have "isStoped_timeout next_timer sc \<and> w' = w"
    using r by (auto simp: idle_round_def Let_def split: if_splits)
  then show ?thesis using sc by (auto simp: isStoped_timeout_def sched_at_def split: option.splits)
qed

lemma io_drained_iter:
  assumes r: "io_run_iter ctl t s inp idle_ft w = Inr (IoContinue None w')" and p: "pending_of s w \<noteq> None"
    and i: "idle_ft \<noteq> None"
  shows "io_drained s w'"
proof -
  obtain found tm w1 where tk: "take_task t s w = Inr (found, tm, w1)" using r by (auto simp: io_run_iter_def)
  have found: "found = None"
    using r i tk by (cases found) (auto simp: io_run_iter_def Let_def)
  let ?w2 = "if tm then upd_sched s tickle w1 else w1"
    and ?in = "upd_sched s (\<lambda>sc. sc\<lparr>m_idleThreadCount := m_idleThreadCount sc + 1\<rparr>)"
    and ?out = "upd_sched s (\<lambda>sc. sc\<lparr>m_idleThreadCount := m_idleThreadCount sc - 1\<rparr>)"
  have id: "io_run_idle ctl t s inp idle_ft ?w2 = Inr (IoContinue None w')"
    using r tk found by (simp add: io_run_iter_def Let_def)
  obtain wa wb where a: "fibers.more wa = fibers.more (?in ?w2)" "fibers.more w' = fibers.more (?out wb)"
    "idle_round ctl s (in_timer inp) (in_expired inp) (in_events inp) wa = Inr (True, wb)"
    using io_run_idle_result [OF id] by auto
  obtain sc where sc: "scheds wa s = Some sc" "wb = wa" "isStoped sc"
    using idle_round_left [OF a(3)] by blast
  have w': "scheds w' = scheds (?out wa)" using ioworld_more [OF a(2)] sc(2) by simp
  have "pending_of s wa = pending_of s (?in ?w2)" using ioworld_more [OF a(1)] by (intro pending_scheds) simp
  then have "pending_of s wa \<noteq> None"
    using p take_task_frame(3) [OF tk, of s] by (simp add: pending_upd_sched pending_tickle split: if_splits)
  then have "io_drained s wa" using isStoped_drained [OF sc(1)] sc(3) by simp
  moreover have "pending_of s w' = pending_of s wa"
    using pending_scheds [OF w', of s] by (simp add: pending_upd_sched)
  ultimately show ?thesis
    using sc(1) w' io_drained_frame [OF sc(1), of w'] by simp
qed

lemma io_run_iter_drained:
  assumes d: "io_drained s w" shows "io_run_iter ctl t s inp None w = Inr (IoBreak w)"
proof -
  obtain sc where "scheds w s = Some sc" "m_fibers sc = []" using d by (auto simp: io_drained_def)
  from take_task_empty [OF this] show ?thesis by (simp add: io_run_iter_def io_run_idle_def)
qed

lemma io_run_iter_break: "io_run_iter ctl t s inp (Some f) w \<noteq> Inr (IoBreak w')"
proof
  assume r: "io_run_iter ctl t s inp (Some f) w = Inr (IoBreak w')"
  then obtain found tm w1 where "take_task t s w = Inr (found, tm, w1)" by (auto simp: io_run_iter_def)
  with r show False by (cases found) (auto simp: io_run_iter_def io_run_idle_def Let_def split: if_splits)
qed

lemma io_run_loop_drains:
  "io_run_loop ctl t s inps idle_ft w = Inr w' \<Longrightarrow> io_inv s w \<Longrightarrow> (idle_ft = None \<longrightarrow> io_drained s w) \<Longrightarrow>
   io_inv s w' \<and> io_drained s w'"
proof (induction inps arbitrary: idle_ft w)
  case (Cons inp inps)
  have p: "pending_of s w \<noteq> None" using Cons.prems(2) by (auto simp: io_inv_def)
  obtain r where r: "io_run_iter ctl t s inp idle_ft w = Inr r" using Cons.prems(1) by (auto split: sum.splits)
  note inv = io_run_iter_inv [OF Cons.prems(2) r]
  show ?case
  proof (cases idle_ft)
    case None
    with Cons.prems io_run_iter_drained [of s w ctl t inp] show ?thesis by auto
  next
    case (Some f)
    then obtain i w1 where c: "r = IoContinue i w1" using io_run_iter_break [of ctl t s inp f w] r by (cases r) auto
    then have "i = None \<longrightarrow> io_drained s w1" using io_drained_iter [OF _ p] r Some by blast
    then show ?thesis using Cons.IH Cons.prems(1) r c inv by simp
  qed
qed simp

section \<open>An iteration that idles\<close>

text \<open>An idle fiber that the thread can enter, and the state in which its round begins.\<close>

definition idle_fiber :: "tid \<Rightarrow> fid \<Rightarrow> fid \<Rightarrow> 'z sworld_scheme \<Rightarrow> bool" where
  "idle_fiber t m f w \<longleftrightarrow> t_scheduler_fiber w t = Some m \<and> m \<noteq> f \<and> heap w m \<noteq> None
     \<and> (case heap w f of None \<Rightarrow> False | Some fb \<Rightarrow> m_state fb \<noteq> S_EXEC \<and> m_ctx fb \<noteq> CtxFinished)"

definition idle_start :: "tid \<Rightarrow> sid \<Rightarrow> fid \<Rightarrow> fid \<Rightarrow> 'z sworld_scheme \<Rightarrow> 'z sworld_scheme" where
  "idle_start t s m f w = set_ctx m CtxCalling (setState f S_EXEC (SetThis t (Some f)
     (upd_sched s (\<lambda>sc. sc\<lparr>m_idleThreadCount := m_idleThreadCount sc + 1\<rparr>) w)))"

definition idle_end :: "sid \<Rightarrow> 'z sworld_scheme \<Rightarrow> 'z sworld_scheme" where
  "idle_end s w = upd_sched s (\<lambda>sc. sc\<lparr>m_idleThreadCount := m_idleThreadCount sc - 1\<rparr>) w"

lemma io_iter_idles:
  assumes tk: "take_task t s w = Inr (None, False, w1)" and f: "idle_fiber t m f w1"
    and rd: "idle_round ctl s (in_timer inp) (in_expired inp) (in_events inp) (idle_start t s m f w1) = Inr (False, w2)"
  shows "\<exists>w'. io_run_iter ctl t s inp (Some f) w = Inr (IoContinue (Some f) w')
    \<and> fibers.more w' = fibers.more (idle_end s w2) \<and> idle_fiber t m f w' \<and> next_fid w' = next_fid w1
    \<and> s_fiber_id w' = s_fiber_id w1 \<and> (\<forall>g. g \<noteq> f \<longrightarrow> g \<noteq> m \<longrightarrow> heap w' g = heap w1 g)"
proof -
  obtain fb mb where fb: "heap w1 f = Some fb" "m_state fb \<noteq> S_EXEC" "m_ctx fb \<noteq> CtxFinished"
    and m: "t_scheduler_fiber w1 t = Some m" "heap w1 m = Some mb" "m \<noteq> f"
    using f by (auto simp: idle_fiber_def split: option.splits)
  let ?fe = "fb\<lparr>m_state := S_EXEC\<rparr>"
  have k: "heap w2 = (heap w1)(f \<mapsto> ?fe, m \<mapsto> mb\<lparr>m_ctx := CtxCalling\<rparr>)" "t_fiber w2 t = Some f"
    "t_scheduler_fiber w2 = t_scheduler_fiber w1" "next_fid w2 = next_fid w1" "s_fiber_id w2 = s_fiber_id w1"
    using idle_round_kept [OF rd] fb m
    by (simp_all add: io_kept_def same_fibers_def idle_start_def set_ctx_def setState_def upd_sched_def fun_eq_iff)
  let ?w3 = "set_ctx f (m_ctx fb) (SetThis t (Some m) w2)"
  have fe: "heap w2 f = Some ?fe" using k(1) m(3) by simp
  have "idle_leave t f False w2 = Inr (m, ?w3)"
    using fe k m by (simp add: idle_leave_def GetThis_current swapOut_def deref_fiber_def fiber_at_Some Let_def)
  then have run: "idle_run ctl t s inp f (upd_sched s (\<lambda>sc. sc\<lparr>m_idleThreadCount := m_idleThreadCount sc + 1\<rparr>) w1) = Inr ?w3"
    using rd fb m
    by (simp add: idle_run_def idle_start_def fiber_at_Some deref_fiber_def setState_def Let_def)
  have "heap (idle_end s ?w3) f = Some ?fe"
    using fe by (simp add: idle_end_def set_ctx_def)
  then have "io_run_iter ctl t s inp (Some f) w = Inr (IoContinue (Some f) (setState f S_HOLD (idle_end s ?w3)))"
    using tk run by (simp add: io_run_iter_def io_run_idle_def idle_end_def getState_Some Let_def)
  moreover have "fibers.more (idle_end s ?w3) = fibers.more (idle_end s w2)"
    by (cases w2) (simp add: idle_end_def upd_sched_def set_ctx_def SetThis_def upd_fiber_def)
  moreover have "idle_fiber t m f (setState f S_HOLD (idle_end s ?w3))"
    using k m fb fe by (simp add: idle_fiber_def idle_end_def setState_def set_ctx_def)
  ultimately show ?thesis
    using k by (intro exI [of _ "setState f S_HOLD (idle_end s ?w3)"])
      (simp add: idle_end_def setState_def set_ctx_def upd_sched_def)
qed

text \<open>The manager does not look at what the beginning of a round changed.\<close>

lemma idle_start_frame:
  "ioms (idle_start t s m f w) = ioms w" "kernel (idle_start t s m f w) = kernel w"
  "pending_of s' (idle_start t s m f w) = pending_of s' w"
  "scheds (idle_start t s m f w) s = map_option (\<lambda>sc. sc\<lparr>m_idleThreadCount := m_idleThreadCount sc + 1\<rparr>) (scheds w s)"
proof -
  let ?v = "upd_sched s (\<lambda>sc. sc\<lparr>m_idleThreadCount := m_idleThreadCount sc + 1\<rparr>) w"
  have "fibers.more (idle_start t s m f w) = fibers.more ?v" by (simp add: idle_start_def)
  then have v: "scheds (idle_start t s m f w) = scheds ?v \<and> ioms (idle_start t s m f w) = ioms ?v
      \<and> kernel (idle_start t s m f w) = kernel ?v"
    by (rule ioworld_more)
  then show "ioms (idle_start t s m f w) = ioms w" "kernel (idle_start t s m f w) = kernel w"
    "scheds (idle_start t s m f w) s = map_option (\<lambda>sc. sc\<lparr>m_idleThreadCount := m_idleThreadCount sc + 1\<rparr>) (scheds w s)"
    by simp_all
  have "pending_of s' (idle_start t s m f w) = pending_of s' ?v" using v by (intro pending_scheds) simp
  then show "pending_of s' (idle_start t s m f w) = pending_of s' w" by (simp add: pending_upd_sched)
qed

section \<open>From an event to its callback\<close>

text \<open>A round whose first event is the one that a descriptor with a reader waits for.\<close>

lemma event_round:
  fixes w :: "'k ioworld"
  assumes inv: "io_inv s w" and sc: "scheds w s = Some sc" and io: "ioms w s = Some io" "length (m_fdContext io) < 2 ^ 62"
    and c: "fd_ctx_at s i w = Inr c" "ctx_events c = READ" "ec_scheduler (ctx_read c) = Some s"
    and ev: "ev_data ev = EvCtx i" "ev_events ev AND EPOLLIN \<noteq> 0" "ev_events ev AND EPOLLOUT = 0"
    and ctl: "\<forall>m. fst (ctl s EPOLL_CTL_DEL (ctx_fd c) m (kernel w)) = 0"
  shows "\<exists>k. idle_round ctl s next_timer [] (ev # evs) w
    = and_then (handle_events ctl s evs (read_fired s i c s (w\<lparr>kernel := k\<rparr>))) (\<lambda>w'. Inr (False, w'))"
proof -
  have "\<not> isStoped sc"
  proof
    assume "isStoped sc"
    moreover have p: "pending_of s w \<noteq> None" using inv by (auto simp: io_inv_def)
    ultimately have "pending_of s w = Some 0" using isStoped_drained [OF sc p] by (simp add: io_drained_def)
    moreover have "i < length (m_fdContext io)" "m_fdContext io ! i = Some c" using c(1) io(1) by (auto simp: fd_ctx_at_Inr)
    ultimately show False using io_inv_none_pending [OF inv io, of i] c(2) by (auto simp: event_consts)
  qed
  moreover obtain k where "handle_event ctl s ev w = Inr (read_fired s i c s (w\<lparr>kernel := k\<rparr>))"
    using handle_read_event [where ctl = ctl, OF inv c sc ev ctl] by blast
  ultimately show ?thesis
    using sc by (intro exI [of _ k]) (simp add: idle_round_def sched_at_Some isStoped_timeout_def Let_def)
qed

text \<open>An iteration that finds nothing to run and is given this event.\<close>

lemma io_event_delivered:
  assumes inv: "io_inv s w" and sc: "scheds w s = Some sc" "m_fibers sc = []"
    and io: "ioms w s = Some io" "length (m_fdContext io) < 2 ^ 62"
    and c: "fd_ctx_at s i w = Inr c" "ctx_events c = READ" "ec_scheduler (ctx_read c) = Some s"
    and ev: "ev_data ev = EvCtx i" "ev_events ev AND EPOLLIN \<noteq> 0" "ev_events ev AND EPOLLOUT = 0"
    and ctl: "\<forall>m. fst (ctl s EPOLL_CTL_DEL (ctx_fd c) m (kernel w)) = 0"
    and inp: "in_expired inp = []" "in_events inp = [ev]" and f: "idle_fiber t m f w"
  shows "\<exists>w' sc'. io_run_iter ctl t s inp (Some f) w = Inr (IoContinue (Some f) w') \<and> idle_fiber t m f w'
    \<and> scheds w' s = Some sc' \<and> m_fibers sc' = [event_task (ctx_read c)]
    \<and> (\<forall>s'. scheds w s' \<noteq> None \<longrightarrow> scheds w' s' \<noteq> None)
    \<and> fd_ctx_at s i w' = Inr (c\<lparr>ctx_events := NONE, ctx_read := no_event\<rparr>)
    \<and> pending_of s w' = map_option (\<lambda>n. n - 1) (pending_of s w)
    \<and> next_fid w' = next_fid w \<and> s_fiber_id w' = s_fiber_id w
    \<and> (\<forall>g. g \<noteq> f \<longrightarrow> g \<noteq> m \<longrightarrow> heap w' g = heap w g)"
proof -
  let ?w0 = "idle_start t s m f w"
  have inv0: "io_inv s ?w0" by (rule io_inv_frame [OF inv]) (simp_all add: idle_start_frame)
  have c0: "fd_ctx_at s i ?w0 = Inr c" using c(1) by (simp add: fd_ctx_at_frame [of ?w0 w] idle_start_frame)
  have sc0: "scheds ?w0 s = Some (sc\<lparr>m_idleThreadCount := m_idleThreadCount sc + 1\<rparr>)"
    using sc(1) by (simp add: idle_start_frame)
  have io0: "ioms ?w0 s = Some io" using io(1) by (simp add: idle_start_frame)
  have ctl0: "\<forall>m'. fst (ctl s EPOLL_CTL_DEL (ctx_fd c) m' (kernel ?w0)) = 0" using ctl by (simp add: idle_start_frame)
  obtain k where rd: "idle_round ctl s (in_timer inp) (in_expired inp) (in_events inp) ?w0
      = Inr (False, read_fired s i c s (?w0\<lparr>kernel := k\<rparr>))"
    using event_round [where ctl = ctl and evs = "[]", OF inv0 sc0 io0 io(2) c0 c(2,3) ev ctl0] unfolding inp by auto
  let ?w2 = "read_fired s i c s (?w0\<lparr>kernel := k\<rparr>)"
  obtain w' where w': "io_run_iter ctl t s inp (Some f) w = Inr (IoContinue (Some f) w')"
    "fibers.more w' = fibers.more (idle_end s ?w2)" "idle_fiber t m f w'" "next_fid w' = next_fid w"
    "s_fiber_id w' = s_fiber_id w" "\<forall>g. g \<noteq> f \<longrightarrow> g \<noteq> m \<longrightarrow> heap w' g = heap w g"
    using io_iter_idles [OF take_task_empty [OF sc] f rd] by blast
  have more: "scheds w' = scheds (idle_end s ?w2)" "ioms w' = ioms ?w2"
    using ioworld_more [OF w'(2)] by (simp_all add: idle_end_def)
  have "fd_ctx_at s i ?w2 = Inr (c\<lparr>ctx_events := NONE, ctx_read := no_event\<rparr>)"
    by (rule read_fired_ctx) (use c0 in \<open>simp add: fd_ctx_at_frame [of "?w0\<lparr>kernel := k\<rparr>" ?w0]\<close>)
  then have 1: "fd_ctx_at s i w' = Inr (c\<lparr>ctx_events := NONE, ctx_read := no_event\<rparr>)"
    using fd_ctx_at_frame [OF more(2)] by simp
  have "pending_of s w' = pending_of s (idle_end s ?w2)" by (rule pending_scheds) (rule more)
  then have 2: "pending_of s w' = map_option (\<lambda>n. n - 1) (pending_of s w)"
    by (simp add: idle_end_def pending_upd_sched read_fired_pending idle_start_frame)
  obtain sc2 where "scheds ?w2 s = Some sc2" "m_fibers sc2 = [event_task (ctx_read c)]"
    using read_fired_queue [OF read_armed [OF inv c(1,2)], of "?w0\<lparr>kernel := k\<rparr>" s _ s i] sc0 sc(2) by auto
  then have 3: "\<exists>sc'. scheds w' s = Some sc' \<and> m_fibers sc' = [event_task (ctx_read c)]"
    by (simp add: more(1) idle_end_def)
  have "scheds ?w2 s' = scheds w s'" if "s' \<noteq> s" for s'
    using that by (simp add: read_fired_def upd_pending_def set_fd_ctx_def idle_start_def set_ctx_def setState_def
        upd_fiber_def SetThis_def)
  then have "\<forall>s'. scheds w s' \<noteq> None \<longrightarrow> scheds w' s' \<noteq> None"
    using 3 by (auto simp: more(1) idle_end_def)
  with 1 2 3 w' show ?thesis by blast
qed

text \<open>An iteration that finds one callback in the queue.\<close>

lemma action_ok_mono: "\<forall>s. scheds w s \<noteq> None \<longrightarrow> scheds w' s \<noteq> None \<Longrightarrow> action_ok a w \<Longrightarrow> action_ok a w'"
  by (cases a) auto

lemma run_task_callback:
  assumes sc: "scheds v s = Some sc" and acts: "\<forall>a \<in> set (body_actions b). action_ok a v"
    and main: "t_scheduler_fiber v t = Some m" "heap v m \<noteq> None" "m \<noteq> next_fid v"
    and id: "unat (s_fiber_id v) < unat kMaxFiberId"
  shows "\<exists>v' sc' added fb. run_task t s (FiberAndThread_cb (Some b) thr) v = Inr v' \<and> scheds v' s = Some sc'
    \<and> heap v' (next_fid v) = Some (stopped_at b fb) \<and> todo fb = Some b
    \<and> m_fibers sc' = m_fibers sc @ added @ (if fst (next_stop MainFunc b) = S_READY
         then [FiberAndThread_fiber (Some (next_fid v)) thr] else [])"
proof -
  obtain fb v1 where new: "Fiber_new True (Some b) 0 False v = Inr (next_fid v, v1)" "heap v1 = (heap v)(next_fid v \<mapsto> fb)"
    "todo fb = Some b" "scheds v1 = scheds v" "t_scheduler_fiber v1 = t_scheduler_fiber v"
    by (rule Fiber_new_plain [OF id])
  let ?ft = "FiberAndThread_fiber (Some (next_fid v)) thr"
  have "task_fiber (FiberAndThread_cb (Some b) thr) v = Inr (next_fid v, ?ft, v1)"
    using new(1) by (simp add: task_fiber_def FiberAndThread_cb_def FiberAndThread_fiber_def)
  moreover have "task_fiber ?ft v1 = Inr (next_fid v, ?ft, v1)"
    by (simp add: task_fiber_def FiberAndThread_fiber_def)
  ultimately have eq: "run_task t s (FiberAndThread_cb (Some b) thr) v = run_task t s ?ft v1"
    by (simp add: run_task_def run_enter_def)
  have "\<forall>a \<in> set (body_actions b). action_ok a v1"
    using acts action_ok_mono [of v v1] new(4) by auto
  from run_task_fiber [OF _ _ _ new(3) this, where ft = ?ft and f = "next_fid v" and t = t and m = m and s = s and sc = sc]
  show ?thesis
    using sc new(2-5) main unfolding eq by (auto simp: FiberAndThread_fiber_def)
qed

lemma io_callback_iter:
  fixes w :: "'k ioworld"
  assumes sc: "scheds w s = Some sc" "m_fibers sc = [FiberAndThread_cb (Some b) 0]"
    and acts: "\<forall>a \<in> set (body_actions b). action_ok a (sworld.truncate w)"
    and main: "t_scheduler_fiber w t = Some m" "heap w m \<noteq> None" "m \<noteq> next_fid w"
    and id: "unat (s_fiber_id w) < unat kMaxFiberId"
  shows "\<exists>w' fb sc' added. io_run_iter ctl t s inp idle_ft w = Inr (IoContinue idle_ft w')
    \<and> ioms w' = ioms w \<and> pending_of s w' = pending_of s w
    \<and> heap w' (next_fid w) = Some (stopped_at b fb) \<and> todo fb = Some b \<and> scheds w' s = Some sc'
    \<and> m_fibers sc' = added @ (if fst (next_stop MainFunc b) = S_READY
         then [FiberAndThread_fiber (Some (next_fid w)) 0] else [])"
proof -
  let ?x = "FiberAndThread_cb (Some b) 0"
  let ?w1 = "upd_sched s (\<lambda>sc. sc\<lparr>m_fibers := [], m_activeThreadCount := m_activeThreadCount sc + 1\<rparr>) w"
  let ?w2 = "upd_sched s tickle ?w1"
  have tk: "take_task t s w = Inr (Some ?x, True, ?w1)"
    using sc by (simp add: take_task_def sched_at_Some FiberAndThread_cb_def)
  let ?v = "sworld.truncate ?w2"
  have v: "scheds ?v s = Some (tickle (sc\<lparr>m_fibers := [], m_activeThreadCount := m_activeThreadCount sc + 1\<rparr>))"
    using sc by simp
  have "s_fiber_id ?v = s_fiber_id w" by (simp add: upd_sched_def)
  then have id': "unat (s_fiber_id ?v) < unat kMaxFiberId" using id by simp
  have "\<forall>a \<in> set (body_actions b). action_ok a ?v"
    using acts action_ok_mono [of "sworld.truncate w" ?v] by auto
  from run_task_callback [OF v this _ _ _ id', of t m 0] main obtain v' sc' added fb where
    v': "run_task t s ?x ?v = Inr v'" "scheds v' s = Some sc'" "heap v' (next_fid w) = Some (stopped_at b fb)"
    "todo fb = Some b" "m_fibers sc' = m_fibers (tickle (sc\<lparr>m_fibers := [], m_activeThreadCount := m_activeThreadCount sc + 1\<rparr>))
        @ added @ (if fst (next_stop MainFunc b) = S_READY then [FiberAndThread_fiber (Some (next_fid w)) 0] else [])"
    by auto
  let ?w' = "sworld.extend v' (sworld.more ?w2)"
  have "io_run_iter ctl t s inp idle_ft w = Inr (IoContinue idle_ft ?w')"
    using tk v'(1) by (simp add: io_run_iter_def on_sworld_def FiberAndThread_cb_def Let_def)
  moreover have "pending_of s ?w' = pending_of s v'" by (simp add: pending_of_def)
  then have "pending_of s ?w' = pending_of s ?w2"
    using run_task_pending [OF v'(1), of s] by (simp add: pending_of_def)
  then have "pending_of s ?w' = pending_of s w"
    by (simp add: pending_upd_sched pending_tickle)
  ultimately show ?thesis
    using v' by (intro exI [of _ ?w'] exI [of _ fb] exI [of _ sc'] exI [of _ added]) simp
qed

text \<open>An iteration that finds everything done.\<close>

lemma io_iter_stops:
  fixes w :: "'k ioworld"
  assumes d: "io_drained s w" and f: "idle_fiber t m f w" and tm: "in_timer inp = -1"
  shows "\<exists>w'. io_run_iter ctl t s inp (Some f) w = Inr (IoContinue None w')"
proof -
  obtain sc where sc: "scheds w s = Some sc" "m_fibers sc = []" using d by (auto simp: io_drained_def)
  obtain fb mb where fb: "heap w f = Some fb" "m_state fb \<noteq> S_EXEC" "m_ctx fb \<noteq> CtxFinished"
    and m: "t_scheduler_fiber w t = Some m" "heap w m = Some mb" "m \<noteq> f"
    using f by (auto simp: idle_fiber_def split: option.splits)
  let ?w0 = "idle_start t s m f w"
  have "isStoped sc" using d isStoped_drained [OF sc(1)] by (simp add: io_drained_def)
  then have "isStoped_timeout (in_timer inp) (sc\<lparr>m_idleThreadCount := m_idleThreadCount sc + 1\<rparr>)"
    by (simp add: tm isStoped_timeout_def isStoped_def Scheduler_isStoped_def split: option.splits)
  then have rd: "idle_round ctl s (in_timer inp) (in_expired inp) (in_events inp) ?w0 = Inr (True, ?w0)"
    using sc(1) by (simp add: idle_round_def sched_at_Some idle_start_frame)
  have h: "heap ?w0 = (heap w)(f \<mapsto> fb\<lparr>m_state := S_EXEC\<rparr>, m \<mapsto> mb\<lparr>m_ctx := CtxCalling\<rparr>)" "t_scheduler_fiber ?w0 t = Some m"
    using fb m by (simp_all add: idle_start_def set_ctx_def setState_def fun_eq_iff)
  let ?w1 = "upd_fiber f (\<lambda>fb. fb\<lparr>m_cb := None, m_state := S_TERM\<rparr>) ?w0"
  let ?w3 = "set_ctx f CtxFinished (SetThis t (Some m) ?w1)"
  have "idle_leave t f True ?w0 = Inr (m, ?w3)"
    using h m by (simp add: idle_leave_def leave_entry_def swapOut_def deref_fiber_def fiber_at_Some Let_def)
  then have run: "idle_run ctl t s inp f (upd_sched s (\<lambda>sc. sc\<lparr>m_idleThreadCount := m_idleThreadCount sc + 1\<rparr>) w) = Inr ?w3"
    using rd fb m by (simp add: idle_run_def idle_start_def fiber_at_Some deref_fiber_def setState_def Let_def)
  have "\<exists>fe. heap ?w3 f = Some fe \<and> m_state fe = S_TERM"
    using h m(3) by (simp add: set_ctx_def)
  then have "getState f (upd_sched s (\<lambda>sc. sc\<lparr>m_idleThreadCount := m_idleThreadCount sc - 1\<rparr>) ?w3) = Inr S_TERM"
    by (auto simp: getState_Some)
  then show ?thesis
    using take_task_empty [OF sc] run by (simp add: io_run_iter_def io_run_idle_def Let_def)
qed

text \<open>The part of \<open>run\<close> before the loop, on a new worker thread.\<close>

lemma run_prologue_worker:
  assumes sc: "scheds w s = Some sc" and t: "t \<noteq> m_rootThread sc" "t_fiber w t = None"
    and id: "unat (s_fiber_id w) < unat kMaxFiberId"
  shows "\<exists>w1. run_prologue idle_cb t s w = Inr (next_fid w + 1, w1) \<and> scheds w1 = scheds w
    \<and> idle_fiber t (next_fid w) (next_fid w + 1) w1"
proof -
  let ?m = "next_fid w"
  let ?w0 = "w\<lparr>t_scheduler := (t_scheduler w)(t := Some s)\<rparr>"
  obtain w1 where g: "GetThis t ?w0 = Inr (?m, w1)" and w1: "heap w1 ?m = Some thread_fiber"
    "next_fid w1 = ?m + 1" "scheds w1 = scheds w" "s_fiber_id w1 = s_fiber_id w"
    using t(2) by (auto simp: GetThis_def Fiber_main_def new_fiber_def safeFiberCountIncr_def SetThis_def
      thread_fiber_def Let_def)
  let ?w2 = "w1\<lparr>t_scheduler_fiber := (t_scheduler_fiber w1)(t := Some ?m)\<rparr>" and ?b = "idle_body idle_cb sc"
  have "unat (s_fiber_id ?w2) < unat kMaxFiberId" using id w1(4) by simp
  then obtain fb w3 where new: "Fiber_new True (Some ?b) 0 False ?w2 = Inr (next_fid ?w2, w3)"
    "heap w3 = (heap ?w2)(next_fid ?w2 \<mapsto> fb)" "m_state fb = S_INIT" "todo fb = Some ?b" "scheds w3 = scheds ?w2"
    "t_scheduler_fiber w3 = t_scheduler_fiber ?w2"
    by (rule Fiber_new_plain)
  have "m_ctx fb \<noteq> CtxFinished" using new(4) by (auto simp: todo_def)
  then have "idle_fiber t ?m (?m + 1) w3" using new w1 by (simp add: idle_fiber_def)
  moreover have "run_prologue idle_cb t s w = Inr (?m + 1, w3)"
    using sc t(1) g new(1) w1(2) by (simp add: run_prologue_def sched_at_Some Let_def)
  ultimately show ?thesis using new(5) w1(3) by auto
qed

text \<open>A manager for the examples: descriptor 5 waits, and thread 7 has a main and an idle fiber.\<close>

definition io_thread :: "fd_context \<Rightarrow> u64 \<Rightarrow> ((sid \<times> u32) \<Rightarrow> u32 option) ioworld" where
  "io_thread c n = (io_example c n)\<lparr>next_fid := 3, t_scheduler_fiber := [7 \<mapsto> 1],
     heap := [1 \<mapsto> thread_fiber, 2 \<mapsto> plain_fiber S_INIT BReturn]\<rparr>"

lemma io_thread_simps [simp]:
  "ioms (io_thread c n) = ioms (io_example c n)" "scheds (io_thread c n) = scheds (io_example c n)"
  "kernel (io_thread c n) = kernel (io_example c n)" "next_fid (io_thread c n) = 3" "s_fiber_id (io_thread c n) = 0"
  "heap (io_thread c n) = [1 \<mapsto> thread_fiber, 2 \<mapsto> plain_fiber S_INIT BReturn]"
  "t_scheduler_fiber (io_thread c n) = [7 \<mapsto> 1]"
  by (simp_all add: io_thread_def io_example_def)

lemma io_thread_inv:
  assumes "ctx_ok c" "ctx_fd c = 5" shows "io_inv 0 (io_thread c (of_nat (armed_count c)))"
proof -
  have "io_inv 0 (io_example c (of_nat (armed_count c)))" by (rule io_example_inv [OF assms])
  then show ?thesis by (rule io_inv_frame) (simp_all add: pending_of_def)
qed

lemma io_thread_idle: "idle_fiber 7 1 2 (io_thread c n)"
  by (simp add: idle_fiber_def plain_fiber_def)

lemma io_thread_ctx: "fd_ctx_at 0 5 (io_thread c n) = Inr c"
  using io_example_ctx [of c n] by (simp add: fd_ctx_at_frame [of "io_thread c n" "io_example c n"])

section \<open>Properties\<close>

text \<open>
  C9: an event reaches its callback. A descriptor has a reader with a callback, the queue is empty and
  the kernel reports the descriptor readable. Then the next two iterations of the thread's loop
  empty the context, take the pending count down by one, make a fiber for the callback and
  run it to its first stop; if it yielded as ready it is queued again, behind everything
  the callback scheduled.
\<close>

theorem event_reaches_callback:
  fixes w :: "'k ioworld"
  assumes inv: "io_inv s w" and sc: "scheds w s = Some sc" "m_fibers sc = []"
    and io: "ioms w s = Some io" "length (m_fdContext io) < 2 ^ 62"
    and c: "fd_ctx_at s i w = Inr c" "ctx_events c = READ" "ec_scheduler (ctx_read c) = Some s" "ec_cb (ctx_read c) = Some b"
    and ev: "ev_data ev = EvCtx i" "ev_events ev AND EPOLLIN \<noteq> 0" "ev_events ev AND EPOLLOUT = 0"
    and ctl: "\<forall>m. fst (ctl s EPOLL_CTL_DEL (ctx_fd c) m (kernel w)) = 0"
    and inp: "in_expired inp = []" "in_events inp = [ev]" and f: "idle_fiber t m f w" "m < next_fid w"
    and acts: "\<forall>a \<in> set (body_actions b). action_ok a (sworld.truncate w)"
    and id: "unat (s_fiber_id w) < unat kMaxFiberId"
  shows "\<exists>w1 w2 fb sc2 added. io_run_iter ctl t s inp (Some f) w = Inr (IoContinue (Some f) w1)
    \<and> (\<forall>inp'. io_run_iter ctl t s inp' (Some f) w1 = Inr (IoContinue (Some f) w2))
    \<and> fd_ctx_at s i w2 = Inr (c\<lparr>ctx_events := NONE, ctx_read := no_event\<rparr>)
    \<and> pending_of s w2 = map_option (\<lambda>n. n - 1) (pending_of s w)
    \<and> heap w2 (next_fid w) = Some (stopped_at b fb) \<and> todo fb = Some b \<and> scheds w2 s = Some sc2
    \<and> m_fibers sc2 = added @ (if fst (next_stop MainFunc b) = S_READY
         then [FiberAndThread_fiber (Some (next_fid w)) 0] else [])"
proof -
  obtain w1 sc1 where w1: "io_run_iter ctl t s inp (Some f) w = Inr (IoContinue (Some f) w1)" "idle_fiber t m f w1"
    "scheds w1 s = Some sc1" "m_fibers sc1 = [event_task (ctx_read c)]" "\<forall>s'. scheds w s' \<noteq> None \<longrightarrow> scheds w1 s' \<noteq> None"
    "fd_ctx_at s i w1 = Inr (c\<lparr>ctx_events := NONE, ctx_read := no_event\<rparr>)"
    "pending_of s w1 = map_option (\<lambda>n. n - 1) (pending_of s w)" "next_fid w1 = next_fid w" "s_fiber_id w1 = s_fiber_id w"
    using io_event_delivered [where ctl = ctl, OF inv sc io c(1-3) ev ctl inp f(1)] by blast
  have task: "m_fibers sc1 = [FiberAndThread_cb (Some b) 0]" using w1(4) c(4) by (simp add: event_task_def)
  have acts1: "\<forall>a \<in> set (body_actions b). action_ok a (sworld.truncate w1)"
    using acts w1(5) action_ok_mono [of "sworld.truncate w" "sworld.truncate w1"] by auto
  have main: "t_scheduler_fiber w1 t = Some m" "heap w1 m \<noteq> None" "m \<noteq> next_fid w1"
    using w1(2,8) f(2) by (simp_all add: idle_fiber_def)
  have id1: "unat (s_fiber_id w1) < unat kMaxFiberId" using id w1(9) by simp
  note it = io_callback_iter [OF w1(3) task acts1 main id1, of ctl _ "Some f"]
  obtain w2 fb sc2 added where w2: "io_run_iter ctl t s inp (Some f) w1 = Inr (IoContinue (Some f) w2)" "ioms w2 = ioms w1"
    "pending_of s w2 = pending_of s w1" "heap w2 (next_fid w1) = Some (stopped_at b fb)" "todo fb = Some b"
    "scheds w2 s = Some sc2" "m_fibers sc2 = added @ (if fst (next_stop MainFunc b) = S_READY
         then [FiberAndThread_fiber (Some (next_fid w1)) 0] else [])"
    using it [of inp] by blast
  have "io_run_iter ctl t s inp' (Some f) w1 = Inr (IoContinue (Some f) w2)" for inp'
    using w2(1) w1(3) task by (simp add: io_run_iter_def take_task_def sched_at_Some FiberAndThread_cb_def Let_def)
  then show ?thesis
    using w1 w2 fd_ctx_at_frame [OF w2(2), of s i] by (intro exI conjI) (assumption | simp)+
qed

theorem event_reaches_callback_witness:
  "\<exists>w1 w2 fb. io_run_iter table_ctl 7 0 \<lparr>in_timer = -1, in_expired = [], in_events = [\<lparr>ev_events = EPOLLIN, ev_data = EvCtx 5\<rparr>]\<rparr>
      (Some 2) (io_thread (ctx5 (waiting BThrow) no_event READ) 1) = Inr (IoContinue (Some 2) w1)
    \<and> io_run_iter table_ctl 7 0 \<lparr>in_timer = -1, in_expired = [], in_events = []\<rparr> (Some 2) w1 = Inr (IoContinue (Some 2) w2)
    \<and> heap w2 3 = Some fb \<and> m_state fb = S_EXCEPT \<and> pending_of 0 w2 = Some 0"
proof -
  let ?c = "ctx5 (waiting BThrow) no_event READ" and ?ev = "\<lparr>ev_events = EPOLLIN, ev_data = EvCtx 5\<rparr>"
  let ?w = "io_thread ?c 1" and ?inp = "\<lparr>in_timer = -1, in_expired = [], in_events = [?ev]\<rparr>"
  have "ctx_ok ?c" "armed_count ?c = 1" "ctx_fd ?c = 5"
    by (simp_all add: ctx5_def ctx_ok_def armed_count_def armed_def waiting_def valid_mask_def event_consts)
  then have inv: "io_inv 0 ?w" using io_thread_inv [of ?c] by simp
  obtain io sc where io: "ioms ?w 0 = Some io" "length (m_fdContext io) < 2 ^ 62" and sc: "scheds ?w 0 = Some sc" "m_fibers sc = []"
    by simp
  have c: "ctx_events ?c = READ" "ec_scheduler (ctx_read ?c) = Some 0" "ec_cb (ctx_read ?c) = Some BThrow"
    by (simp_all add: ctx5_def waiting_def)
  have ev: "ev_data ?ev = EvCtx 5" "ev_events ?ev AND EPOLLIN \<noteq> 0" "ev_events ?ev AND EPOLLOUT = 0"
    by (simp_all add: event_consts)
  have ctl: "\<forall>m. fst (table_ctl 0 EPOLL_CTL_DEL (ctx_fd ?c) m (kernel ?w)) = 0"
    by (simp add: table_ctl_def ctx5_def EPOLL_CTL_DEL_def EPOLL_CTL_ADD_def EPOLL_CTL_MOD_def)
  have rest: "in_expired ?inp = []" "in_events ?inp = [?ev]" "(1 :: fid) < next_fid ?w"
    "\<forall>a \<in> set (body_actions BThrow). action_ok a (sworld.truncate ?w)" "unat (s_fiber_id ?w) < unat kMaxFiberId"
    by (simp_all add: unat_kMaxFiberId)
  have p: "pending_of 0 ?w = Some 1" by (simp add: pending_of_def)
  from event_reaches_callback [where ctl = table_ctl, OF inv sc io io_thread_ctx c ev ctl rest(1,2) io_thread_idle rest(3-5)]
  show ?thesis using p by fastforce
qed

text \<open>
  C10: the loop ends when, and only when, there is nothing left to do. When \<open>run\<close> of a worker thread of an
  \<open>IOManager\<close> has returned, whatever tasks it ran and whatever events it was given, the scheduler
  has been told to stop, its queue is empty, no task is held by any thread, and no event is
  registered on any descriptor; and on a new thread in such a state, with no timer set, it does return,
  in two iterations.
\<close>

theorem io_run_ends_drained:
  fixes w :: "'k ioworld"
  assumes inv: "io_inv s w"
  shows "(\<forall>idle_cb inps w'. io_run idle_cb ctl t s inps w = Inr w' \<longrightarrow> io_inv s w' \<and> io_drained s w'
      \<and> (\<forall>io j. ioms w' s = Some io \<and> length (m_fdContext io) < 2 ^ 62 \<and> j < length (m_fdContext io) \<longrightarrow>
           (\<exists>c. m_fdContext io ! j = Some c \<and> ctx_events c = NONE \<and> ctx_read c = no_event \<and> ctx_write c = no_event)))
    \<and> (\<forall>idle_cb sc inp inp'. io_drained s w \<and> in_timer inp = -1 \<and> scheds w s = Some sc \<and> t \<noteq> m_rootThread sc
           \<and> t_fiber w t = None \<and> unat (s_fiber_id w) < unat kMaxFiberId \<longrightarrow>
         (\<exists>w'. io_run idle_cb ctl t s [inp, inp'] w = Inr w'))"
proof (intro conjI allI impI)
  fix idle_cb inps w' assume r: "io_run idle_cb ctl t s inps w = Inr w'"
  then obtain f v where p: "run_prologue idle_cb t s (sworld.truncate w) = Inr (f, v)"
    and l: "io_run_loop ctl t s inps (Some f) (sworld.extend v (sworld.more w)) = Inr w'"
    by (auto simp: io_run_def)
  have "pending_of s (sworld.extend v (sworld.more w)) = pending_of s w"
    by (rule pending_scheds) (use run_prologue_scheds [OF p] in simp)
  then have "io_inv s (sworld.extend v (sworld.more w))"
    by (intro io_inv_frame [OF inv]) simp_all
  from io_run_loop_drains [OF l this] show d: "io_inv s w'" "io_drained s w'" by simp_all
  fix io j assume io: "ioms w' s = Some io \<and> length (m_fdContext io) < 2 ^ 62 \<and> j < length (m_fdContext io)"
  have "pending_of s w' = Some 0" using d(2) by (simp add: io_drained_def)
  from io_inv_none_pending [OF d(1) _ _ this] io
  show "\<exists>c. m_fdContext io ! j = Some c \<and> ctx_events c = NONE \<and> ctx_read c = no_event \<and> ctx_write c = no_event"
    by blast
next
  fix idle_cb sc and inp inp' :: idle_input
  assume a: "io_drained s w \<and> in_timer inp = -1 \<and> scheds w s = Some sc \<and> t \<noteq> m_rootThread sc
           \<and> t_fiber w t = None \<and> unat (s_fiber_id w) < unat kMaxFiberId"
  let ?v = "sworld.truncate w" and ?f = "next_fid w + 1"
  obtain v1 where p: "run_prologue idle_cb t s ?v = Inr (?f, v1)" "scheds v1 = scheds w" "idle_fiber t (next_fid w) ?f v1"
    using run_prologue_worker [of ?v s sc t idle_cb] a by auto
  let ?w1 = "sworld.extend v1 (sworld.more w)"
  have "pending_of s ?w1 = pending_of s w" by (rule pending_scheds) (simp add: p(2))
  then have d: "io_drained s ?w1" using a p(2) by (auto simp: io_drained_def)
  have "idle_fiber t (next_fid w) ?f ?w1" using p(3) by (simp add: idle_fiber_def)
  from io_iter_stops [OF d this] a obtain w2 where w2: "io_run_iter ctl t s inp (Some ?f) ?w1 = Inr (IoContinue None w2)"
    by blast
  have "pending_of s ?w1 \<noteq> None" using d by (simp add: io_drained_def)
  from io_run_iter_drained [OF io_drained_iter [OF w2 this]]
  have "io_run idle_cb ctl t s [inp, inp'] w = Inr w2" using p(1) w2 by (simp add: io_run_def)
  then show "\<exists>w'. io_run idle_cb ctl t s [inp, inp'] w = Inr w'" by blast
qed

theorem io_run_ends_drained_witness:
  "\<exists>(w :: ((sid \<times> u32) \<Rightarrow> u32 option) ioworld) w'. io_run BReturn table_ctl 7 0 [\<lparr>in_timer = -1, in_expired = [], in_events = []\<rparr>,
       \<lparr>in_timer = -1, in_expired = [], in_events = []\<rparr>] w = Inr w' \<and> io_drained 0 w'"
proof -
  let ?v = "io_example (FdContext 5) 0" and ?inp = "\<lparr>in_timer = -1, in_expired = [], in_events = []\<rparr>"
  let ?w = "upd_sched 0 (\<lambda>sc. sc\<lparr>m_autoStop := True, m_stopping := True\<rparr>) ?v"
  have "io_inv 0 ?v" using io_example_inv [of "FdContext 5"] by simp
  then have inv: "io_inv 0 ?w" by (rule io_inv_frame) (simp_all add: pending_upd_sched)
  have d: "io_drained 0 ?w" by (simp add: io_drained_def pending_of_def)
  have t: "t_fiber ?w 7 = None" "s_fiber_id ?w = 0" by (simp_all add: io_example_def upd_sched_def)
  obtain sc where sc: "scheds ?w 0 = Some sc" "m_rootThread sc = 0" by simp
  note ends = io_run_ends_drained [OF inv, of table_ctl 7]
  obtain w' where w': "io_run BReturn table_ctl 7 0 [?inp, ?inp] ?w = Inr w'"
    using conjunct2 [OF ends, THEN spec, of BReturn, THEN spec, of sc, THEN spec, of ?inp, THEN spec, of ?inp] d t sc
    by (auto simp: unat_kMaxFiberId)
  with conjunct1 [OF ends] have "io_drained 0 w'" by blast
  with w' show ?thesis by blast
qed

text \<open>
  C21: a fiber that waits for an event is not woken at once. The event and the wake-up of the pipe come in one batch: the round
  queues the fiber, which writes to the pipe because a thread is idle, and then empties the
  pipe. The next scan makes the fiber ready and passes it over, so the thread waits in epoll
  again, with an empty pipe and a fiber to run in its queue.
\<close>

theorem delivered_fiber_waits:
  fixes w :: "'k ioworld"
  assumes inv: "io_inv s w" and sc: "scheds w s = Some sc" "m_fibers sc = []"
    and io: "ioms w s = Some io" "length (m_fdContext io) < 2 ^ 62"
    and c: "fd_ctx_at s i w = Inr c" "ctx_events c = READ" "ec_scheduler (ctx_read c) = Some s"
      "ec_cb (ctx_read c) = None" "ec_fiber (ctx_read c) = Some g"
    and ev: "ev_data ev = EvCtx i" "ev_events ev AND EPOLLIN \<noteq> 0" "ev_events ev AND EPOLLOUT = 0"
    and ctl: "\<forall>m. fst (ctl s EPOLL_CTL_DEL (ctx_fd c) m (kernel w)) = 0"
    and inp: "in_expired inp = []" "in_events inp = [ev, \<lparr>ev_events = EPOLLIN, ev_data = EvTickle\<rparr>]"
    and f: "idle_fiber t m f w" and g: "heap w g = Some gb" "m_state gb = S_HOLD" "g \<noteq> f" "g \<noteq> m"
    and quiet: "in_expired inp' = []" "in_events inp' = []"
  shows "\<exists>w1 w2 sc1 sc2. io_run_iter ctl t s inp (Some f) w = Inr (IoContinue (Some f) w1)
    \<and> scheds w1 s = Some sc1 \<and> map_option pipe_bytes (iom sc1) = Some 0
    \<and> io_run_iter ctl t s inp' (Some f) w1 = Inr (IoContinue (Some f) w2)
    \<and> scheds w2 s = Some sc2 \<and> m_fibers sc2 = [FiberAndThread_fiber (Some g) 0] \<and> map_option pipe_bytes (iom sc2) = Some 0
    \<and> heap w2 g = Some (gb\<lparr>m_state := S_READY\<rparr>)"
proof -
  let ?w0 = "idle_start t s m f w" and ?drain = "\<lambda>sc. sc\<lparr>iom := map_option (\<lambda>io. io\<lparr>pipe_bytes := 0\<rparr>) (iom sc)\<rparr>"
  have inv0: "io_inv s ?w0" by (rule io_inv_frame [OF inv]) (simp_all add: idle_start_frame)
  have c0: "fd_ctx_at s i ?w0 = Inr c" using c(1) by (simp add: fd_ctx_at_frame [of ?w0 w] idle_start_frame)
  have sc0: "scheds ?w0 s = Some (sc\<lparr>m_idleThreadCount := m_idleThreadCount sc + 1\<rparr>)"
    using sc(1) by (simp add: idle_start_frame)
  have io0: "ioms ?w0 s = Some io" using io(1) by (simp add: idle_start_frame)
  have ctl0: "\<forall>m'. fst (ctl s EPOLL_CTL_DEL (ctx_fd c) m' (kernel ?w0)) = 0" using ctl by (simp add: idle_start_frame)
  have task: "event_task (ctx_read c) = FiberAndThread_fiber (Some g) 0" using c(4,5) by (simp add: event_task_def)
  obtain k where rd: "idle_round ctl s (in_timer inp) (in_expired inp) (in_events inp) ?w0
      = Inr (False, upd_sched s ?drain (read_fired s i c s (?w0\<lparr>kernel := k\<rparr>)))"
    using event_round [where ctl = ctl and next_timer = "in_timer inp" and evs = "[\<lparr>ev_events = EPOLLIN, ev_data = EvTickle\<rparr>]",
        OF inv0 sc0 io0 io(2) c0 c(2,3) ev ctl0]
    unfolding inp by (auto simp: handle_event_def)
  obtain sc' where sc': "scheds (read_fired s i c s (?w0\<lparr>kernel := k\<rparr>)) s = Some sc'" "m_fibers sc' = [FiberAndThread_fiber (Some g) 0]"
    using read_fired_queue [OF read_armed [OF inv c(1,2)], of "?w0\<lparr>kernel := k\<rparr>" s _ s i] sc0 sc(2) task by auto
  have "pending_of s ?w0 \<noteq> None" using inv0 by (auto simp: io_inv_def)
  then have "pending_of s (read_fired s i c s (?w0\<lparr>kernel := k\<rparr>)) \<noteq> None" by (simp add: read_fired_pending)
  then have iom: "iom sc' \<noteq> None" using sc'(1) by (auto simp: pending_of_def)
  obtain w1 where w1: "io_run_iter ctl t s inp (Some f) w = Inr (IoContinue (Some f) w1)"
    "fibers.more w1 = fibers.more (idle_end s (upd_sched s ?drain (read_fired s i c s (?w0\<lparr>kernel := k\<rparr>))))"
    "idle_fiber t m f w1" "heap w1 g = Some gb"
    using io_iter_idles [OF take_task_empty [OF sc] f rd] g(1,3,4) by auto
  obtain sc1 where sc1: "scheds w1 s = Some sc1" "m_fibers sc1 = [FiberAndThread_fiber (Some g) 0]"
    "map_option pipe_bytes (iom sc1) = Some 0"
    using ioworld_more [OF w1(2)] sc' iom by (auto simp: idle_end_def)
  let ?w1 = "setState g S_READY w1"
  have "scheds ?w1 s = Some sc1"
    using sc1(1) ioworld_more [of ?w1 w1] by simp
  then have same: "upd_sched s (\<lambda>sc. sc\<lparr>m_fibers := [FiberAndThread_fiber (Some g) 0]\<rparr>) ?w1 = ?w1"
    by (rule upd_sched_same) (simp add: sc1(2))
  have tk: "take_task t s w1 = Inr (None, False, ?w1)"
    using sc1 w1(4) g(2) same by (simp add: take_task_def sched_at_Some getState_Some FiberAndThread_fiber_def)
  have f1: "idle_fiber t m f ?w1"
    using w1(3) g(3,4) by (simp add: idle_fiber_def setState_def)
  let ?w2 = "idle_start t s m f ?w1"
  have "idle_round ctl s (in_timer inp') (in_expired inp') (in_events inp') ?w2 = Inr (False, ?w2)"
    using \<open>scheds ?w1 s = Some sc1\<close> sc1(2)
    by (simp add: idle_round_def sched_at_Some idle_start_frame quiet isStoped_timeout_def isStoped_def
        Scheduler_isStoped_def Let_def split: option.splits)
  from io_iter_idles [OF tk f1 this] obtain w2 where w2: "io_run_iter ctl t s inp' (Some f) w1 = Inr (IoContinue (Some f) w2)"
    "fibers.more w2 = fibers.more (idle_end s ?w2)" "heap w2 g = heap ?w1 g"
    using g(3,4) by blast
  have "\<exists>sc2. scheds w2 s = Some sc2 \<and> m_fibers sc2 = m_fibers sc1 \<and> iom sc2 = iom sc1"
    using ioworld_more [OF w2(2)] \<open>scheds ?w1 s = Some sc1\<close> by (simp add: idle_end_def idle_start_frame)
  moreover have "heap w2 g = Some (gb\<lparr>m_state := S_READY\<rparr>)"
    using w2(3) w1(4) by (simp add: setState_def)
  ultimately show ?thesis
    using w1(1) w2(1) sc1 by auto
qed

theorem delivered_fiber_waits_witness:
  "\<exists>(w :: ((sid \<times> u32) \<Rightarrow> u32 option) ioworld) w1 w2 sc2. io_run_iter table_ctl 7 0 \<lparr>in_timer = -1, in_expired = [],
       in_events = [\<lparr>ev_events = EPOLLIN, ev_data = EvCtx 5\<rparr>, \<lparr>ev_events = EPOLLIN, ev_data = EvTickle\<rparr>]\<rparr> (Some 2) w
         = Inr (IoContinue (Some 2) w1)
    \<and> io_run_iter table_ctl 7 0 \<lparr>in_timer = -1, in_expired = [], in_events = []\<rparr> (Some 2) w1 = Inr (IoContinue (Some 2) w2)
    \<and> scheds w2 0 = Some sc2 \<and> m_fibers sc2 = [FiberAndThread_fiber (Some 0) 0] \<and> map_option pipe_bytes (iom sc2) = Some 0"
proof -
  let ?c = "ctx5 \<lparr>ec_scheduler = Some 0, ec_fiber = Some 0, ec_cb = None\<rparr> no_event READ"
    and ?ev = "\<lparr>ev_events = EPOLLIN, ev_data = EvCtx 5\<rparr>" and ?gb = "plain_fiber S_HOLD BReturn"
  let ?w = "(io_thread ?c 1)\<lparr>heap := (heap (io_thread ?c 1))(0 \<mapsto> ?gb)\<rparr>"
    and ?inp = "\<lparr>in_timer = -1, in_expired = [], in_events = [?ev, \<lparr>ev_events = EPOLLIN, ev_data = EvTickle\<rparr>]\<rparr>"
    and ?inp' = "\<lparr>in_timer = -1, in_expired = [], in_events = []\<rparr>"
  have "ctx_ok ?c" "armed_count ?c = 1" "ctx_fd ?c = 5"
    by (simp_all add: ctx5_def ctx_ok_def armed_count_def armed_def valid_mask_def event_consts)
  then have "io_inv 0 (io_thread ?c 1)" using io_thread_inv [of ?c] by simp
  then have inv: "io_inv 0 ?w" by (rule io_inv_frame) (simp_all add: pending_of_def)
  obtain io sc where io: "ioms ?w 0 = Some io" "length (m_fdContext io) < 2 ^ 62" and sc: "scheds ?w 0 = Some sc" "m_fibers sc = []"
    by simp
  have "fd_ctx_at 0 5 ?w = fd_ctx_at 0 5 (io_thread ?c 1)" by (rule fd_ctx_at_frame) simp
  then have at: "fd_ctx_at 0 5 ?w = Inr ?c" using io_thread_ctx by (rule trans)
  have c: "ctx_events ?c = READ" "ec_scheduler (ctx_read ?c) = Some 0" "ec_cb (ctx_read ?c) = None" "ec_fiber (ctx_read ?c) = Some 0"
    by (simp_all add: ctx5_def)
  have ev: "ev_data ?ev = EvCtx 5" "ev_events ?ev AND EPOLLIN \<noteq> 0" "ev_events ?ev AND EPOLLOUT = 0"
    by (simp_all add: event_consts)
  have ctl: "\<forall>m. fst (table_ctl 0 EPOLL_CTL_DEL (ctx_fd ?c) m (kernel ?w)) = 0"
    by (simp add: table_ctl_def ctx5_def EPOLL_CTL_DEL_def EPOLL_CTL_ADD_def EPOLL_CTL_MOD_def)
  have inp: "in_expired ?inp = []" "in_events ?inp = [?ev, \<lparr>ev_events = EPOLLIN, ev_data = EvTickle\<rparr>]" by simp_all
  have f: "idle_fiber 7 1 2 ?w" using io_thread_idle [of ?c 1] by (simp add: idle_fiber_def)
  have g: "heap ?w 0 = Some ?gb" "m_state ?gb = S_HOLD" "(0 :: fid) \<noteq> 2" "(0 :: fid) \<noteq> 1"
    by (simp_all add: plain_fiber_def)
  have quiet: "in_expired ?inp' = []" "in_events ?inp' = []" by simp_all
  from delivered_fiber_waits [where ctl = table_ctl, OF inv sc io at c ev ctl inp f g quiet] show ?thesis by blast
qed

end
