(* ===== verification/IORace.thy ===== *)
theory IORace
  imports IORefine
begin

unbundle bit_operations_syntax

text \<open>
  \<open>delEvent\<close> and \<open>cancelEvent\<close> of \<open>ddg/iomanager.cc\<close> cut where another thread can come in between.
  \<open>cancelEvent\<close> tests the mask under the table's lock and takes the context's mutex afterwards; \<open>delEvent\<close>
  never takes the mutex, so its read of the mask and its writes are separate steps for a thread
  that holds only the mutex.
\<close>

section \<open>The two halves\<close>

text \<open>Up to the test of the mask; the result is the mask that was read, if the test passed.\<close>

definition event_check :: "tid \<Rightarrow> sid \<Rightarrow> u32 \<Rightarrow> u32 \<Rightarrow> ('k, 'z) ioworld_scheme \<Rightarrow> (u32 option \<times> ('k, 'z) ioworld_scheme) result" where
  "event_check t s fd event w =
     and_then (find_ctx t s fd w) (\<lambda>(found, w1). case found of
       None \<Rightarrow> Inr (None, w1)
     | Some c \<Rightarrow> if ctx_events c AND event = 0 then Inr (None, w1) else Inr (Some (ctx_events c), w1))"

text \<open>The rest of \<open>cancelEvent\<close>, which reads the mask again, and of \<open>delEvent\<close>, which keeps the old one.\<close>

definition cancel_commit :: "'k epoll_ctl \<Rightarrow> sid \<Rightarrow> u32 \<Rightarrow> u32 \<Rightarrow> ('k, 'z) ioworld_scheme \<Rightarrow> (bool \<times> ('k, 'z) ioworld_scheme) result" where
  "cancel_commit ctl s fd event w =
     and_then (fd_ctx_at s (fd_index fd) w) (\<lambda>c.
     let new_events = ctx_events c AND NOT event;
         op = (if new_events \<noteq> 0 then EPOLL_CTL_MOD else EPOLL_CTL_DEL);
         (ret, k) = ctl s op fd op (kernel w);
         w2 = w\<lparr>kernel := k\<rparr>
     in if ret \<noteq> 0 then Inr (False, w2)
        else and_then (fire s (fd_index fd) event w2) (\<lambda>w3. Inr (True, w3)))"

definition del_commit :: "'k epoll_ctl \<Rightarrow> sid \<Rightarrow> u32 \<Rightarrow> u32 \<Rightarrow> u32 \<Rightarrow> ('k, 'z) ioworld_scheme \<Rightarrow> (bool \<times> ('k, 'z) ioworld_scheme) result" where
  "del_commit ctl s fd event old w =
     (let new_events = old AND NOT event;
          op = (if new_events \<noteq> 0 then EPOLL_CTL_MOD else EPOLL_CTL_DEL);
          (ret, k) = ctl s op fd (EPOLLET OR new_events) (kernel w);
          w2 = w\<lparr>kernel := k\<rparr>
      in if ret \<noteq> 0 then Inr (False, w2)
         else and_then (fd_ctx_at s (fd_index fd) w2) (\<lambda>c.
           let w3 = upd_pending (\<lambda>n. n - 1) s w2; c1 = c\<lparr>ctx_events := new_events\<rparr>
           in and_then (getContext event c1) (\<lambda>ec.
              Inr (True, set_fd_ctx s (fd_index fd) (putContext event (resetContext ec) c1) w3))))"

text \<open>Without a thread in between, the halves are the operations.\<close>

lemma cancelEvent_halves:
  "cancelEvent ctl t s fd event w = and_then (event_check t s fd event w) (\<lambda>(old, w1).
     case old of None \<Rightarrow> Inr (False, w1) | Some _ \<Rightarrow> cancel_commit ctl s fd event w1)"
proof (cases "find_ctx t s fd w")
  case (Inr fw)
  obtain found w1 where fw: "fw = (found, w1)" by (cases fw)
  show ?thesis
  proof (cases found)
    case (Some c)
    then have "fd_ctx_at s (fd_index fd) w1 = Inr c" using find_ctx_result(2) [of t s fd w found w1] Inr fw by simp
    then show ?thesis using Inr fw Some by (simp add: cancelEvent_def event_check_def cancel_commit_def)
  qed (simp add: Inr fw cancelEvent_def event_check_def)
qed (simp add: cancelEvent_def event_check_def)

lemma delEvent_halves:
  "delEvent ctl t s fd event w = and_then (event_check t s fd event w) (\<lambda>(old, w1).
     case old of None \<Rightarrow> Inr (False, w1) | Some m \<Rightarrow> del_commit ctl s fd event m w1)"
proof (cases "find_ctx t s fd w")
  case (Inr fw)
  obtain found w1 where fw: "fw = (found, w1)" by (cases fw)
  show ?thesis
  proof (cases found)
    case (Some c)
    then have "fd_ctx_at s (fd_index fd) (w1\<lparr>kernel := k\<rparr>) = Inr c" for k
      using find_ctx_result(2) [of t s fd w found w1] Inr fw by (simp add: fd_ctx_at_frame [of "w1\<lparr>kernel := k\<rparr>" w1])
    then show ?thesis using Inr fw Some by (simp add: delEvent_def event_check_def del_commit_def Let_def case_prod_beta)
  qed (simp add: Inr fw delEvent_def event_check_def)
qed (simp add: delEvent_def event_check_def)

lemma event_check_there:
  "ioms w s = Some io \<Longrightarrow> writer (m_mutex io) = None \<Longrightarrow> fd_ctx_at s (fd_index fd) w = Inr c \<Longrightarrow>
    event_check t s fd event w = Inr (if ctx_events c AND event = 0 then None else Some (ctx_events c), w)"
  by (simp add: event_check_def find_ctx_there)

section \<open>Two threads cancel one event\<close>

lemma fire_lock:
  assumes "fire s i event w = Inr w'" "ioms w s = Some io"
  shows "\<exists>io'. ioms w' s = Some io' \<and> m_mutex io' = m_mutex io"
proof -
  obtain c1 w1 c where tr: "triggerEvent event c w = Inr (c1, w1)" and w': "w' = upd_pending (\<lambda>n. n - 1) s (set_fd_ctx s i c1 w1)"
    using assms(1) by (auto simp: fire_def)
  have "ioms w1 = ioms w"
    using tr by (auto simp: triggerEvent_def Let_def case_prod_beta schedule_context_def split: option.splits if_splits)
  then show ?thesis using assms(2) by (simp add: w' set_fd_ctx_def)
qed

text \<open>What epoll documents: a descriptor in the interest list can be modified and stays in the list.\<close>

definition epoll_modifies :: "'k epoll_ctl \<Rightarrow> (sid \<Rightarrow> u32 \<Rightarrow> 'k \<Rightarrow> bool) \<Rightarrow> bool" where
  "epoll_modifies ctl listed \<longleftrightarrow> (\<forall>s fd m k. listed s fd k \<longrightarrow>
     fst (ctl s EPOLL_CTL_MOD fd m k) = 0 \<and> listed s fd (snd (ctl s EPOLL_CTL_MOD fd m k)))"

lemma table_ctl_modifies: "epoll_modifies table_ctl (\<lambda>s fd k. k (s, fd) \<noteq> None)"
  by (simp add: epoll_modifies_def table_ctl_def event_consts)

lemma cancel_commit_fires:
  assumes "fd_ctx_at s (fd_index fd) w = Inr c" "ctx_events c AND NOT event \<noteq> 0" "epoll_modifies ctl listed" "listed s fd (kernel w)"
  shows "\<exists>k. listed s fd k \<and> cancel_commit ctl s fd event w = and_then (fire s (fd_index fd) event (w\<lparr>kernel := k\<rparr>)) (\<lambda>w3. Inr (True, w3))"
proof -
  let ?k = "snd (ctl s EPOLL_CTL_MOD fd EPOLL_CTL_MOD (kernel w))"
  have "fst (ctl s EPOLL_CTL_MOD fd EPOLL_CTL_MOD (kernel w)) = 0" "listed s fd ?k"
    using assms(3,4) by (auto simp: epoll_modifies_def)
  then show ?thesis using assms(1,2) by (intro exI [of _ ?k]) (simp add: cancel_commit_def Let_def case_prod_beta)
qed

text \<open>
  C19: a race of two threads. Both call \<open>cancelEvent\<close> for the reader of a descriptor that also has a writer, and
  both pass the test before either takes the context's mutex. The first one cancels the event; the second one
  finds the writer left, so the kernel accepts its \<open>EPOLL_CTL_MOD\<close>, and the process aborts in \<open>triggerEvent\<close>.
  Had the second one come after the first, it would have returned false.
\<close>

theorem cancel_race_aborts:
  assumes inv: "io_inv s w" and io: "ioms w s = Some io" "writer (m_mutex io) = None"
    and c: "fd_ctx_at s (fd_index fd) w = Inr c" "ctx_events c = READ OR WRITE"
    and ec: "ec_scheduler (ctx_read c) = Some s'" "scheds w s' \<noteq> None"
    and ctl: "epoll_modifies ctl listed" "listed s fd (kernel w)"
  shows "event_check t s fd READ w = Inr (Some (READ OR WRITE), w) \<and> event_check u s fd READ w = Inr (Some (READ OR WRITE), w)
    \<and> (\<exists>w1. cancel_commit ctl s fd READ w = Inr (True, w1)
          \<and> cancel_commit ctl s fd READ w1 = Inl (AssertFail ''events & event'')
          \<and> cancelEvent ctl u s fd READ w1 = Inr (False, w1))"
proof -
  let ?i = "fd_index fd"
  have left: "ctx_events c AND NOT READ \<noteq> 0" using c(2) by (simp add: event_consts)
  obtain k where listed: "listed s fd k" and k: "cancel_commit ctl s fd READ w = and_then (fire s ?i READ (w\<lparr>kernel := k\<rparr>)) (\<lambda>w3. Inr (True, w3))"
    using cancel_commit_fires [OF c(1) left ctl] by blast
  have c': "fd_ctx_at s ?i (w\<lparr>kernel := k\<rparr>) = Inr c" using c(1) by (simp add: fd_ctx_at_frame [of "w\<lparr>kernel := k\<rparr>" w])
  have inv': "io_inv s (w\<lparr>kernel := k\<rparr>)" using inv by simp
  obtain w1 where w1: "fire s ?i READ (w\<lparr>kernel := k\<rparr>) = Inr w1"
    using fire_ready [OF c' io_inv_ctx(1) [OF inv c(1)], of READ "ctx_read c" s'] c(2) ec by (simp add: event_consts)
  obtain c1 where c1: "fd_ctx_at s ?i w1 = Inr c1" "ctx_events c1 = WRITE"
    using fire_read_keeps_write [OF inv' c' c(2) w1] by blast
  have "listed s fd (kernel w1)" using fire_read_keeps_write [OF inv' c' c(2) w1] listed by simp
  note more = cancel_commit_fires [OF c1(1) _ ctl(1) this, of READ]
  have off: "ctx_events c1 AND READ = 0" using c1(2) by (simp add: event_consts)
  obtain k2 where "cancel_commit ctl s fd READ w1 = and_then (fire s ?i READ (w1\<lparr>kernel := k2\<rparr>)) (\<lambda>w3. Inr (True, w3))"
    using more c1(2) by (auto simp: event_consts)
  moreover have "fire s ?i READ (w1\<lparr>kernel := k2\<rparr>) = Inl (AssertFail ''events & event'')"
    using c1(1) off by (intro fire_unregistered [of _ _ _ c1]) (simp_all add: fd_ctx_at_frame [of "w1\<lparr>kernel := k2\<rparr>" w1])
  moreover have "\<exists>io1. ioms w1 s = Some io1 \<and> writer (m_mutex io1) = None"
    using fire_lock [OF w1, of io] io by auto
  then have "cancelEvent ctl u s fd READ w1 = Inr (False, w1)"
    using event_check_there [OF _ _ c1(1)] off by (auto simp: cancelEvent_halves)
  ultimately show ?thesis
    using k w1 event_check_there [OF io c(1)] c(2) by (simp add: event_consts)
qed

theorem cancel_race_aborts_witness:
  "\<exists>w1. cancel_commit table_ctl 0 5 READ (io_example (ctx5 (waiting BReturn) (waiting BThrow) (READ OR WRITE)) 2) = Inr (True, w1)
    \<and> cancel_commit table_ctl 0 5 READ w1 = Inl (AssertFail ''events & event'')"
proof -
  let ?c = "ctx5 (waiting BReturn) (waiting BThrow) (READ OR WRITE)"
  have inv: "io_inv 0 (io_example ?c 2)"
    using io_example_inv [of ?c] by (simp add: ctx5_def ctx_ok_def armed_count_def armed_def waiting_def valid_mask_def event_consts)
  have io: "\<exists>io. ioms (io_example ?c 2) 0 = Some io \<and> writer (m_mutex io) = None" by (simp add: rw_free_def)
  then obtain io where io: "ioms (io_example ?c 2) 0 = Some io" "writer (m_mutex io) = None" by blast
  have c: "fd_ctx_at 0 (fd_index 5) (io_example ?c 2) = Inr ?c" by simp
  from cancel_race_aborts [OF inv io c, of 0 table_ctl "\<lambda>s fd k. k (s, fd) \<noteq> None"] table_ctl_modifies
  show ?thesis by (simp add: ctx5_def waiting_def) blast
qed

section \<open>A lost registration\<close>

lemma addEvent_there:
  assumes io: "ioms w s = Some io" "writer (m_mutex io) = None" and c: "fd_ctx_at s (fd_index fd) w = Inr c"
    and ev: "event = READ \<or> event = WRITE" and add: "addEvent ctl t s fd event (Some b) w = Inr (0, w1)"
  shows "\<exists>k. w1 = set_fd_ctx s (fd_index fd)
      (putContext event \<lparr>ec_scheduler = t_scheduler w t, ec_fiber = None, ec_cb = Some b\<rparr> (c\<lparr>ctx_events := ctx_events c OR event\<rparr>))
      (upd_pending (\<lambda>n. n + 1) s (w\<lparr>kernel := k\<rparr>))"
proof -
  have "fd_index fd < length (m_fdContext io)" using c io by (auto simp: fd_ctx_at_Inr)
  then have find: "addEvent_find t s fd w = Inr w" by (rule addEvent_find_there [OF io])
  obtain k where arm: "addEvent_arm t s (fd_index fd) event (Some b) c (w\<lparr>kernel := k\<rparr>) = Inr w1"
    using add find c by (auto simp: addEvent_def Let_def case_prod_beta split: if_splits)
  have ts: "t_scheduler (upd_pending (\<lambda>n. n + 1) s (w\<lparr>kernel := k\<rparr>)) t = t_scheduler w t" by (simp add: upd_pending_def)
  obtain ec where "getContext event (c\<lparr>ctx_events := ctx_events c OR event\<rparr>) = Inr ec"
    "ec_scheduler ec = None" "ec_fiber ec = None" "ec_cb ec = None"
    using arm by (auto simp: addEvent_arm_def Let_def)
  then show ?thesis using arm ts by (cases ec) (auto simp: addEvent_arm_def Let_def)
qed

lemma addEvent_occupied:
  assumes io: "ioms w s = Some io" "writer (m_mutex io) = None" and c: "fd_ctx_at s (fd_index fd) w = Inr c"
    and ev: "getContext event c = Inr ec" "ec_cb ec \<noteq> None"
    and ctl: "fst (ctl s (if ctx_events c \<noteq> 0 then EPOLL_CTL_MOD else EPOLL_CTL_ADD) fd (EPOLLET OR ctx_events c OR event) (kernel w)) = 0"
  shows "addEvent ctl t s fd event cb w = Inl (AssertFail ''!scheduler && !fiber && !cb'')"
proof -
  have "fd_index fd < length (m_fdContext io)" using c io by (auto simp: fd_ctx_at_Inr)
  then have find: "addEvent_find t s fd w = Inr w" by (rule addEvent_find_there [OF io])
  have g: "getContext event (c\<lparr>ctx_events := m\<rparr>) = Inr ec" for m using ev(1) by (auto simp: getContext_def split: if_splits)
  have "addEvent_arm t s (fd_index fd) event cb c (w\<lparr>kernel := k\<rparr>) = Inl (AssertFail ''!scheduler && !fiber && !cb'')" for k
    using g ev(2) by (auto simp: addEvent_arm_def Let_def ddg_assert_def)
  then show ?thesis using find c ctl by (simp add: addEvent_def Let_def case_prod_beta)
qed

text \<open>
  C20: a race of \<open>delEvent\<close> with \<open>addEvent\<close>. A thread that deletes the reader has read the mask; another thread
  then adds a writer, and the first one goes on: it stores the mask without the reader that it computed
  before. The writer's callback stays in its context and is counted as pending, but its event is not
  in the mask: the state violates the invariant of the table, \<open>cancelEvent\<close> and \<open>delEvent\<close> say that nothing is registered,
  and registering the writer again aborts once the kernel has accepted it.
\<close>

theorem delEvent_race_loses_event:
  assumes inv: "io_inv s w" and io: "ioms w s = Some io" "writer (m_mutex io) = None"
    and c: "fd_ctx_at s (fd_index fd) w = Inr c" "ctx_events c = READ"
    and add: "addEvent ctl u s fd WRITE (Some b) w = Inr (0, w1)"
    and del: "del_commit ctl s fd READ READ w1 = Inr (True, w2)"
  shows "event_check t s fd READ w = Inr (Some READ, w)
    \<and> (\<exists>c2. fd_ctx_at s (fd_index fd) w2 = Inr c2 \<and> ctx_events c2 = NONE
          \<and> ctx_write c2 = \<lparr>ec_scheduler = t_scheduler w u, ec_fiber = None, ec_cb = Some b\<rparr>)
    \<and> pending_of s w2 = pending_of s w \<and> \<not> io_inv s w2
    \<and> cancelEvent ctl t s fd WRITE w2 = Inr (False, w2)
    \<and> (fst (ctl s EPOLL_CTL_ADD fd (EPOLLET OR WRITE) (kernel w2)) = 0 \<longrightarrow>
        addEvent ctl u s fd WRITE (Some b') w2 = Inl (AssertFail ''!scheduler && !fiber && !cb''))"
proof -
  let ?i = "fd_index fd" and ?e = "\<lparr>ec_scheduler = t_scheduler w u, ec_fiber = None, ec_cb = Some b\<rparr>"
  let ?c1 = "putContext WRITE ?e (c\<lparr>ctx_events := ctx_events c OR WRITE\<rparr>)"
  let ?c2 = "putContext READ no_event (?c1\<lparr>ctx_events := NONE\<rparr>)"
  obtain k where w1: "w1 = set_fd_ctx s ?i ?c1 (upd_pending (\<lambda>n. n + 1) s (w\<lparr>kernel := k\<rparr>))"
    using addEvent_there [OF io c(1) _ add] by blast
  have "fd_ctx_at s ?i (upd_pending (\<lambda>n. n + 1) s (w\<lparr>kernel := k\<rparr>)) = Inr c"
    using c(1) by (simp add: fd_ctx_at_frame [of "upd_pending (\<lambda>n. n + 1) s (w\<lparr>kernel := k\<rparr>)" w])
  then have c1: "fd_ctx_at s ?i w1 = Inr ?c1" by (simp add: w1)
  then have c1': "fd_ctx_at s ?i (w1\<lparr>kernel := k'\<rparr>) = Inr ?c1" for k' by (simp add: fd_ctx_at_frame [of "w1\<lparr>kernel := k'\<rparr>" w1])
  obtain k' where w2: "w2 = set_fd_ctx s ?i ?c2 (upd_pending (\<lambda>n. n - 1) s (w1\<lparr>kernel := k'\<rparr>))"
    using del c1' by (auto simp: del_commit_def Let_def case_prod_beta getContext_def resetContext_eq event_consts split: if_splits)
  have "fd_ctx_at s ?i (upd_pending (\<lambda>n. n - 1) s (w1\<lparr>kernel := k'\<rparr>)) = Inr ?c1"
    using c1' [of k'] by (simp add: fd_ctx_at_frame [of "upd_pending (\<lambda>n. n - 1) s (w1\<lparr>kernel := k'\<rparr>)" "w1\<lparr>kernel := k'\<rparr>"])
  then have c2: "fd_ctx_at s ?i w2 = Inr ?c2" by (simp add: w2)
  have e2: "ctx_events ?c2 = NONE" "ctx_write ?c2 = ?e" by (simp_all add: putContext_def event_consts)
  have io2: "\<exists>io2. ioms w2 s = Some io2 \<and> writer (m_mutex io2) = None" using io by (simp add: w2 w1 set_fd_ctx_def)
  then obtain io2 where io2: "ioms w2 s = Some io2" "writer (m_mutex io2) = None" by blast
  have "pending_of s w2 = map_option (\<lambda>n. n - 1) (map_option (\<lambda>n. n + 1) (pending_of s w))" by (simp add: w2 w1)
  then have p: "pending_of s w2 = pending_of s w" by (cases "pending_of s w") simp_all
  have "\<not> ctx_ok ?c2" using e2 by (simp add: ctx_ok_def event_consts no_event_def)
  then have "\<not> io_inv s w2" using io_inv_ctx(1) c2 by blast
  moreover have "cancelEvent ctl t s fd WRITE w2 = Inr (False, w2)"
    using event_check_there [OF io2 c2, of t WRITE] e2(1) by (simp add: cancelEvent_halves event_consts)
  moreover have "addEvent ctl u s fd WRITE (Some b') w2 = Inl (AssertFail ''!scheduler && !fiber && !cb'')"
    if "fst (ctl s EPOLL_CTL_ADD fd (EPOLLET OR WRITE) (kernel w2)) = 0"
    by (rule addEvent_occupied [OF io2 c2, of _ ?e])
      (use that e2 in \<open>simp_all add: getContext_def event_consts\<close>)
  ultimately show ?thesis
    using p c2 e2 event_check_there [OF io c(1)] c(2) by (simp add: event_consts)
qed

theorem delEvent_race_loses_event_witness:
  "\<exists>w1 w2. addEvent table_ctl 7 0 5 WRITE (Some BReturn) (io_example (ctx5 (waiting BReturn) no_event READ) 1) = Inr (0, w1)
    \<and> del_commit table_ctl 0 5 READ READ w1 = Inr (True, w2) \<and> \<not> io_inv 0 w2"
proof -
  let ?c = "ctx5 (waiting BReturn) no_event READ"
  let ?w = "io_example ?c 1"
  have inv: "io_inv 0 ?w"
    using io_example_inv [of ?c] by (simp add: ctx5_def ctx_ok_def armed_count_def armed_def waiting_def valid_mask_def event_consts)
  have io: "\<exists>io. ioms ?w 0 = Some io \<and> writer (m_mutex io) = None" by (simp add: rw_free_def)
  then obtain io where io: "ioms ?w 0 = Some io" "writer (m_mutex io) = None" by blast
  have c: "fd_ctx_at 0 (fd_index 5) ?w = Inr ?c" by simp
  have len: "fd_index 5 < length (m_fdContext io)" using c io by (auto simp: fd_ctx_at_Inr)
  have "\<exists>w1. addEvent table_ctl 7 0 5 WRITE (Some BReturn) ?w = Inr (0, w1)"
    using addEvent_find_there [OF io len, of 7]
    by (simp add: addEvent_def addEvent_arm_def table_ctl_def getContext_def ctx5_def no_event_def event_consts Let_def case_prod_beta)
  then obtain w1 where w1: "addEvent table_ctl 7 0 5 WRITE (Some BReturn) ?w = Inr (0, w1)" by blast
  have "kernel w1 (0, 5) \<noteq> None"
    using w1 addEvent_find_there [OF io len, of 7]
    by (auto simp: addEvent_def addEvent_arm_def table_ctl_def getContext_def ctx5_def no_event_def event_consts Let_def case_prod_beta set_fd_ctx_def)
  moreover obtain c1 where "fd_ctx_at 0 5 w1 = Inr c1"
  proof -
    obtain k where "w1 = set_fd_ctx 0 (fd_index 5) (putContext WRITE \<lparr>ec_scheduler = t_scheduler ?w 7, ec_fiber = None, ec_cb = Some BReturn\<rparr>
        (?c\<lparr>ctx_events := ctx_events ?c OR WRITE\<rparr>)) (upd_pending (\<lambda>n. n + 1) 0 (?w\<lparr>kernel := k\<rparr>))"
      using addEvent_there [OF io c _ w1] by blast
    moreover have "fd_ctx_at 0 5 (upd_pending (\<lambda>n. n + 1) 0 (?w\<lparr>kernel := k\<rparr>)) = Inr ?c"
      using c by (simp add: fd_ctx_at_frame [of "upd_pending (\<lambda>n. n + 1) 0 (?w\<lparr>kernel := k\<rparr>)" ?w])
    ultimately show thesis using that by simp
  qed
  ultimately have "\<exists>w2. del_commit table_ctl 0 5 READ READ w1 = Inr (True, w2)"
    by (simp add: del_commit_def table_ctl_def getContext_def event_consts fd_ctx_at_frame [of "w1\<lparr>kernel := k\<rparr>" w1 for k])
  then obtain w2 where w2: "del_commit table_ctl 0 5 READ READ w1 = Inr (True, w2)" by blast
  from delEvent_race_loses_event [OF inv io c _ w1(1) w2] show ?thesis
    using w1 w2 by (simp add: ctx5_def) 
qed

end
