(* ===== verification/Lifetime.thy ===== *)
theory Lifetime
  imports IORefine
begin

text \<open>
  The ends of \<open>Scheduler\<close> and \<open>IOManager\<close>: the accessors of the current scheduler, the destructors of
  \<open>ddg/scheduler.cc\<close> and \<open>ddg/iomanager.cc\<close>, and how they go together with \<open>stop\<close>.
\<close>

section \<open>The current scheduler\<close>

definition Scheduler_getName :: "sched \<Rightarrow> string" where
  "Scheduler_getName sc = sched_name sc"

definition Scheduler_GetThis :: "tid \<Rightarrow> 'z sworld_scheme \<Rightarrow> sid option" where
  "Scheduler_GetThis t w = t_scheduler w t"

definition Scheduler_SetThis :: "tid \<Rightarrow> sid \<Rightarrow> 'z sworld_scheme \<Rightarrow> 'z sworld_scheme" where
  "Scheduler_SetThis t s w = w\<lparr>t_scheduler := (t_scheduler w)(t := Some s)\<rparr>"

definition GetMainFiber :: "tid \<Rightarrow> 'z sworld_scheme \<Rightarrow> fid option" where
  "GetMainFiber t w = t_scheduler_fiber w t"

lemma SetThis_GetThis: "Scheduler_GetThis u (Scheduler_SetThis t s w) = (if u = t then Some s else Scheduler_GetThis u w)"
  by (simp add: Scheduler_GetThis_def Scheduler_SetThis_def)

section \<open>The destructors\<close>

text \<open>
  \<open>~Scheduler\<close> has an empty body; the members are destroyed, with the root fiber, which nothing else
  owns. The thread's pointers \<open>t_scheduler\<close> and \<open>t_scheduler_fiber\<close> stay as they are.
\<close>

definition Scheduler_dtor :: "tid \<Rightarrow> sid \<Rightarrow> 'z sworld_scheme \<Rightarrow> 'z sworld_scheme result" where
  "Scheduler_dtor t s w =
     and_then (sched_at s w) (\<lambda>sc.
     and_then (case m_rootFiber sc of None \<Rightarrow> Inr w | Some f \<Rightarrow> Fiber_dtor t f w) (\<lambda>w1.
     Inr (w1\<lparr>scheds := (scheds w1)(s := None)\<rparr>)))"

text \<open>
  \<open>~IOManager\<close>: the test is the one of the base class, so registered events do not count; \<open>closes\<close> is what
  closing the three descriptors does to the kernel's state. The contexts are deleted, then the members
  and the base class go.
\<close>

definition IOManager_dtor ::
  "(sid \<Rightarrow> 'k \<Rightarrow> 'k) \<Rightarrow> action body \<Rightarrow> nat \<Rightarrow> tid \<Rightarrow> sid \<Rightarrow> ('k, 'z) ioworld_scheme \<Rightarrow> ('k, 'z) ioworld_scheme result" where
  "IOManager_dtor closes iom_idle fuel t s w =
     and_then (sched_at s w) (\<lambda>sc.
     and_then (if \<not> Scheduler_isStoped sc
               then and_then (stop iom_idle fuel t s (sworld.truncate w)) (\<lambda>v. Inr (sworld.extend v (sworld.more w)))
               else Inr w) (\<lambda>w1.
     and_then (io_at s w1) (\<lambda>io.
     and_then (RWMutex_dtor (Some (m_mutex io))) (\<lambda>_.
     Scheduler_dtor t s (w1\<lparr>kernel := closes s (kernel w1), ioms := (ioms w1)(s := None)\<rparr>)))))"

section \<open>Properties\<close>

lemma tickle_plain [simp]: "iom sc = None \<Longrightarrow> (tickle ^^ n) sc = sc"
  by (induction n) (simp_all add: tickle_def)

lemma stop_drained:
  assumes sc: "scheds w s = Some sc" "m_rootFiber sc = Some f" "m_rootThread sc \<noteq> 0" "t_scheduler w t = Some s"
    and fb: "heap w f = Some fb" "m_state fb \<noteq> S_TERM" "m_state fb \<noteq> S_EXCEPT"
    and started: "\<not> m_stopping sc" "m_fibers sc = []" "m_activeThreadCount sc = 0" "iom sc = None"
  shows "\<exists>w'. stop iom_idle fuel t s w = Inr w' \<and> heap w' = (heap w)(f \<mapsto> fb\<lparr>m_state := S_EXEC\<rparr>)
    \<and> (\<exists>sc'. scheds w' s = Some sc' \<and> m_rootFiber sc' = Some f) \<and> t_scheduler w' = t_scheduler w"
proof -
  let ?w1 = "upd_sched s (\<lambda>_. sc\<lparr>m_autoStop := True\<rparr>) w" and ?sc2 = "sc\<lparr>m_autoStop := True, m_stopping := True\<rparr>"
  let ?w2 = "upd_sched s (\<lambda>_. ?sc2) ?w1"
  have "stop_early s w = Inr (False, ?w1)"
    using sc started fb by (simp add: stop_early_def sched_at_Some isStoped_def Scheduler_isStoped_def getState_def fiber_at_Some Let_def)
  moreover have "stop_signal t s ?w1 = Inr ?w2"
    using sc started tickle_plain [of ?sc2] tickle_plain [of ?sc2 1]
    by (simp add: stop_signal_def sched_at_Some ddg_assert_def Let_def)
  moreover have "isStoped ?sc2" using started by (simp add: isStoped_def Scheduler_isStoped_def)
  then have "stop_root iom_idle fuel t s ?w2 = Inr (setState f S_EXEC ?w2)"
    using sc by (simp add: stop_root_def sched_at_Some Let_def)
  ultimately show ?thesis
    using sc fb(1) by (simp add: stop_def setState_def upd_fiber_def upd_sched_def)
qed

text \<open>
  C37: stopping a scheduler that has nothing left to do. If the workers have emptied the queue before the thread
  that made the scheduler calls \<open>stop\<close>, \<open>stop\<close> sets the root fiber's state to \<open>EXEC\<close> and then does not run
  it, because the scheduler is stopped already; the destructor of the root fiber then aborts the process.
\<close>

theorem drained_scheduler_aborts:
  assumes "scheds w s = Some sc" "m_rootFiber sc = Some f" "m_rootThread sc \<noteq> 0" "t_scheduler w t = Some s"
    and "heap w f = Some fb" "m_stack fb" "m_state fb = S_INIT"
    and "\<not> m_stopping sc" "m_fibers sc = []" "m_activeThreadCount sc = 0" "iom sc = None"
  shows "\<exists>w'. stop iom_idle fuel t s w = Inr w'
    \<and> Scheduler_dtor t s w' = Inl (AssertFail ''m_state == TERM || m_state == EXCEPT || m_state == INIT'')
    \<and> (\<exists>w2. Scheduler_dtor t s w = Inr w2)"
proof -
  obtain w' sc' where w': "stop iom_idle fuel t s w = Inr w'" "heap w' = (heap w)(f \<mapsto> fb\<lparr>m_state := S_EXEC\<rparr>)"
    "scheds w' s = Some sc'" "m_rootFiber sc' = Some f"
    using stop_drained [OF assms(1-5) _ _ assms(8-11)] assms(7) by force
  have "Scheduler_dtor t s w' = Inl (AssertFail ''m_state == TERM || m_state == EXCEPT || m_state == INIT'')"
    using w' assms(6) by (simp add: Scheduler_dtor_def sched_at_def Fiber_dtor_def fiber_at_def ddg_assert_def Let_def)
  moreover have "\<exists>w2. Scheduler_dtor t s w = Inr w2"
    using assms by (simp add: Scheduler_dtor_def sched_at_def Fiber_dtor_def fiber_at_def ddg_assert_def Let_def)
  ultimately show ?thesis using w'(1) by blast
qed

theorem drained_scheduler_aborts_witness:
  "\<exists>w'. stop BReturn 5 7 0 (upd_sched 0 (\<lambda>sc. sc\<lparr>m_rootFiber := Some 1, m_rootThread := 7\<rparr>)
        ((one_sched [] [1 \<mapsto> plain_fiber S_INIT BReturn])\<lparr>t_scheduler := [7 \<mapsto> 0]\<rparr>)) = Inr w'
    \<and> Scheduler_dtor 7 0 w' = Inl (AssertFail ''m_state == TERM || m_state == EXCEPT || m_state == INIT'')"
proof -
  let ?w = "upd_sched 0 (\<lambda>sc. sc\<lparr>m_rootFiber := Some 1, m_rootThread := 7\<rparr>)
        ((one_sched [] [1 \<mapsto> plain_fiber S_INIT BReturn])\<lparr>t_scheduler := [7 \<mapsto> 0]\<rparr>)"
  obtain sc where sc: "scheds ?w 0 = Some sc" "m_rootFiber sc = Some 1" "m_rootThread sc \<noteq> 0" "\<not> m_stopping sc"
    "m_fibers sc = []" "m_activeThreadCount sc = 0" "iom sc = None" by simp
  have "t_scheduler ?w 7 = Some 0" "heap ?w 1 = Some (plain_fiber S_INIT BReturn)" by (simp_all add: upd_sched_def)
  from drained_scheduler_aborts [OF sc(1-3) this _ _ sc(4-7), of BReturn 5] show ?thesis
    by (simp add: plain_fiber_def) blast
qed

text \<open>What the caller's thread has after a scheduler was made and destroyed.\<close>

lemma caller_scheduler:
  assumes new: "Scheduler_new sub t s threads True name w = Inr w1" and free: "\<forall>g \<ge> next_fid w. heap w g = None"
  shows "\<exists>f g sc. scheds w1 s = Some sc \<and> m_rootFiber sc = Some f \<and> t_scheduler w1 t = Some s
    \<and> t_fiber w1 t = Some g \<and> g \<noteq> f \<and> heap w1 g \<noteq> None \<and> (\<exists>fb. heap w1 f = Some fb \<and> m_state fb = S_INIT \<and> m_stack fb)"
proof -
  obtain g wa where g: "GetThis t w = Inr (g, wa)" using new by (auto simp: Scheduler_new_def Let_def)
  obtain f wb where f: "Fiber_new True (Some (BDo (ARun s) BReturn)) 0 True (wa\<lparr>t_scheduler := (t_scheduler wa)(t := Some s)\<rparr>) = Inr (f, wb)"
    and w1: "\<exists>sc. scheds w1 s = Some sc \<and> m_rootFiber sc = Some f" "t_scheduler w1 = t_scheduler wb" "t_fiber w1 = t_fiber wb" "heap w1 = heap wb"
    using new g by (auto simp: Scheduler_new_def Let_def)
  have cur: "t_fiber wa t = Some g" "heap wa g \<noteq> None" "heap wa (next_fid wa) = None"
    using g free by (auto simp: GetThis_def Fiber_main_def new_fiber_def safeFiberCountIncr_def SetThis_def Let_def split: option.splits)
  have "f = next_fid wa" "heap wb = (heap wa)(f := heap wb f)" "\<exists>fb. heap wb f = Some fb \<and> m_state fb = S_INIT \<and> m_stack fb"
    "t_fiber wb = t_fiber wa" "t_scheduler wb t = Some s"
    using f by (auto simp: Fiber_new_def safeFiberIdIncr_def new_fiber_def safeFiberCountIncr_def Let_def split: if_splits)
  then show ?thesis using cur w1 by (metis fun_upd_apply) 
qed

text \<open>
  One scheduler per thread. The destructor does not reset the thread's scheduler: after a scheduler made with
  \<open>use_caller\<close> is destroyed, the thread's \<open>t_scheduler\<close> points to the destroyed object, and making another
  scheduler with \<open>use_caller\<close> in this thread aborts.
\<close>

theorem second_scheduler_aborts:
  assumes "Scheduler_new sub t s threads True name w = Inr w1" and "\<forall>g \<ge> next_fid w. heap w g = None" and "threads' > 0"
  shows "\<exists>w2. Scheduler_dtor t s w1 = Inr w2 \<and> Scheduler_GetThis t w2 = Some s \<and> scheds w2 s = None
    \<and> Scheduler_new sub' t s' threads' True name' w2 = Inl (AssertFail ''GetThis() == nullptr'')"
proof -
  obtain f g sc fb where w1: "scheds w1 s = Some sc" "m_rootFiber sc = Some f" "t_scheduler w1 t = Some s"
    "t_fiber w1 t = Some g" "g \<noteq> f" "heap w1 g \<noteq> None" "heap w1 f = Some fb" "m_state fb = S_INIT" "m_stack fb"
    using caller_scheduler [OF assms(1,2)] by blast
  let ?w2 = "(safeFiberCountDesc w1)\<lparr>heap := (heap w1)(f := None), scheds := (scheds w1)(s := None)\<rparr>"
  have "Scheduler_dtor t s w1 = Inr ?w2"
    using w1 by (simp add: Scheduler_dtor_def sched_at_def Fiber_dtor_def fiber_at_def ddg_assert_def Let_def safeFiberCountDesc_def)
  moreover have "GetThis t ?w2 = Inr (g, ?w2)"
    using w1 by (auto simp: GetThis_def fiber_at_def safeFiberCountDesc_def)
  then have "Scheduler_new sub' t s' threads' True name' ?w2 = Inl (AssertFail ''GetThis() == nullptr'')"
    using w1(3) assms(3) by (simp add: Scheduler_new_def ddg_assert_def safeFiberCountDesc_def)
  ultimately show ?thesis using w1(3) by (simp add: Scheduler_GetThis_def safeFiberCountDesc_def)
qed

theorem second_scheduler_aborts_witness:
  "\<exists>w1 w2. Scheduler_new None 7 0 2 True ''s'' (one_sched [] Map.empty) = Inr w1 \<and> Scheduler_dtor 7 0 w1 = Inr w2
    \<and> Scheduler_new None 7 1 2 True ''s2'' w2 = Inl (AssertFail ''GetThis() == nullptr'')"
proof -
  obtain w1 where w1: "Scheduler_new None 7 0 2 True ''s'' (one_sched [] Map.empty) = Inr w1"
    by (simp add: Scheduler_new_def GetThis_def Fiber_main_def Fiber_new_def new_fiber_def safeFiberIdIncr_def
      safeFiberCountIncr_def SetThis_def one_sched_def kMaxFiberId_def ddg_assert_def Let_def)
  from second_scheduler_aborts [OF w1, of 2 None 1 "''s2''"] w1 show ?thesis by auto
qed

text \<open>
  Destroying an \<open>IOManager\<close> that is stopped as a scheduler. If no root fiber is left to destroy, the destructor
  returns even when events are registered: their callbacks and fibers are dropped and no queue gets them. If the table was ever
  grown, the lock of the table is still held by the thread that did it, and destroying it is undefined.
\<close>

theorem IOManager_dtor_outcome:
  assumes sc: "scheds w s = Some sc" "Scheduler_isStoped sc" "m_rootFiber sc = None" and io: "ioms w s = Some io"
  shows "(m_mutex io = rw_free \<longrightarrow> (\<exists>w'. IOManager_dtor closes iom_idle fuel t s w = Inr w' \<and> ioms w' s = None
      \<and> kernel w' = closes s (kernel w) \<and> (\<forall>k. registered (io_abs s w') k = None) \<and> (\<forall>u. u \<noteq> s \<longrightarrow> queues w' u = queues w u)))
    \<and> (writer (m_mutex io) \<noteq> None \<longrightarrow> IOManager_dtor closes iom_idle fuel t s w = Inl (UB ''pthread_rwlock_destroy''))"
proof (intro conjI impI)
  assume free: "m_mutex io = rw_free"
  let ?w' = "w\<lparr>scheds := (scheds w)(s := None), kernel := closes s (kernel w), ioms := (ioms w)(s := None)\<rparr>"
  have "IOManager_dtor closes iom_idle fuel t s w = Inr ?w'"
    using sc io free by (simp add: IOManager_dtor_def sched_at_def io_at_def RWMutex_dtor_def Scheduler_dtor_def)
  then show "\<exists>w'. IOManager_dtor closes iom_idle fuel t s w = Inr w' \<and> ioms w' s = None
      \<and> kernel w' = closes s (kernel w) \<and> (\<forall>k. registered (io_abs s w') k = None) \<and> (\<forall>u. u \<noteq> s \<longrightarrow> queues w' u = queues w u)"
    by (simp add: regs_of_def fd_ctx_at_def io_at_def queues_def)
next
  assume "writer (m_mutex io) \<noteq> None"
  then have "m_mutex io \<noteq> rw_free" by (auto simp: rw_free_def)
  then show "IOManager_dtor closes iom_idle fuel t s w = Inl (UB ''pthread_rwlock_destroy'')"
    using sc io by (simp add: IOManager_dtor_def sched_at_def io_at_def RWMutex_dtor_def)
qed

theorem IOManager_dtor_outcome_witness:
  "\<exists>w w'. registered (io_abs 0 w) (5, READ) = Some (Some 0, FiberAndThread_cb (Some BReturn) 0)
    \<and> IOManager_dtor (\<lambda>s k. Map.empty) BReturn 5 7 0 (w :: ((sid \<times> u32) \<Rightarrow> u32 option) ioworld) = Inr w' \<and> ioms w' 0 = None"
proof -
  let ?w = "upd_sched 0 (\<lambda>sc. sc\<lparr>m_autoStop := True, m_stopping := True\<rparr>) (io_example (ctx5 (waiting BReturn) no_event READ) 1)"
  obtain sc io where sc: "scheds ?w 0 = Some sc" "Scheduler_isStoped sc" "m_rootFiber sc = None" and io: "ioms ?w 0 = Some io" "m_mutex io = rw_free"
    by (simp add: Scheduler_isStoped_def)
  have "fd_ctx_at 0 5 ?w = Inr (ctx5 (waiting BReturn) no_event READ)"
    using io_example_ctx by (simp add: fd_ctx_at_frame [of ?w "io_example (ctx5 (waiting BReturn) no_event READ) 1"])
  then have "registered (io_abs 0 ?w) (5, READ) = Some (Some 0, FiberAndThread_cb (Some BReturn) 0)"
    by (simp add: regs_of_def ctx_regs_def ctx5_def waiting_def event_task_def event_consts)
  with IOManager_dtor_outcome [OF sc io(1), of "\<lambda>s k. Map.empty" BReturn 5 7] io(2) show ?thesis by blast
qed

end
