(* ===== verification/LogFormatter.thy ===== *)
theory LogFormatter
  imports Mutex
begin

text \<open>
  \<open>ddg/log.h\<close> and \<open>log.cc\<close>, the part that turns an event into text: the levels, the event, the
  format items, and \<open>LogFormatter\<close> with its parser of patterns. \<open>strftime\<close> (with \<open>localtime_r\<close>)
  and \<open>vasprintf\<close> are parameters.
\<close>

section \<open>Levels\<close>

text \<open>
  An unscoped enumeration, compared as a number; \<open>LoggerManager\<close> casts 100 to it.
\<close>

type_synonym level = nat

definition DEBUG :: level where "DEBUG = 1"
definition INFO :: level where "INFO = 2"
definition WARN :: level where "WARN = 3"
definition ERROR :: level where "ERROR = 4"
definition FATAL :: level where "FATAL = 5"
definition UNKNOW :: level where "UNKNOW = 6"

lemmas level_defs = DEBUG_def INFO_def WARN_def ERROR_def FATAL_def UNKNOW_def

definition LogLevel_ToString :: "level \<Rightarrow> string" where
  "LogLevel_ToString l =
     (if l = DEBUG then ''DEBUG'' else if l = INFO then ''INFO'' else if l = WARN then ''WARN''
      else if l = ERROR then ''ERROR'' else if l = FATAL then ''FATAL'' else ''UNKNOW'')"

text \<open>\<open>::toupper\<close> and \<open>isalpha\<close> in the C locale.\<close>

definition toupper :: "char \<Rightarrow> char" where
  "toupper c = (let n = of_char c :: nat in if 97 \<le> n \<and> n \<le> 122 then char_of (n - 32) else c)"

definition isalpha :: "char \<Rightarrow> bool" where
  "isalpha c \<longleftrightarrow> (let n = of_char c :: nat in 65 \<le> n \<and> n \<le> 90 \<or> 97 \<le> n \<and> n \<le> 122)"

definition LogLevel_FromString :: "string \<Rightarrow> level" where
  "LogLevel_FromString s =
     (let n = map toupper s
      in if n = ''DEBUG'' then DEBUG else if n = ''INFO'' then INFO else if n = ''WARN'' then WARN
         else if n = ''ERROR'' then ERROR else if n = ''FATAL'' then FATAL else UNKNOW)"

section \<open>Events\<close>

type_synonym lid = nat \<comment> \<open>the address of a logger\<close>

record log_event =
  ev_logger :: lid
  ev_level :: level
  ev_file :: string
  ev_line :: int
  ev_elapse :: u64
  ev_threadId :: u64
  ev_fiberId :: u64
  ev_time :: u64
  ev_ss :: string

definition LogEvent ::
  "lid \<Rightarrow> level \<Rightarrow> string \<Rightarrow> int \<Rightarrow> u64 \<Rightarrow> u64 \<Rightarrow> u64 \<Rightarrow> u64 \<Rightarrow> log_event" where
  "LogEvent logger level file line elapse thread_id fiber_id time =
     \<lparr>ev_logger = logger, ev_level = level, ev_file = file, ev_line = line, ev_elapse = elapse,
      ev_threadId = thread_id, ev_fiberId = fiber_id, ev_time = time, ev_ss = []\<rparr>"

text \<open>\<open>getSS() << s\<close>, and \<open>format(fmt, \<dots>)\<close> with what \<open>vasprintf\<close> made of it, if it succeeded.\<close>

definition ss_put :: "string \<Rightarrow> log_event \<Rightarrow> log_event" where
  "ss_put s e = e\<lparr>ev_ss := ev_ss e @ s\<rparr>"

definition LogEvent_format :: "string option \<Rightarrow> log_event \<Rightarrow> log_event" where
  "LogEvent_format printed e = (case printed of Some s \<Rightarrow> ss_put s e | None \<Rightarrow> e)"

section \<open>Format items\<close>

text \<open>A number as \<open>operator<<\<close> prints it.\<close>

fun dec :: "nat \<Rightarrow> string" where
  "dec n = (if n < 10 then [char_of (48 + n)] else dec (n div 10) @ [char_of (48 + n mod 10)])"

declare dec.simps [simp del]

definition dec_int :: "int \<Rightarrow> string" where
  "dec_int k = (if k < 0 then CHR ''-'' # dec (nat (- k)) else dec (nat k))"

datatype format_item =
    StringFormatItem string
  | MessageFormatItem
  | LevelFormatItem
  | ElapseFormatItem
  | NameFormatItem
  | ThreadIdFormatItem
  | NewLineFormatItem
  | DateTimeFormatItem string
  | FilenameFormatItem
  | LineFormatItem
  | TabFormatItem
  | FiberIdFormatItem

text \<open>The default of \<open>DateTimeFormatItem\<close>'s constructor.\<close>

definition default_time :: string where "default_time = ''%Y-%m-%d %H:%M:%S''"

text \<open>
  \<open>FormatItem::format\<close> of each class. Only \<open>NameFormatItem\<close> looks at anything but the event: it
  asks the event's logger for its name, which takes that logger's lock; \<open>get_name\<close> is this call.
\<close>

fun item_format ::
  "('w \<Rightarrow> (string \<times> 'w) result) \<Rightarrow> (string \<Rightarrow> u64 \<Rightarrow> string) \<Rightarrow> level \<Rightarrow> log_event \<Rightarrow> format_item \<Rightarrow> 'w \<Rightarrow>
   (string \<times> 'w) result" where
  "item_format get_name strftime level ev (StringFormatItem s) w = Inr (s, w)"
| "item_format get_name strftime level ev MessageFormatItem w = Inr (ev_ss ev, w)"
| "item_format get_name strftime level ev LevelFormatItem w = Inr (LogLevel_ToString level, w)"
| "item_format get_name strftime level ev ElapseFormatItem w = Inr (dec (unat (ev_elapse ev)), w)"
| "item_format get_name strftime level ev NameFormatItem w = get_name w"
| "item_format get_name strftime level ev ThreadIdFormatItem w = Inr (dec (unat (ev_threadId ev)), w)"
| "item_format get_name strftime level ev NewLineFormatItem w = Inr ([CHR 0x0A], w)"
| "item_format get_name strftime level ev (DateTimeFormatItem f) w = Inr (strftime f (ev_time ev), w)"
| "item_format get_name strftime level ev FilenameFormatItem w = Inr (ev_file ev, w)"
| "item_format get_name strftime level ev LineFormatItem w = Inr (dec_int (ev_line ev), w)"
| "item_format get_name strftime level ev TabFormatItem w = Inr ([CHR 0x09], w)"
| "item_format get_name strftime level ev FiberIdFormatItem w = Inr (dec (unat (ev_fiberId ev)), w)"

fun items_format ::
  "('w \<Rightarrow> (string \<times> 'w) result) \<Rightarrow> (string \<Rightarrow> u64 \<Rightarrow> string) \<Rightarrow> level \<Rightarrow> log_event \<Rightarrow> format_item list \<Rightarrow> 'w \<Rightarrow>
   (string \<times> 'w) result" where
  "items_format get_name strftime level ev [] w = Inr ([], w)"
| "items_format get_name strftime level ev (i # is) w =
     and_then (item_format get_name strftime level ev i w) (\<lambda>(s, w1).
     and_then (items_format get_name strftime level ev is w1) (\<lambda>(ss, w2). Inr (s @ ss, w2)))"

section \<open>The parser of patterns\<close>

definition substr :: "string \<Rightarrow> nat \<Rightarrow> nat \<Rightarrow> string" where
  "substr s pos n = take n (drop pos s)"

text \<open>
  The inner loop of \<open>initPattern\<close>: from position \<open>n\<close>, with the local variables \<open>str\<close>, \<open>fmt\<close>,
  \<open>fmt_status\<close> and \<open>fmt_begin\<close>, for the \<open>%\<close> at position \<open>i\<close>. It returns the variables at its end.
\<close>

function scan_directive ::
  "string \<Rightarrow> nat \<Rightarrow> nat \<Rightarrow> string \<Rightarrow> string \<Rightarrow> nat \<Rightarrow> nat \<Rightarrow> nat \<times> string \<times> string \<times> nat" where
  "scan_directive pattern i n str fmt fmt_status fmt_begin =
     (if n < length pattern then
        if fmt_status = 0 \<and> \<not> isalpha (pattern ! n) \<and> pattern ! n \<noteq> CHR ''{'' \<and> pattern ! n \<noteq> CHR ''}''
        then (n, substr pattern (i + 1) (n - i - 1), fmt, fmt_status)
        else if fmt_status = 0 \<and> pattern ! n = CHR ''{''
        then scan_directive pattern i (n + 1) (substr pattern (i + 1) (n - i - 1)) fmt 1 n
        else if fmt_status = 1 \<and> pattern ! n = CHR ''}''
        then (n + 1, str, substr pattern (fmt_begin + 1) (n - fmt_begin - 1), 0)
        else scan_directive pattern i (n + 1)
          (if n + 1 = length pattern \<and> str = [] then drop (i + 1) pattern else str) fmt fmt_status fmt_begin
      else (n, str, fmt, fmt_status))"
  by pat_completeness auto
termination by (relation "measure (\<lambda>(p, i, n, _). length p - n)") auto

declare scan_directive.simps [simp del]

lemma scan_directive_ge: "n \<le> fst (scan_directive p i n str fmt st b)"
proof (induction p i n str fmt st b rule: scan_directive.induct)
  case (1 p i n str fmt st b)
  then show ?case by (subst scan_directive.simps) (auto simp: Let_def)
qed

lemma scan_directive_ge': "(n', r) = scan_directive p i (Suc i) str fmt st b \<Longrightarrow> i < n'"
  using scan_directive_ge [of "Suc i" p i str fmt st b] by (metis Suc_le_eq fst_conv)

text \<open>The outer loop, and the literal that is left at its end.\<close>

type_synonym piece = "string \<times> string \<times> nat"

function scan_pattern :: "string \<Rightarrow> nat \<Rightarrow> string \<Rightarrow> piece list \<Rightarrow> bool \<Rightarrow> piece list \<times> bool" where
  "scan_pattern pattern i nstr vec error =
     (if i < length pattern then
        if pattern ! i \<noteq> CHR ''%'' then scan_pattern pattern (i + 1) (nstr @ [pattern ! i]) vec error
        else if i + 1 < length pattern \<and> pattern ! (i + 1) = CHR ''%''
        then scan_pattern pattern (i + 1) (nstr @ ''%'') vec error
        else (case scan_directive pattern i (i + 1) [] [] 0 0 of (n, str, fmt, fmt_status) \<Rightarrow>
          if fmt_status = 0
          then scan_pattern pattern n [] ((if nstr \<noteq> [] then vec @ [(nstr, [], 0)] else vec) @ [(str, fmt, 1)]) error
          else scan_pattern pattern (i + 1) nstr (vec @ [(''<<pattern_error>>'', fmt, 0)]) True)
      else (if nstr \<noteq> [] then vec @ [(nstr, [], 0)] else vec, error))"
  by pat_completeness auto
termination
  by (relation "measure (\<lambda>(p, i, _). length p - i)") (auto dest!: scan_directive_ge')

declare scan_pattern.simps [simp del]

text \<open>\<open>s_format_items\<close>: the argument of a directive is not passed on to the item.\<close>

definition s_format_items :: "string \<Rightarrow> format_item option" where
  "s_format_items = [''m'' \<mapsto> MessageFormatItem, ''p'' \<mapsto> LevelFormatItem, ''r'' \<mapsto> ElapseFormatItem,
     ''c'' \<mapsto> NameFormatItem, ''t'' \<mapsto> ThreadIdFormatItem, ''n'' \<mapsto> NewLineFormatItem,
     ''d'' \<mapsto> DateTimeFormatItem default_time, ''f'' \<mapsto> FilenameFormatItem, ''l'' \<mapsto> LineFormatItem,
     ''T'' \<mapsto> TabFormatItem, ''F'' \<mapsto> FiberIdFormatItem, ''N'' \<mapsto> ThreadIdFormatItem]"

fun make_items :: "piece list \<Rightarrow> format_item list \<Rightarrow> bool \<Rightarrow> format_item list \<times> bool" where
  "make_items [] items error = (items, error)"
| "make_items ((str, fmt, k) # vec) items error =
     (if k = 0 then make_items vec (items @ [StringFormatItem str]) error
      else (case s_format_items str of
        None \<Rightarrow> make_items vec (items @ [StringFormatItem (''<<error_format %'' @ str @ ''>>'')]) True
      | Some it \<Rightarrow> make_items vec (items @ [it]) error))"

text \<open>
  \<open>initPattern\<close>: what it returns or throws, and the items it leaves in its argument. The return
  value is \<open>!error\<close> behind a \<open>throw\<close> for every error.
\<close>

definition initPattern :: "string \<Rightarrow> format_item list \<Rightarrow> bool result \<times> format_item list" where
  "initPattern pattern items =
     (let (vec, e1) = scan_pattern pattern 0 [] [] False;
          (items1, error) = make_items vec items e1
      in (if error then Inl (Exn pattern) else Inr (\<not> error), items1))"

definition checkValid :: "string \<Rightarrow> bool result" where
  "checkValid pattern = fst (initPattern pattern [])"

section \<open>LogFormatter\<close>

record log_formatter =
  fm_rwmutex :: rwlock
  m_pattern :: string
  m_items :: "format_item list"
  m_error :: bool

definition LogFormatter :: "string \<Rightarrow> log_formatter result" where
  "LogFormatter pattern =
     (let (ok, items) = initPattern pattern []
      in and_then ok (\<lambda>b. Inr \<lparr>fm_rwmutex = rw_free, m_pattern = pattern, m_items = items, m_error = \<not> b\<rparr>))"

text \<open>\<open>setPattern\<close> parses into the items it has; an exception leaves the items of the failed parse.\<close>

definition setPattern :: "tid \<Rightarrow> string \<Rightarrow> log_formatter \<Rightarrow> bool result \<times> log_formatter" where
  "setPattern t pattern fm =
     (case write_scope t (fm_rwmutex fm) of
        Inl e \<Rightarrow> (Inl e, fm)
      | Inr l \<Rightarrow>
          let (ok, items) = initPattern pattern (m_items fm);
              fm1 = fm\<lparr>fm_rwmutex := l, m_items := items\<rparr>
          in (case ok of Inl e \<Rightarrow> (Inl e, fm1)
              | Inr b \<Rightarrow> (Inr (\<not> \<not> b), fm1\<lparr>m_error := \<not> b\<rparr>)))"

definition getError :: "tid \<Rightarrow> log_formatter \<Rightarrow> (bool \<times> log_formatter) result" where
  "getError t fm = and_then (read_scope t (fm_rwmutex fm)) (\<lambda>l. Inr (m_error fm, fm\<lparr>fm_rwmutex := l\<rparr>))"

definition getPattern :: "tid \<Rightarrow> log_formatter \<Rightarrow> (string \<times> log_formatter) result" where
  "getPattern t fm = and_then (read_scope t (fm_rwmutex fm)) (\<lambda>l. Inr (m_pattern fm, fm\<lparr>fm_rwmutex := l\<rparr>))"

section \<open>What the scan of one directive returns\<close>

text \<open>The characters the inner loop takes into the name of a directive.\<close>

definition key_char :: "char \<Rightarrow> bool" where "key_char c \<longleftrightarrow> isalpha c \<or> c = CHR ''}''"

lemma key_char_marks [simp]: "\<not> key_char (CHR ''{'')" "\<not> key_char (CHR ''%'')"
  by (simp_all add: key_char_def isalpha_def)

lemma drop_Cons_nth: "drop n p = c # r \<Longrightarrow> n < length p \<and> p ! n = c \<and> drop (Suc n) p = r"
  by (metis drop_eq_Nil2 Cons_nth_drop_Suc linorder_not_le list.inject list.distinct(1))

lemma drop_beyond: "drop n p = xs @ r \<Longrightarrow> drop (n + length xs) p = r"
  by (metis add.commute append_eq_conv_conj drop_drop)

lemma scan_key:
  assumes "\<forall>c \<in> set ks. key_char c" and "drop n p = ks @ r"
  shows "scan_directive p i n str fmt 0 b = scan_directive p i (n + length ks)
    (if ks \<noteq> [] \<and> r = [] \<and> str = [] then drop (i + 1) p else str) fmt 0 b"
  using assms
proof (induction ks arbitrary: n str)
  case (Cons c ks)
  have n: "n < length p" "p ! n = c" "drop (Suc n) p = ks @ r"
    using drop_Cons_nth [of n p c "ks @ r"] Cons.prems(2) by auto
  have c: "isalpha c \<or> c = CHR ''}''" "c \<noteq> CHR ''{''"
    using Cons.prems(1) key_char_marks by (auto simp: key_char_def)
  have e: "Suc n = length p \<longleftrightarrow> ks @ r = []" using n by (metis Suc_leI drop_eq_Nil2 le_antisym order_refl)
  have "scan_directive p i n str fmt 0 b
    = scan_directive p i (Suc n) (if Suc n = length p \<and> str = [] then drop (i + 1) p else str) fmt 0 b"
    using n(1,2) c by (subst scan_directive.simps) auto
  also have "\<dots> = scan_directive p i (Suc n + length ks) (if ks \<noteq> [] \<and> r = [] \<and>
      (if Suc n = length p \<and> str = [] then drop (i + 1) p else str) = [] then drop (i + 1) p
      else if Suc n = length p \<and> str = [] then drop (i + 1) p else str) fmt 0 b"
    by (rule Cons.IH [OF _ n(3)]) (use Cons.prems(1) in simp)
  also have "(if ks \<noteq> [] \<and> r = [] \<and>
      (if Suc n = length p \<and> str = [] then drop (i + 1) p else str) = [] then drop (i + 1) p
      else if Suc n = length p \<and> str = [] then drop (i + 1) p else str)
    = (if c # ks \<noteq> [] \<and> r = [] \<and> str = [] then drop (i + 1) p else str)"
    unfolding e by auto
  finally show ?case by simp
qed simp

lemma scan_fmt:
  assumes "CHR ''}'' \<notin> set f" and "drop n p = f @ r"
  shows "scan_directive p i n str fmt 1 b = scan_directive p i (n + length f)
    (if f \<noteq> [] \<and> r = [] \<and> str = [] then drop (i + 1) p else str) fmt 1 b"
  using assms
proof (induction f arbitrary: n str)
  case (Cons c f)
  have n: "n < length p" "p ! n = c" "drop (Suc n) p = f @ r"
    using drop_Cons_nth [of n p c "f @ r"] Cons.prems(2) by auto
  have c: "c \<noteq> CHR ''}''" using Cons.prems(1) by auto
  have e: "Suc n = length p \<longleftrightarrow> f @ r = []" using n by (metis Suc_leI drop_eq_Nil2 le_antisym order_refl)
  have "scan_directive p i n str fmt 1 b
    = scan_directive p i (Suc n) (if Suc n = length p \<and> str = [] then drop (i + 1) p else str) fmt 1 b"
    using n(1,2) c by (subst scan_directive.simps) simp
  also have "\<dots> = scan_directive p i (Suc n + length f) (if f \<noteq> [] \<and> r = [] \<and>
      (if Suc n = length p \<and> str = [] then drop (i + 1) p else str) = [] then drop (i + 1) p
      else if Suc n = length p \<and> str = [] then drop (i + 1) p else str) fmt 1 b"
    by (rule Cons.IH [OF _ n(3)]) (use Cons.prems(1) in simp)
  also have "(if f \<noteq> [] \<and> r = [] \<and>
      (if Suc n = length p \<and> str = [] then drop (i + 1) p else str) = [] then drop (i + 1) p
      else if Suc n = length p \<and> str = [] then drop (i + 1) p else str)
    = (if c # f \<noteq> [] \<and> r = [] \<and> str = [] then drop (i + 1) p else str)"
    unfolding e by auto
  finally show ?case by simp
qed simp

lemma substr_key: "drop (Suc i) p = ks @ r \<Longrightarrow> substr p (Suc i) (length ks) = ks"
  by (simp add: substr_def)

lemma scan_directive_plain:
  assumes ks: "\<forall>c \<in> set ks. key_char c" and p: "drop (Suc i) p = ks @ r"
    and r: "r = [] \<or> \<not> key_char (hd r) \<and> hd r \<noteq> CHR ''{''"
  shows "scan_directive p i (Suc i) [] [] 0 0 = (Suc i + length ks, ks, [], 0)"
proof (cases r)
  case Nil
  then have "length p \<le> Suc i + length ks" using drop_beyond [OF p] by simp
  then show ?thesis using scan_key [OF ks p, of i "[]" "[]" 0] Nil p by (simp add: scan_directive.simps)
next
  case (Cons c r')
  have n: "Suc i + length ks < length p" "p ! (Suc i + length ks) = c"
    using drop_Cons_nth [of "Suc i + length ks" p c r'] drop_beyond [OF p] Cons by auto
  show ?thesis
    unfolding scan_key [OF ks p, of i "[]" "[]" 0]
    using n r Cons substr_key [OF p] by (subst scan_directive.simps) (simp add: key_char_def)
qed

lemma scan_directive_fmt:
  assumes ks: "\<forall>c \<in> set ks. key_char c" and p: "drop (Suc i) p = ks @ CHR ''{'' # q"
  shows "scan_directive p i (Suc i) [] [] 0 0
    = scan_directive p i (Suc (Suc i + length ks)) ks [] 1 (Suc i + length ks)"
    and "drop (Suc (Suc i + length ks)) p = q"
proof -
  have n: "Suc i + length ks < length p" "p ! (Suc i + length ks) = CHR ''{''" "drop (Suc (Suc i + length ks)) p = q"
    using drop_Cons_nth [of "Suc i + length ks" p "CHR ''{''" q] drop_beyond [OF p] by auto
  show "drop (Suc (Suc i + length ks)) p = q" by (rule n(3))
  show "scan_directive p i (Suc i) [] [] 0 0
    = scan_directive p i (Suc (Suc i + length ks)) ks [] 1 (Suc i + length ks)"
    unfolding scan_key [OF ks p, of i "[]" "[]" 0]
    using n substr_key [OF p] by (subst scan_directive.simps) simp
qed

lemma scan_directive_closed:
  assumes ks: "\<forall>c \<in> set ks. key_char c" and p: "drop (Suc i) p = ks @ CHR ''{'' # f @ CHR ''}'' # r"
    and f: "CHR ''}'' \<notin> set f"
  shows "scan_directive p i (Suc i) [] [] 0 0 = (i + length ks + length f + 3, ks, f, 0)"
proof -
  let ?b = "Suc i + length ks"
  have q: "drop (Suc ?b) p = f @ CHR ''}'' # r" by (rule scan_directive_fmt(2) [OF ks p])
  have n: "Suc ?b + length f < length p" "p ! (Suc ?b + length f) = CHR ''}''"
    using drop_Cons_nth [of "Suc ?b + length f" p "CHR ''}''" r] drop_beyond [OF q] by auto
  have "substr p (?b + 1) (length f) = f" using q by (simp add: substr_def)
  then have "scan_directive p i (Suc ?b + length f) ks [] 1 ?b = (Suc (Suc ?b + length f), ks, f, 0)"
    using n by (subst scan_directive.simps) simp
  then show ?thesis
    unfolding scan_directive_fmt(1) [OF ks p] using scan_fmt [OF f q, of i ks "[]" ?b] by simp
qed

lemma scan_directive_open:
  assumes ks: "\<forall>c \<in> set ks. key_char c" and p: "drop (Suc i) p = ks @ CHR ''{'' # f"
    and f: "CHR ''}'' \<notin> set f"
  shows "\<exists>n str fmt. scan_directive p i (Suc i) [] [] 0 0 = (n, str, fmt, 1)"
proof -
  let ?b = "Suc i + length ks"
  have q: "drop (Suc ?b) p = f @ []" using scan_directive_fmt(2) [OF ks p] by simp
  then have "length p \<le> Suc ?b + length f" using drop_beyond [OF q] by simp
  then show ?thesis
    unfolding scan_directive_fmt(1) [OF ks p] scan_fmt [OF f q, of i ks "[]" ?b]
    by (subst scan_directive.simps) simp
qed

section \<open>Patterns as sequences of tokens\<close>

text \<open>
  What a pattern means, independently of the scan: literal text and directives with an optional
  argument in braces. A directive without an argument ends before a character that could not
  belong to its name, which is what makes the text of a sequence readable again.
\<close>

datatype token = Lit string | Dir string "string option"

fun token_text :: "token \<Rightarrow> string" where
  "token_text (Lit s) = s"
| "token_text (Dir k None) = CHR ''%'' # k"
| "token_text (Dir k (Some f)) = CHR ''%'' # k @ CHR ''{'' # f @ ''}''"

definition unparse :: "token list \<Rightarrow> string" where
  "unparse ts = concat (map token_text ts)"

lemma unparse_simps [simp]: "unparse [] = []" "unparse (t # ts) = token_text t @ unparse ts"
  by (simp_all add: unparse_def)

fun token_piece :: "token \<Rightarrow> piece" where
  "token_piece (Lit s) = (s, [], 0)"
| "token_piece (Dir k f) = (k, case f of None \<Rightarrow> [] | Some x \<Rightarrow> x, 1)"

text \<open>
  Literal text. A percent sign is literal only in front of another one, which is then looked at
  again, so all of them are at the end of the text and a directive follows.
\<close>

definition literal :: "string \<Rightarrow> bool" where
  "literal s \<longleftrightarrow> set (dropWhile (\<lambda>c. c \<noteq> CHR ''%'') s) \<subseteq> {CHR ''%''}"

fun starts_directive :: "token list \<Rightarrow> bool" where
  "starts_directive (Dir k f # ts) \<longleftrightarrow> True"
| "starts_directive _ \<longleftrightarrow> False"

fun tokens_ok :: "token list \<Rightarrow> bool" where
  "tokens_ok [] \<longleftrightarrow> True"
| "tokens_ok (Lit s # ts) \<longleftrightarrow> s \<noteq> [] \<and> literal s \<and> tokens_ok ts \<and>
     (if CHR ''%'' \<in> set s then starts_directive ts else ts = [] \<or> starts_directive ts)"
| "tokens_ok (Dir k None # ts) \<longleftrightarrow> s_format_items k \<noteq> None \<and> tokens_ok ts \<and>
     (unparse ts = [] \<or> \<not> key_char (hd (unparse ts)) \<and> hd (unparse ts) \<noteq> CHR ''{'')"
| "tokens_ok (Dir k (Some f) # ts) \<longleftrightarrow> s_format_items k \<noteq> None \<and> CHR ''}'' \<notin> set f \<and> tokens_ok ts"

section \<open>The scan accepts exactly the token sequences\<close>

lemma known_key: "s_format_items k \<noteq> None \<Longrightarrow> \<exists>c. k = [c] \<and> key_char c"
  by (auto simp: s_format_items_def key_char_def isalpha_def split: if_splits)

lemma scan_literal:
  assumes "literal s" and "drop i p = s @ r" and "CHR ''%'' \<in> set s \<Longrightarrow> \<exists>r'. r = CHR ''%'' # r'"
  shows "scan_pattern p i nstr vec e = scan_pattern p (i + length s) (nstr @ s) vec e"
  using assms
proof (induction s arbitrary: i nstr)
  case (Cons c s)
  have i: "i < length p" "p ! i = c" "drop (Suc i) p = s @ r"
    using drop_Cons_nth [of i p c "s @ r"] Cons.prems(2) by auto
  have lit: "literal s" using Cons.prems(1) by (auto simp: literal_def split: if_splits dest: set_dropWhileD)
  have step: "scan_pattern p i nstr vec e = scan_pattern p (Suc i) (nstr @ [c]) vec e"
  proof (cases "c = CHR ''%''")
    case True
    then have s: "set s \<subseteq> {CHR ''%''}" using Cons.prems(1) by (simp add: literal_def)
    obtain r' where r: "r = CHR ''%'' # r'" using Cons.prems(3) True by auto
    have "\<exists>q. drop (Suc i) p = CHR ''%'' # q" using i(3) s r by (cases s) auto
    then have "Suc i < length p" "p ! Suc i = CHR ''%''" using drop_Cons_nth [of "Suc i" p] by auto
    then show ?thesis using i True by (subst scan_pattern.simps) simp
  next
    case False
    then show ?thesis using i by (subst scan_pattern.simps) simp
  qed
  also have "\<dots> = scan_pattern p (Suc i + length s) ((nstr @ [c]) @ s) vec e"
    by (rule Cons.IH [OF lit i(3)]) (use Cons.prems(3) in simp)
  finally show ?case by simp
qed simp

definition flush :: "string \<Rightarrow> piece list" where
  "flush nstr = (if nstr \<noteq> [] then [(nstr, [], 0)] else [])"

lemma scan_at_directive:
  assumes "drop i p = CHR ''%'' # q" and "q = [] \<or> hd q \<noteq> CHR ''%''"
    and "scan_directive p i (Suc i) [] [] 0 0 = (n, k, f, 0)"
  shows "scan_pattern p i nstr vec e = scan_pattern p n [] (vec @ flush nstr @ [(k, f, 1)]) e"
proof -
  have i: "i < length p" "p ! i = CHR ''%''" "drop (Suc i) p = q" using drop_Cons_nth [OF assms(1)] by auto
  have "\<not> (Suc i < length p \<and> p ! Suc i = CHR ''%'')"
    using i(3) assms(2) by (metis Cons_nth_drop_Suc list.sel(1) list.distinct(1))
  then show ?thesis using i assms(3) by (subst scan_pattern.simps) (auto simp: flush_def)
qed

lemma scan_tokens:
  assumes "tokens_ok ts" and "drop i p = unparse ts" and "nstr = [] \<or> ts = [] \<or> starts_directive ts"
  shows "scan_pattern p i nstr vec e = (vec @ flush nstr @ map token_piece ts, e)"
  using assms
proof (induction ts arbitrary: i nstr vec rule: tokens_ok.induct)
  case 1
  then have "\<not> i < length p" by simp
  then show ?case by (subst scan_pattern.simps) (simp add: flush_def)
next
  case (2 s ts)
  have next1: "\<exists>r'. unparse ts = CHR ''%'' # r'" if "starts_directive ts"
    using that by (cases ts rule: starts_directive.cases; cases "case hd ts of Dir k f \<Rightarrow> f | _ \<Rightarrow> None") (auto)
  have "scan_pattern p i nstr vec e = scan_pattern p (i + length s) (nstr @ s) vec e"
    by (rule scan_literal [of s i p "unparse ts"]) (use 2 next1 in \<open>auto split: if_splits\<close>)
  also have "\<dots> = (vec @ flush (nstr @ s) @ map token_piece ts, e)"
    using 2 drop_beyond [of i p s "unparse ts"] by (intro "2.IH") (auto split: if_splits)
  finally show ?case using 2 by (auto simp: flush_def)
next
  case (3 k ts)
  obtain c where k: "k = [c]" "key_char c" using 3(2) known_key [of k] by (metis tokens_ok.simps(3))
  have "scan_directive p i (Suc i) [] [] 0 0 = (Suc i + length k, k, [], 0)"
    by (rule scan_directive_plain [where r = "unparse ts"]) (use 3 k drop_Cons_nth [of i p] in auto)
  then have "scan_pattern p i nstr vec e = scan_pattern p (Suc i + length k) [] (vec @ flush nstr @ [(k, [], 1)]) e"
    using 3 k by (intro scan_at_directive [where q = "k @ unparse ts"]) auto
  also have "\<dots> = (((vec @ flush nstr @ [(k, [], 1)])) @ flush [] @ map token_piece ts, e)"
    using 3 drop_beyond [of i p "CHR ''%'' # k" "unparse ts"] by (intro "3.IH") auto
  finally show ?case by (simp add: flush_def)
next
  case (4 k f ts)
  obtain c where k: "k = [c]" "key_char c" using 4(2) known_key [of k] by (metis tokens_ok.simps(4))
  have "scan_directive p i (Suc i) [] [] 0 0 = (i + length k + length f + 3, k, f, 0)"
    by (rule scan_directive_closed [where r = "unparse ts"]) (use 4 k drop_Cons_nth [of i p] in auto)
  then have "scan_pattern p i nstr vec e = scan_pattern p (i + length k + length f + 3) [] (vec @ flush nstr @ [(k, f, 1)]) e"
    using 4 k by (intro scan_at_directive [where q = "k @ CHR ''{'' # f @ CHR ''}'' # unparse ts"]) auto
  also have "\<dots> = (((vec @ flush nstr @ [(k, f, 1)])) @ flush [] @ map token_piece ts, e)"
    using 4 drop_beyond [of i p "CHR ''%'' # k @ CHR ''{'' # f @ ''}''" "unparse ts"]
    by (intro "4.IH") (auto simp: algebra_simps eval_nat_numeral)
  finally show ?case by (simp add: flush_def)
qed


lemma scan_extends: "x \<in> set vec \<Longrightarrow> x \<in> set (fst (scan_pattern p i nstr vec e))"
proof (induction p i nstr vec e rule: scan_pattern.induct)
  case (1 p i nstr vec e)
  obtain n k f st where d: "scan_directive p i (Suc i) [] [] 0 0 = (n, k, f, st)" by (metis prod.exhaust)
  show ?case using 1 d by (subst scan_pattern.simps) (simp split del: if_split, auto split: if_splits)
qed

lemma scan_keeps_error: "snd (scan_pattern p i nstr vec True)"
proof (induction p i nstr vec "True" rule: scan_pattern.induct)
  case (1 p i nstr vec)
  obtain n k f st where d: "scan_directive p i (Suc i) [] [] 0 0 = (n, k, f, st)" by (metis prod.exhaust)
  show ?case using 1 d by (subst scan_pattern.simps) (simp split del: if_split, auto split: if_splits)
qed

lemma literal_snoc: "literal s \<Longrightarrow> CHR ''%'' \<notin> set s \<or> c = CHR ''%'' \<Longrightarrow> literal (s @ [c])"
  unfolding literal_def
  by (cases "\<exists>x \<in> set s. x = CHR ''%''") (auto simp: dropWhile_append dropWhile_eq_Nil_conv split: if_splits)

lemma directive_forms:
  obtains (plain) ks r where "drop (Suc i) p = ks @ r" "\<forall>c \<in> set ks. key_char c" "r = [] \<or> \<not> key_char (hd r) \<and> hd r \<noteq> CHR ''{''"
  | (closed) ks f r where "drop (Suc i) p = ks @ CHR ''{'' # f @ CHR ''}'' # r" "\<forall>c \<in> set ks. key_char c" "CHR ''}'' \<notin> set f"
  | (unclosed) ks f where "drop (Suc i) p = ks @ CHR ''{'' # f" "\<forall>c \<in> set ks. key_char c" "CHR ''}'' \<notin> set f"
proof -
  let ?d = "drop (Suc i) p"
  let ?ks = "takeWhile key_char ?d" and ?r = "dropWhile key_char ?d"
  have d: "?d = ?ks @ ?r" and ks: "\<forall>c \<in> set ?ks. key_char c" by (auto dest: set_takeWhileD)
  have r: "?r = [] \<or> \<not> key_char (hd ?r)" using hd_dropWhile [of key_char ?d] by auto
  show thesis
  proof (cases "?r \<noteq> [] \<and> hd ?r = CHR ''{''")
    case False
    then show ?thesis using plain [OF d ks] r by blast
  next
    case True
    then obtain q where q: "?r = CHR ''{'' # q" by (cases ?r) auto
    show ?thesis
    proof (cases "CHR ''}'' \<in> set q")
      case True
      then obtain f r' where "q = f @ CHR ''}'' # r'" "CHR ''}'' \<notin> set f" using split_list_first by metis
      then show ?thesis using closed [of ?ks f r'] d ks q by metis
    next
      case False
      then show ?thesis using unclosed [of ?ks q] d ks q by metis
    qed
  qed
qed

lemma scan_accepted:
  assumes "scan_pattern p i nstr vec e = (v, False)" and "literal nstr"
    and "CHR ''%'' \<in> set nstr \<longrightarrow> (\<exists>q. drop i p = CHR ''%'' # q)"
    and "\<forall>x \<in> set v. snd (snd x) \<noteq> 0 \<longrightarrow> s_format_items (fst x) \<noteq> None"
  shows "\<exists>ts. tokens_ok ts \<and> unparse ts = nstr @ drop i p"
  using assms
proof (induction p i nstr vec e rule: scan_pattern.induct)
  case (1 p i nstr vec e)
  consider (end_of) "\<not> i < length p" | (char) "i < length p" "p ! i \<noteq> CHR ''%''"
    | (percent) "i < length p" "p ! i = CHR ''%''" "Suc i < length p \<and> p ! Suc i = CHR ''%''"
    | (directive) "i < length p" "p ! i = CHR ''%''" "\<not> (Suc i < length p \<and> p ! Suc i = CHR ''%'')" by blast
  then show ?case
  proof cases
    case end_of
    then have "tokens_ok (if nstr = [] then [] else [Lit nstr])" using 1 by auto
    then show ?thesis using end_of by (intro exI [of _ "if nstr = [] then [] else [Lit nstr]"]) auto
  next
    case char
    then have s: "scan_pattern p (i + 1) (nstr @ [p ! i]) vec e = (v, False)"
      using 1 by (subst (asm) scan_pattern.simps) simp
    have d: "drop i p = p ! i # drop (Suc i) p" using Cons_nth_drop_Suc [of i p] char by simp
    then have no: "CHR ''%'' \<notin> set nstr" using 1 char by auto
    have "\<exists>ts. tokens_ok ts \<and> unparse ts = (nstr @ [p ! i]) @ drop (i + 1) p"
      by (rule "1.IH"(1)) (use char s 1 no literal_snoc in auto)
    then show ?thesis using d by simp
  next
    case percent
    then have s: "scan_pattern p (i + 1) (nstr @ ''%'') vec e = (v, False)"
      using 1 by (subst (asm) scan_pattern.simps) simp
    have d: "drop i p = CHR ''%'' # drop (Suc i) p" "drop (Suc i) p = CHR ''%'' # drop (Suc (Suc i)) p"
      using percent Cons_nth_drop_Suc [of i p] Cons_nth_drop_Suc [of "Suc i" p] by auto
    have "\<exists>ts. tokens_ok ts \<and> unparse ts = (nstr @ ''%'') @ drop (i + 1) p"
      by (rule "1.IH"(2)) (use percent s 1 d literal_snoc in auto)
    then show ?thesis using d by simp
  next
    case directive
    obtain n k f st where dir: "scan_directive p i (Suc i) [] [] 0 0 = (n, k, f, st)" by (metis prod.exhaust)
    have eq: "scan_pattern p i nstr vec e = (if st = 0 then scan_pattern p n [] (vec @ flush nstr @ [(k, f, 1)]) e
        else scan_pattern p (Suc i) nstr (vec @ [(''<<pattern_error>>'', f, 0)]) True)"
      using directive dir by (subst scan_pattern.simps) (auto simp: flush_def)
    then have st: "st = 0" using "1.prems"(1) scan_keeps_error by (metis snd_conv)
    then have s: "scan_pattern p n [] (vec @ flush nstr @ [(k, f, 1)]) e = (v, False)" using eq "1.prems"(1) by simp
    then have "(k, f, 1) \<in> set v" using scan_extends [of "(k, f, 1)" "vec @ flush nstr @ [(k, f, 1)]" p n "[]" e] by auto
    then have known: "s_format_items k \<noteq> None" using "1.prems"(4) by fastforce
    have "\<exists>ts. tokens_ok ts \<and> unparse ts = [] @ drop n p"
      using s "1.prems"(4) directive dir st unfolding flush_def
      by (intro "1.IH"(3)) (auto simp: literal_def)
    then obtain ts where ts: "tokens_ok ts" "unparse ts = drop n p" by auto
    have d: "drop i p = CHR ''%'' # drop (Suc i) p" using directive by (metis Cons_nth_drop_Suc)
    obtain t where t: "tokens_ok (t # ts)" "starts_directive (t # ts)" "token_text t @ drop n p = drop i p"
    proof (cases rule: directive_forms [of i p])
      case (plain ks r)
      then have "n = Suc i + length ks" "k = ks" using scan_directive_plain [of ks i p r] dir by auto
      then show ?thesis using plain known ts d drop_beyond [OF plain(1)] by (intro that [of "Dir ks None"]) auto
    next
      case (closed ks f' r)
      then have n: "n = i + length ks + length f' + 3" "k = ks" using scan_directive_closed [of ks i p f' r] dir by auto
      have "drop n p = r"
        using drop_beyond [of "Suc i" p "ks @ CHR ''{'' # f' @ ''}''" r] closed(1) n by (simp add: eval_nat_numeral algebra_simps)
      then show ?thesis using closed known ts d n by (intro that [of "Dir ks (Some f')"]) auto
    next
      case (unclosed ks f')
      then show ?thesis using scan_directive_open [of ks i p f'] dir st by auto
    qed
    let ?ts = "if nstr = [] then t # ts else Lit nstr # t # ts"
    have "tokens_ok ?ts" using t 1 by auto
    moreover have "unparse ?ts = nstr @ drop i p" using t ts by simp
    ultimately show ?thesis by blast
  qed
qed

section \<open>The whole parser\<close>

fun token_item :: "token \<Rightarrow> format_item" where
  "token_item (Lit s) = StringFormatItem s"
| "token_item (Dir k f) = (case s_format_items k of Some it \<Rightarrow> it | None \<Rightarrow> StringFormatItem k)"

lemma make_items_error: "snd (make_items vec items True)"
  by (induction vec arbitrary: items rule: list.induct) (auto split: option.split)

lemma make_items_ok:
  "snd (make_items vec items e) = False \<Longrightarrow> \<not> e \<and> (\<forall>x \<in> set vec. snd (snd x) \<noteq> 0 \<longrightarrow> s_format_items (fst x) \<noteq> None)"
proof (induction vec items e rule: make_items.induct)
  case (2 str fmt k vec items e)
  then show ?case using make_items_error by (auto split: if_splits option.splits)
qed simp

lemma make_items_tokens: "tokens_ok ts \<Longrightarrow> make_items (map token_piece ts) items e = (items @ map token_item ts, e)"
  by (induction ts arbitrary: items rule: tokens_ok.induct) auto

lemma initPattern_tokens:
  "tokens_ok ts \<Longrightarrow> initPattern (unparse ts) items = (Inr True, items @ map token_item ts)"
  using scan_tokens [of ts 0 "unparse ts" "[]" "[]" False]
  by (simp add: initPattern_def make_items_tokens flush_def)

lemma initPattern_accepted:
  assumes "fst (initPattern p items) = Inr b"
  shows "\<exists>ts. tokens_ok ts \<and> unparse ts = p"
proof -
  obtain v e1 where v: "scan_pattern p 0 [] [] False = (v, e1)" by fastforce
  obtain its e where its: "make_items v items e1 = (its, e)" by fastforce
  have "\<not> e" using assms v its by (auto simp: initPattern_def split: if_splits)
  then have "\<not> e1" and "\<forall>x \<in> set v. snd (snd x) \<noteq> 0 \<longrightarrow> s_format_items (fst x) \<noteq> None"
    using make_items_ok [of v items e1] its by auto
  then show ?thesis using scan_accepted [of p 0 "[]" "[]" False v] v by (auto simp: literal_def)
qed

text \<open>The items that do not depend on a logger, and what each of them prints.\<close>

fun item_text :: "string \<Rightarrow> (string \<Rightarrow> u64 \<Rightarrow> string) \<Rightarrow> level \<Rightarrow> log_event \<Rightarrow> format_item \<Rightarrow> string" where
  "item_text name strftime level ev (StringFormatItem s) = s"
| "item_text name strftime level ev MessageFormatItem = ev_ss ev"
| "item_text name strftime level ev LevelFormatItem = LogLevel_ToString level"
| "item_text name strftime level ev ElapseFormatItem = dec (unat (ev_elapse ev))"
| "item_text name strftime level ev NameFormatItem = name"
| "item_text name strftime level ev ThreadIdFormatItem = dec (unat (ev_threadId ev))"
| "item_text name strftime level ev NewLineFormatItem = [CHR 0x0A]"
| "item_text name strftime level ev (DateTimeFormatItem f) = strftime f (ev_time ev)"
| "item_text name strftime level ev FilenameFormatItem = ev_file ev"
| "item_text name strftime level ev LineFormatItem = dec_int (ev_line ev)"
| "item_text name strftime level ev TabFormatItem = [CHR 0x09]"
| "item_text name strftime level ev FiberIdFormatItem = dec (unat (ev_fiberId ev))"

text \<open>
  What a formatter asks of the logger of the event: a call for its name that gives the name and
  leaves a state in which it can be called again.
\<close>

locale named_logger =
  fixes get_name :: "'w \<Rightarrow> (string \<times> 'w) result"
    and ready :: "'w \<Rightarrow> bool"
    and name :: string
  assumes get_name_ready: "ready w \<Longrightarrow> get_name w = Inr (name, w)"
begin

lemma item_format_text: "ready w \<Longrightarrow> item_format get_name tf l ev i w = Inr (item_text name tf l ev i, w)"
  by (cases i) (simp_all add: get_name_ready)

lemma items_format_text:
  "ready w \<Longrightarrow> items_format get_name tf l ev is w = Inr (concat (map (item_text name tf l ev) is), w)"
  by (induction "is") (simp_all add: item_format_text)

end

text \<open>The items in which \<open>NameFormatItem\<close> does not occur can be printed in any state.\<close>

lemma items_format_nameless:
  "NameFormatItem \<notin> set is \<Longrightarrow>
    items_format get_name tf l ev is w = Inr (concat (map (item_text name tf l ev) is), w)"
proof (induction "is")
  case (Cons i "is")
  then show ?case by (cases i) simp_all
qed simp

text \<open>The items a parser is given stay in front.\<close>

lemma make_items_extends: "\<exists>new. fst (make_items vec items e) = items @ new"
proof (induction vec items e rule: make_items.induct)
  case (2 str fmt k vec items e)
  then show ?case by (cases "k = 0"; cases "s_format_items str") auto
qed simp

lemma initPattern_extends: "\<exists>new. snd (initPattern p items) = items @ new"
  using make_items_extends by (auto simp: initPattern_def case_prod_beta)

lemma initPattern_results: "fst (initPattern p items) = Inr True \<or> fst (initPattern p items) = Inl (Exn p)"
  by (auto simp: initPattern_def case_prod_beta)

lemma checkValid_tokens:
  "checkValid p = (if \<exists>ts. tokens_ok ts \<and> unparse ts = p then Inr True else Inl (Exn p))"
proof -
  have "checkValid p = Inr True \<or> checkValid p = Inl (Exn p)"
    using initPattern_results [of p "[]"] by (simp add: checkValid_def)
  moreover have "checkValid p = Inr True" if "\<exists>ts. tokens_ok ts \<and> unparse ts = p"
    using that initPattern_tokens [where items = "[]"] by (auto simp: checkValid_def)
  moreover have "\<exists>ts. tokens_ok ts \<and> unparse ts = p" if "checkValid p = Inr True"
    using that initPattern_accepted [of p "[]"] by (auto simp: checkValid_def)
  ultimately show ?thesis by auto
qed

lemma initPattern_rejects:
  assumes "\<nexists>ts. tokens_ok ts \<and> unparse ts = p"
  shows "fst (initPattern p items) = Inl (Exn p)"
  using initPattern_accepted [of p items] initPattern_results [of p items] assms by auto

text \<open>No accepted pattern ends in a percent sign.\<close>

lemma token_text_Dir [simp]: "token_text (Dir k f) \<noteq> []"
  by (cases f) auto

lemma tokens_end: "tokens_ok ts \<Longrightarrow> ts \<noteq> [] \<Longrightarrow> last (unparse ts) \<noteq> CHR ''%''"
proof (induction ts rule: tokens_ok.induct)
  case (2 s ts)
  then show ?case by (cases ts rule: starts_directive.cases; cases s rule: rev_cases)
    (auto simp: last_append split: if_splits)
next
  case (3 k ts)
  then obtain c where "k = [c]" "key_char c" using known_key [of k] by auto
  then show ?case using 3 by (cases ts) (auto simp: last_append)
next
  case (4 k f ts)
  then show ?case by (cases ts) (auto simp: last_append)
qed simp


section \<open>Properties\<close>

text \<open>
  C25: the patterns the parser accepts. \<open>checkValid\<close> returns true for exactly the texts of the
  well-formed token sequences, whose directives are all known; for every other pattern it throws,
  and it never returns false.
\<close>

theorem checkValid_iff_tokens:
  "checkValid p = (if \<exists>ts. tokens_ok ts \<and> unparse ts = p then Inr True else Inl (Exn p))"
  by (rule checkValid_tokens)

text \<open>
  C16: the text of a well-formed token sequence is read back. The parser appends exactly one item
  per token to the items it is given, in order, and reports no error.
\<close>

theorem initPattern_reads_tokens_back:
  assumes "tokens_ok ts"
  shows "initPattern (unparse ts) items = (Inr True, items @ map token_item ts)"
  using initPattern_tokens [OF assms] .

text \<open>The pattern \<open>Logger\<close>'s constructor uses.\<close>

definition default_tokens :: "token list" where
  "default_tokens = [Dir ''d'' (Some default_time), Dir ''T'' None, Dir ''t'' None, Dir ''T'' None,
     Dir ''F'' None, Dir ''T'' None, Lit ''['', Dir ''p'' None, Lit '']'', Dir ''T'' None, Lit ''<'',
     Dir ''f'' None, Lit '':'', Dir ''l'' None, Lit ''>'', Dir ''T'' None, Dir ''m'' None, Dir ''n'' None]"

lemma default_tokens_ok: "tokens_ok default_tokens"
  by (simp add: default_tokens_def default_time_def s_format_items_def literal_def key_char_def isalpha_def)

theorem initPattern_reads_tokens_back_witness:
  "initPattern ''%d{%Y-%m-%d %H:%M:%S}%T%t%T%F%T[%p]%T<%f:%l>%T%m%n'' []
    = (Inr True, [DateTimeFormatItem default_time, TabFormatItem, ThreadIdFormatItem, TabFormatItem,
        FiberIdFormatItem, TabFormatItem, StringFormatItem ''['', LevelFormatItem, StringFormatItem '']'',
        TabFormatItem, StringFormatItem ''<'', FilenameFormatItem, StringFormatItem '':'', LineFormatItem,
        StringFormatItem ''>'', TabFormatItem, MessageFormatItem, NewLineFormatItem])"
  using initPattern_reads_tokens_back [OF default_tokens_ok, of "[]"]
  by (simp add: default_tokens_def default_time_def s_format_items_def)

text \<open>
  A percent sign at the end. No pattern that ends in a percent sign is accepted, not even after
  another one, so a literal percent sign cannot be written there.
\<close>

theorem percent_at_end_rejected:
  "checkValid (s @ ''%'') = Inl (Exn (s @ ''%''))"
proof -
  have "\<nexists>ts. tokens_ok ts \<and> unparse ts = s @ ''%''"
    using tokens_end by (metis last_snoc snoc_eq_iff_butlast unparse_simps(1))
  then show ?thesis by (simp add: checkValid_tokens)
qed

text \<open>
  The names of the levels. A level's name, in any mixture of capital and small letters, is read
  as that level, the name of any other value as \<open>UNKNOW\<close>; and a text that is read as one of the five
  levels is its name.
\<close>

theorem LogLevel_names:
  "(map toupper s = LogLevel_ToString l \<longrightarrow>
      LogLevel_FromString s = (if DEBUG \<le> l \<and> l \<le> FATAL then l else UNKNOW))
    \<and> (LogLevel_FromString s \<noteq> UNKNOW \<longrightarrow> map toupper s = LogLevel_ToString (LogLevel_FromString s))"
proof (intro conjI impI)
  assume s: "map toupper s = LogLevel_ToString l"
  consider "l = 1" | "l = 2" | "l = 3" | "l = 4" | "l = 5" | "\<not> (1 \<le> l \<and> l \<le> 5)" by linarith
  then show "LogLevel_FromString s = (if DEBUG \<le> l \<and> l \<le> FATAL then l else UNKNOW)"
    using s by cases (auto simp: LogLevel_FromString_def LogLevel_ToString_def level_defs)
next
  assume "LogLevel_FromString s \<noteq> UNKNOW"
  then show "map toupper s = LogLevel_ToString (LogLevel_FromString s)"
    by (auto simp: LogLevel_FromString_def LogLevel_ToString_def level_defs Let_def split: if_splits)
qed

theorem LogLevel_names_witness:
  "LogLevel_FromString ''wArN'' = WARN"
  using LogLevel_names [of "''wArN''" WARN]
  by (simp add: toupper_def Let_def LogLevel_ToString_def level_defs of_char_def char_of_def bit_Suc_0_iff)

text \<open>
  A new pattern on a formatter. An accepted pattern's items are appended to those the
  formatter has, so it prints the old and the new text, and its pattern stays the old one; a
  rejected pattern is an exception, after which the items of the failed parse are there too. In
  both cases the formatter's write lock stays with the caller.
\<close>

theorem setPattern_appends:
  assumes free: "writer (fm_rwmutex fm) = None" "readers (fm_rwmutex fm) = []"
    and r: "setPattern t p fm = (r, fm')"
  shows "fm_rwmutex fm' = (fm_rwmutex fm)\<lparr>writer := Some t\<rparr> \<and> m_pattern fm' = m_pattern fm
    \<and> (if \<exists>ts. tokens_ok ts \<and> unparse ts = p
       then r = Inr True \<and> \<not> m_error fm'
         \<and> (\<forall>ts. tokens_ok ts \<and> unparse ts = p \<longrightarrow> m_items fm' = m_items fm @ map token_item ts)
       else r = Inl (Exn p) \<and> m_error fm' = m_error fm \<and> (\<exists>new. m_items fm' = m_items fm @ new))"
proof (cases "\<exists>ts. tokens_ok ts \<and> unparse ts = p")
  case True
  then obtain ts where ts: "tokens_ok ts" "unparse ts = p" by blast
  have "\<forall>us. tokens_ok us \<and> unparse us = p \<longrightarrow> map token_item us = map token_item ts"
    using initPattern_tokens [where items = "[]"] ts by (metis append_Nil prod.inject)
  moreover have "r = Inr True \<and> fm' = fm\<lparr>fm_rwmutex := (fm_rwmutex fm)\<lparr>writer := Some t\<rparr>,
      m_items := m_items fm @ map token_item ts, m_error := False\<rparr>"
    using r ts initPattern_tokens [OF ts(1), of "m_items fm"] by (simp add: setPattern_def write_scope_free free)
  ultimately show ?thesis using True by simp
next
  case False
  obtain new where "snd (initPattern p (m_items fm)) = m_items fm @ new" using initPattern_extends by blast
  then have "initPattern p (m_items fm) = (Inl (Exn p), m_items fm @ new)"
    using initPattern_rejects [OF False] by (metis prod.collapse)
  then have "r = Inl (Exn p) \<and> fm' = fm\<lparr>fm_rwmutex := (fm_rwmutex fm)\<lparr>writer := Some t\<rparr>, m_items := m_items fm @ new\<rparr>"
    using r by (simp add: setPattern_def write_scope_free free)
  then show ?thesis using False by simp
qed

theorem setPattern_appends_witness:
  "m_items (snd (setPattern 7 ''%n'' \<lparr>fm_rwmutex = rw_free, m_pattern = ''%m'', m_items = [MessageFormatItem], m_error = False\<rparr>))
    = [MessageFormatItem, NewLineFormatItem]"
proof -
  let ?fm = "\<lparr>fm_rwmutex = rw_free, m_pattern = ''%m'', m_items = [MessageFormatItem], m_error = False\<rparr>"
  obtain r fm' where r: "setPattern 7 ''%n'' ?fm = (r, fm')" by fastforce
  have ts: "tokens_ok [Dir ''n'' None]" "unparse [Dir ''n'' None] = ''%n''" by (simp_all add: s_format_items_def)
  have "\<exists>ts. tokens_ok ts \<and> unparse ts = ''%n''" using ts by blast
  then have "\<forall>ts. tokens_ok ts \<and> unparse ts = ''%n'' \<longrightarrow> m_items fm' = m_items ?fm @ map token_item ts"
    using setPattern_appends [OF _ _ r] by (simp add: rw_free_def)
  with ts have "m_items fm' = m_items ?fm @ map token_item [Dir ''n'' None]" by blast
  then show ?thesis using r by (simp add: s_format_items_def)
qed

text \<open>
  The argument of the time directive. Whatever format stands in the braces of \<open>%d\<close>, the item
  that is made has the default format.
\<close>

theorem time_argument_ignored:
  assumes "CHR ''}'' \<notin> set f"
  shows "initPattern (''%d{'' @ f @ ''}'') items = (Inr True, items @ [DateTimeFormatItem default_time])"
  using initPattern_tokens [of "[Dir ''d'' (Some f)]" items] assms by (simp add: s_format_items_def)

theorem time_argument_ignored_witness:
  "initPattern ''%d{%H}'' [] = (Inr True, [DateTimeFormatItem ''%Y-%m-%d %H:%M:%S''])"
  using time_argument_ignored [of "''%H''" "[]"] by (simp add: default_time_def)

end
