(* ===== verification/LexicalCast.thy ===== *)
theory LexicalCast
  imports Prelude
begin

text \<open>
  \<open>ddg/lexicalcast.h\<close>: the conversions between a container and its YAML text. A node of
  yaml-cpp is a value of the YAML data model; loading, printing and indexing a node are
  yaml-cpp's and are parameters, and so is the conversion of the elements, which is either
  another instance of the template or \<open>boost::lexical_cast\<close>.
\<close>

section \<open>Nodes and the interface of yaml-cpp\<close>

datatype yaml = YNull | YScalar string | YSeq "yaml list" | YMap "(yaml \<times> yaml) list"

text \<open>
  \<open>YAML::Load\<close>, which may throw; \<open>ss << node\<close>; and \<open>node[i]\<close>.
\<close>

record yaml_api =
  y_load :: "string \<Rightarrow> yaml result"
  y_emit :: "yaml \<Rightarrow> string"
  y_at :: "yaml \<Rightarrow> nat \<Rightarrow> yaml"

fun Scalar :: "yaml \<Rightarrow> string" where
  "Scalar (YScalar s) = s"
| "Scalar _ = []"

fun node_size :: "yaml \<Rightarrow> nat" where
  "node_size (YSeq xs) = length xs"
| "node_size (YMap kvs) = length kvs"
| "node_size _ = 0"

text \<open>
  The entries an iteration over a node visits, when its body uses them as pairs. An element of a
  sequence is no pair: the key of such an entry is an invalid node, whose use is an exception.
\<close>

fun node_entries :: "yaml \<Rightarrow> (yaml \<times> yaml) list result" where
  "node_entries (YMap kvs) = Inr kvs"
| "node_entries (YSeq (x # xs)) = Inl (Exn ''InvalidNode'')"
| "node_entries _ = Inr []"

text \<open>A loop that calls a conversion on each element and stops at the first exception.\<close>

fun map_result :: "('a \<Rightarrow> 'b result) \<Rightarrow> 'a list \<Rightarrow> 'b list result" where
  "map_result f [] = Inr []"
| "map_result f (x # xs) = and_then (f x) (\<lambda>y. and_then (map_result f xs) (\<lambda>ys. Inr (y # ys)))"

lemma map_result_cong [fundef_cong]:
  "xs = ys \<Longrightarrow> (\<And>x. x \<in> set ys \<Longrightarrow> f x = g x) \<Longrightarrow> map_result f xs = map_result g ys"
  by (induction ys arbitrary: xs) auto

lemma map_result_Inr:
  "map_result f xs = Inr ys \<longleftrightarrow> length ys = length xs \<and> (\<forall>i < length xs. f (xs ! i) = Inr (ys ! i))"
proof (induction xs arbitrary: ys)
  case (Cons x xs)
  show ?case
  proof (cases ys)
    case (Cons y zs)
    then show ?thesis using Cons.IH [of zs] by (auto simp: All_less_Suc2)
  qed auto
qed auto

lemma map_result_map: "(\<And>x. x \<in> set xs \<Longrightarrow> f x = Inr (g x)) \<Longrightarrow> map_result f xs = Inr (map g xs)"
  by (induction xs) auto

section \<open>Sequences and sets\<close>

text \<open>
  \<open>LexicalCast<std::string, std::vector<T>>\<close> (and \<open>std::list<T>\<close>): element \<open>i\<close> is printed and
  converted. The set instances insert the same elements into a set.
\<close>

definition seq_from_string :: "yaml_api \<Rightarrow> (string \<Rightarrow> 'a result) \<Rightarrow> string \<Rightarrow> 'a list result" where
  "seq_from_string Y from_str v =
     and_then (y_load Y v) (\<lambda>node.
       map_result (\<lambda>i. from_str (y_emit Y (y_at Y node i))) [0..<node_size node])"

definition seq_to_string :: "yaml_api \<Rightarrow> ('a \<Rightarrow> string result) \<Rightarrow> 'a list \<Rightarrow> string result" where
  "seq_to_string Y to_str v =
     and_then (map_result (\<lambda>i. and_then (to_str i) (y_load Y)) v) (\<lambda>nodes.
       Inr (y_emit Y (YSeq nodes)))"

definition set_from_string :: "yaml_api \<Rightarrow> (string \<Rightarrow> 'a result) \<Rightarrow> string \<Rightarrow> 'a set result" where
  "set_from_string Y from_str v =
     and_then (y_load Y v) (\<lambda>node.
     and_then (map_result (\<lambda>i. from_str (y_emit Y (y_at Y node i))) [0..<node_size node]) (\<lambda>xs.
       Inr (fold insert xs {})))"

text \<open>
  \<open>order\<close> is the order in which the container is traversed: ascending for \<open>std::set\<close>,
  unspecified for \<open>std::unordered_set\<close>.
\<close>

definition set_to_string :: "yaml_api \<Rightarrow> ('a set \<Rightarrow> 'a list) \<Rightarrow> ('a \<Rightarrow> string result) \<Rightarrow> 'a set \<Rightarrow> string result" where
  "set_to_string Y order to_str v = seq_to_string Y to_str (order v)"

section \<open>Maps\<close>

text \<open>
  \<open>LexicalCast<std::string, std::unordered_map<std::string, T>>\<close>: \<open>insert\<close> keeps the first entry
  of a key. (The \<open>std::map\<close> instance hands a node to a conversion from strings and does not
  compile when it is used.)
\<close>

definition map_insert :: "string \<times> 'a \<Rightarrow> (string \<Rightarrow> 'a option) \<Rightarrow> (string \<Rightarrow> 'a option)" where
  "map_insert kv mp = (case mp (fst kv) of None \<Rightarrow> mp(fst kv \<mapsto> snd kv) | Some _ \<Rightarrow> mp)"

definition map_from_string :: "yaml_api \<Rightarrow> (string \<Rightarrow> 'a result) \<Rightarrow> string \<Rightarrow> (string \<Rightarrow> 'a option) result" where
  "map_from_string Y from_str v =
     and_then (y_load Y v) (\<lambda>node.
     and_then (node_entries node) (\<lambda>entries.
     and_then (map_result (\<lambda>(k, n). and_then (from_str (y_emit Y n)) (\<lambda>x. Inr (Scalar k, x))) entries) (\<lambda>kvs.
       Inr (fold map_insert kvs Map.empty))))"

text \<open>\<open>force_insert\<close> turns the empty sequence node into a map and appends the entry.\<close>

definition map_to_string ::
  "yaml_api \<Rightarrow> ((string \<Rightarrow> 'a option) \<Rightarrow> (string \<times> 'a) list) \<Rightarrow> ('a \<Rightarrow> string result) \<Rightarrow>
   (string \<Rightarrow> 'a option) \<Rightarrow> string result" where
  "map_to_string Y order to_str v =
     and_then (map_result (\<lambda>(k, x). and_then (and_then (to_str x) (y_load Y)) (\<lambda>n. Inr (YScalar k, n)))
         (order v)) (\<lambda>kvs.
       Inr (y_emit Y (if kvs = [] then YSeq [] else YMap kvs)))"

section \<open>Round trips\<close>

text \<open>
  What is asked of yaml-cpp: on the nodes that occur, printing and loading are inverse to
  each other, and indexing a sequence gives its elements.
\<close>

definition yaml_reads_back :: "yaml_api \<Rightarrow> yaml \<Rightarrow> bool" where
  "yaml_reads_back Y n \<longleftrightarrow> y_load Y (y_emit Y n) = Inr n"

definition yaml_indexes :: "yaml_api \<Rightarrow> bool" where
  "yaml_indexes Y \<longleftrightarrow> (\<forall>xs i. i < length xs \<longrightarrow> y_at Y (YSeq xs) i = xs ! i)"

text \<open>
  The contract of a pair of conversions on one value: the text is that of a node, and
  reading the printed node gives the value back.
\<close>

definition converts_back :: "yaml_api \<Rightarrow> ('a \<Rightarrow> string result) \<Rightarrow> (string \<Rightarrow> 'a result) \<Rightarrow> ('a \<Rightarrow> yaml) \<Rightarrow> 'a \<Rightarrow> bool" where
  "converts_back Y to_str from_str node x \<longleftrightarrow>
     and_then (to_str x) (y_load Y) = Inr (node x) \<and> from_str (y_emit Y (node x)) = Inr x"

lemma seq_to_string_nodes:
  "(\<And>x. x \<in> set v \<Longrightarrow> converts_back Y to_str from_str node x) \<Longrightarrow>
    seq_to_string Y to_str v = Inr (y_emit Y (YSeq (map node v)))"
  by (simp add: seq_to_string_def map_result_map [where g = node] converts_back_def)

lemma seq_elements_back:
  assumes "\<And>x. x \<in> set v \<Longrightarrow> converts_back Y to_str from_str node x" and "yaml_indexes Y"
  shows "map_result (\<lambda>i. from_str (y_emit Y (y_at Y (YSeq (map node v)) i))) [0..<length v] = Inr v"
  using assms by (auto simp: map_result_Inr yaml_indexes_def converts_back_def)

lemma fold_insert_set: "fold insert xs A = A \<union> set xs"
  by (induction xs arbitrary: A) auto

lemma fold_map_insert:
  "distinct (map fst kvs) \<Longrightarrow> (\<And>k. k \<in> fst ` set kvs \<Longrightarrow> m k = None) \<Longrightarrow>
    fold map_insert kvs m = m ++ map_of kvs"
proof (induction kvs arbitrary: m)
  case (Cons kv kvs)
  have ins: "map_insert kv m = m(fst kv \<mapsto> snd kv)"
    using Cons.prems(2) by (simp add: map_insert_def)
  have "fold map_insert kvs (m(fst kv \<mapsto> snd kv)) = m(fst kv \<mapsto> snd kv) ++ map_of kvs"
  proof (rule Cons.IH)
    fix k assume k: "k \<in> fst ` set kvs"
    moreover have "fst kv \<notin> fst ` set kvs" using Cons.prems(1) by simp
    ultimately have "k \<noteq> fst kv" by blast
    then show "(m(fst kv \<mapsto> snd kv)) k = None"
      using Cons.prems(2) [of k] k by simp
  qed (use Cons.prems(1) in simp)
  moreover have none: "map_of kvs (fst kv) = None"
    using Cons.prems(1) unfolding map_of_eq_None_iff by simp
  have "m(fst kv \<mapsto> snd kv) ++ map_of kvs = m ++ map_of (kv # kvs)"
  proof
    fix k
    show "(m(fst kv \<mapsto> snd kv) ++ map_of kvs) k = (m ++ map_of (kv # kvs)) k"
      using none by (cases kv; cases "k = fst kv") (simp_all add: map_add_def split: option.splits)
  qed
  ultimately have "fold map_insert (kv # kvs) m = m ++ map_of (kv # kvs)"
    using ins by (simp only: fold.simps comp_apply)
  then show ?case .
qed simp

text \<open>A yaml-cpp that knows a list of nodes and their texts, for examples.\<close>

definition table_yaml :: "(yaml \<times> string) list \<Rightarrow> yaml_api" where
  "table_yaml tab = \<lparr>
     y_load = (\<lambda>s. case map_of (map (\<lambda>(n, t). (t, n)) tab) s of None \<Rightarrow> Inl (Exn ''parser'') | Some n \<Rightarrow> Inr n),
     y_emit = (\<lambda>n. case map_of tab n of None \<Rightarrow> ''?'' | Some s \<Rightarrow> s),
     y_at = (\<lambda>n i. case n of YSeq xs \<Rightarrow> xs ! i | _ \<Rightarrow> YNull)\<rparr>"

lemma table_yaml_indexes [simp]: "yaml_indexes (table_yaml tab)"
  by (simp add: yaml_indexes_def table_yaml_def)

section \<open>The loops of the list, unordered set and ordered map instances\<close>

text \<open>
  \<open>std::list\<close> and \<open>std::unordered_set\<close>: the loop over \<open>i < node.size()\<close>, with \<open>push_back\<close> or
  \<open>insert\<close> as \<open>add\<close>.
\<close>

function read_loop :: "('c \<Rightarrow> 'a \<Rightarrow> 'c) \<Rightarrow> yaml_api \<Rightarrow> (string \<Rightarrow> 'a result) \<Rightarrow> yaml \<Rightarrow> nat \<Rightarrow> 'c \<Rightarrow> 'c result" where
  "read_loop add Y from_str node i acc =
     (if i < node_size node
      then and_then (from_str (y_emit Y (y_at Y node i))) (\<lambda>x. read_loop add Y from_str node (Suc i) (add acc x))
      else Inr acc)"
  by auto
termination by (relation "measure (\<lambda>(_, _, _, node, i, _). node_size node - i)") auto

definition list_from_string :: "yaml_api \<Rightarrow> (string \<Rightarrow> 'a result) \<Rightarrow> string \<Rightarrow> 'a list result" where
  "list_from_string Y from_str v =
     and_then (y_load Y v) (\<lambda>node. read_loop (\<lambda>lis x. lis @ [x]) Y from_str node 0 [])"

definition uset_from_string :: "yaml_api \<Rightarrow> (string \<Rightarrow> 'a result) \<Rightarrow> string \<Rightarrow> 'a set result" where
  "uset_from_string Y from_str v =
     and_then (y_load Y v) (\<lambda>node. read_loop (\<lambda>st x. insert x st) Y from_str node 0 {})"

text \<open>\<open>node.push_back\<close> and \<open>node.force_insert\<close>, on the nodes the loops build.\<close>

fun node_push_back :: "yaml \<Rightarrow> yaml \<Rightarrow> yaml" where
  "node_push_back (YSeq ns) n = YSeq (ns @ [n])"
| "node_push_back m n = YSeq [n]"

fun node_force_insert :: "yaml \<Rightarrow> string \<Rightarrow> yaml \<Rightarrow> yaml" where
  "node_force_insert (YMap kvs) k n = YMap (kvs @ [(YScalar k, n)])"
| "node_force_insert m k n = YMap [(YScalar k, n)]"

fun print_loop :: "yaml_api \<Rightarrow> ('a \<Rightarrow> string result) \<Rightarrow> 'a list \<Rightarrow> yaml \<Rightarrow> yaml result" where
  "print_loop Y to_str [] node = Inr node"
| "print_loop Y to_str (x # xs) node =
     and_then (and_then (to_str x) (y_load Y)) (\<lambda>n. print_loop Y to_str xs (node_push_back node n))"

definition list_to_string :: "yaml_api \<Rightarrow> ('a \<Rightarrow> string result) \<Rightarrow> 'a list \<Rightarrow> string result" where
  "list_to_string Y to_str v = and_then (print_loop Y to_str v (YSeq [])) (\<lambda>node. Inr (y_emit Y node))"

definition uset_to_string :: "yaml_api \<Rightarrow> ('a set \<Rightarrow> 'a list) \<Rightarrow> ('a \<Rightarrow> string result) \<Rightarrow> 'a set \<Rightarrow> string result" where
  "uset_to_string Y order to_str v = and_then (print_loop Y to_str (order v) (YSeq [])) (\<lambda>node. Inr (y_emit Y node))"

text \<open>\<open>LexicalCast<std::map<std::string, T>, std::string>\<close>: the entries ascend by key.\<close>

fun force_inserts :: "yaml_api \<Rightarrow> ('a \<Rightarrow> string result) \<Rightarrow> (string \<times> 'a) list \<Rightarrow> yaml \<Rightarrow> yaml result" where
  "force_inserts Y to_str [] node = Inr node"
| "force_inserts Y to_str ((k, x) # kxs) node =
     and_then (and_then (to_str x) (y_load Y)) (\<lambda>n. force_inserts Y to_str kxs (node_force_insert node k n))"

definition ordered_map_to_string ::
  "yaml_api \<Rightarrow> ((string \<Rightarrow> 'a option) \<Rightarrow> (string \<times> 'a) list) \<Rightarrow> ('a \<Rightarrow> string result) \<Rightarrow> (string \<Rightarrow> 'a option) \<Rightarrow> string result" where
  "ordered_map_to_string Y ascending to_str v =
     and_then (force_inserts Y to_str (ascending v) (YSeq [])) (\<lambda>node. Inr (y_emit Y node))"

lemma read_loop_map:
  "read_loop add Y from_str node i acc =
     and_then (map_result (\<lambda>j. from_str (y_emit Y (y_at Y node j))) [i..<node_size node]) (\<lambda>xs. Inr (foldl add acc xs))"
proof (induction add Y from_str node i acc rule: read_loop.induct)
  case (1 add Y from_str node i acc)
  show ?case
  proof (cases "i < node_size node")
    case True
    then show ?thesis
      using 1 by (subst read_loop.simps) (simp add: upt_rec [of i] and_then_assoc cong: and_then_cong)
  qed simp
qed

lemma print_loop_map:
  "print_loop Y to_str xs (YSeq ns) = and_then (map_result (\<lambda>i. and_then (to_str i) (y_load Y)) xs) (\<lambda>ms. Inr (YSeq (ns @ ms)))"
  by (induction xs arbitrary: ns) (simp_all add: and_then_assoc cong: and_then_cong)

lemma force_inserts_map:
  "force_inserts Y to_str kxs (YMap kns) =
     and_then (map_result (\<lambda>(k, x). and_then (and_then (to_str x) (y_load Y)) (\<lambda>n. Inr (YScalar k, n))) kxs)
       (\<lambda>ms. Inr (YMap (kns @ ms)))"
  by (induction kxs arbitrary: kns) (auto simp add: and_then_assoc simp del: and_then_Inr_iff cong: and_then_cong)

lemma foldl_snoc: "foldl (\<lambda>l x. l @ [x]) acc xs = acc @ xs"
  by (induction xs arbitrary: acc) simp_all

lemma foldl_insert: "foldl (\<lambda>A x. insert x A) A xs = A \<union> set xs"
  by (induction xs arbitrary: A) auto

text \<open>The loops compute what the instances for vectors, sets and unordered maps compute.\<close>

lemma list_from_loop: "list_from_string Y from_str s = seq_from_string Y from_str s"
  by (simp add: list_from_string_def seq_from_string_def read_loop_map foldl_snoc del: read_loop.simps)

lemma uset_from_loop: "uset_from_string Y from_str s = set_from_string Y from_str s"
  by (simp add: uset_from_string_def set_from_string_def read_loop_map foldl_insert fold_insert_set del: read_loop.simps)

lemma list_to_loop: "list_to_string Y to_str xs = seq_to_string Y to_str xs"
  by (simp add: list_to_string_def seq_to_string_def print_loop_map and_then_assoc)

lemma uset_to_loop: "uset_to_string Y order to_str A = set_to_string Y order to_str A"
  by (simp add: uset_to_string_def set_to_string_def seq_to_string_def print_loop_map and_then_assoc)

lemma ordered_map_to_loop: "ordered_map_to_string Y ascending to_str m = map_to_string Y ascending to_str m"
proof (cases "ascending m")
  case (Cons kx kxs)
  then show ?thesis
    by (cases kx) (simp add: ordered_map_to_string_def map_to_string_def force_inserts_map and_then_assoc cong: and_then_cong)
qed (simp add: ordered_map_to_string_def map_to_string_def)

lemmas container_loops = list_from_loop uset_from_loop list_to_loop uset_to_loop ordered_map_to_loop

section \<open>Properties\<close>


text \<open>
  C38: a vector (or list), and a set in any order of traversal, is read back from its own text, when
  every element is and yaml-cpp reads back the sequence it printed.
\<close>

theorem seq_and_set_round_trip:
  assumes el: "\<forall>x \<in> set v. converts_back Y to_str from_str node x"
    and yaml: "yaml_indexes Y" "yaml_reads_back Y (YSeq (map node v))"
    and order: "order (set v) = v"
  shows "and_then (seq_to_string Y to_str v) (seq_from_string Y from_str) = Inr v
    \<and> and_then (set_to_string Y order to_str (set v)) (set_from_string Y from_str) = Inr (set v)"
  using seq_to_string_nodes [of v Y to_str from_str node] seq_elements_back [of v Y to_str from_str node] assms
  by (simp add: set_to_string_def seq_from_string_def set_from_string_def yaml_reads_back_def fold_insert_set)

theorem seq_and_set_round_trip_witness:
  "let Y = table_yaml [(YScalar ''1'', ''1''), (YScalar ''2'', ''2''), (YSeq [YScalar ''1'', YScalar ''2''], ''[1, 2]'')];
       to_str = (\<lambda>n :: nat. Inr (if n = 1 then ''1'' else ''2''));
       from_str = (\<lambda>s. if s = ''1'' then Inr (1 :: nat) else if s = ''2'' then Inr 2 else Inl (Exn ''bad_lexical_cast''))
   in and_then (seq_to_string Y to_str [1, 2]) (seq_from_string Y from_str) = Inr [1, 2]"
  unfolding Let_def
  by (rule conjunct1 [OF seq_and_set_round_trip
        [where node = "\<lambda>n. YScalar (if n = 1 then ''1'' else ''2'')" and order = "\<lambda>_. [1, 2]"]])
    (simp_all add: converts_back_def yaml_reads_back_def, simp_all add: table_yaml_def)

text \<open>
  An unordered map from strings is read back from its own text, for any order of traversal,
  when every value is and yaml-cpp reads back the map it printed.
\<close>

theorem map_round_trip:
  assumes el: "\<forall>x \<in> ran v. converts_back Y to_str from_str node x"
    and order: "map_of (order v) = v" "distinct (map fst (order v))"
    and yaml: "yaml_reads_back Y (if order v = [] then YSeq [] else YMap (map (\<lambda>p. (YScalar (fst p), node (snd p))) (order v)))"
  shows "and_then (map_to_string Y order to_str v) (map_from_string Y from_str) = Inr v"
proof -
  let ?f = "\<lambda>p. (YScalar (fst p), node (snd p))"
  have conv: "converts_back Y to_str from_str node x" if "(k, x) \<in> set (order v)" for k x
  proof -
    have "v k = Some x" using that order by (metis map_of_is_SomeI)
    then show ?thesis using el by (auto intro: ranI)
  qed
  have "map_result (\<lambda>(k, x). and_then (and_then (to_str x) (y_load Y)) (\<lambda>n. Inr (YScalar k, n))) (order v)
      = Inr (map ?f (order v))"
    by (rule map_result_map) (use conv in \<open>auto simp: converts_back_def simp del: and_then_Inr_iff\<close>)
  then have "map_to_string Y order to_str v = Inr (y_emit Y (if order v = [] then YSeq [] else YMap (map ?f (order v))))"
    by (simp add: map_to_string_def)
  moreover have "map_result (\<lambda>(k, n). and_then (from_str (y_emit Y n)) (\<lambda>x. Inr (Scalar k, x))) (map ?f (order v)) = Inr (order v)"
    using conv by (auto simp: map_result_Inr converts_back_def case_prod_beta) (metis nth_mem prod.collapse)
  moreover have "fold map_insert (order v) Map.empty = v"
    using fold_map_insert [OF order(2), of Map.empty] order(1) by simp
  ultimately show ?thesis
    using yaml by (auto simp: map_from_string_def yaml_reads_back_def split: if_splits)
qed

theorem map_round_trip_witness:
  "let Y = table_yaml [(YScalar ''1'', ''1''), (YMap [(YScalar ''a'', YScalar ''1'')], ''a: 1'')];
       to_str = (\<lambda>n :: nat. Inr ''1''); from_str = (\<lambda>s. if s = ''1'' then Inr (1 :: nat) else Inl (Exn ''bad_lexical_cast''))
   in and_then (map_to_string Y (\<lambda>_. [(''a'', 1)]) to_str [''a'' \<mapsto> 1]) (map_from_string Y from_str) = Inr [''a'' \<mapsto> 1]"
  unfolding Let_def
  by (rule map_round_trip [where node = "\<lambda>n. YScalar ''1''"])
    (simp_all add: converts_back_def yaml_reads_back_def, simp_all add: table_yaml_def)

end
