(* ===== verification/Logger.thy ===== *)
theory Logger
  imports LogFormatter LexicalCast
begin

text \<open>
  \<open>ddg/log.h\<close> and \<open>log.cc\<close>: \<open>LogAppender\<close> with its two classes, \<open>Logger\<close>, and the logging macros.
  Formatters, appenders and loggers are objects in a store, because pointers to them are shared:
  an appender without a formatter gets the one of its logger. What is written to the standard
  output and to the files is the sequence \<open>outs\<close>.
\<close>

section \<open>The store\<close>

type_synonym mid = nat \<comment> \<open>the address of a formatter\<close>
type_synonym aid = nat \<comment> \<open>the address of an appender\<close>

text \<open>A file appender has its file's name and an \<open>ofstream\<close>, of which the state is kept.\<close>

datatype appender_class = StdoutLogAppender | FileLogAppender string bool

record log_appender =
  ap_class :: appender_class
  ap_rwmutex :: rwlock
  ap_mutex :: pmutex
  ap_level :: level
  ap_formatter :: "mid option"

record logger =
  lg_rwmutex :: rwlock
  lg_name :: string
  lg_level :: level
  lg_appenders :: "aid list"
  lg_formatter :: "mid option"
  lg_root :: "lid option"

datatype sink = ToStdout | ToFile string

record log_world =
  fmts :: "mid \<Rightarrow> log_formatter option"
  aps :: "aid \<Rightarrow> log_appender option"
  lgs :: "lid \<Rightarrow> logger option"
  next_obj :: nat
  outs :: "(sink \<times> string) list"

definition fmt_at :: "mid \<Rightarrow> 'z log_world_scheme \<Rightarrow> log_formatter result" where
  "fmt_at f w = (case fmts w f of None \<Rightarrow> Inl (UB ''no formatter'') | Some x \<Rightarrow> Inr x)"

definition ap_at :: "aid \<Rightarrow> 'z log_world_scheme \<Rightarrow> log_appender result" where
  "ap_at a w = (case aps w a of None \<Rightarrow> Inl (UB ''no appender'') | Some x \<Rightarrow> Inr x)"

definition lg_at :: "lid \<Rightarrow> 'z log_world_scheme \<Rightarrow> logger result" where
  "lg_at l w = (case lgs w l of None \<Rightarrow> Inl (UB ''no logger'') | Some x \<Rightarrow> Inr x)"

definition put_fmt :: "mid \<Rightarrow> log_formatter \<Rightarrow> 'z log_world_scheme \<Rightarrow> 'z log_world_scheme" where
  "put_fmt f x w = w\<lparr>fmts := (fmts w)(f \<mapsto> x)\<rparr>"

definition put_ap :: "aid \<Rightarrow> log_appender \<Rightarrow> 'z log_world_scheme \<Rightarrow> 'z log_world_scheme" where
  "put_ap a x w = w\<lparr>aps := (aps w)(a \<mapsto> x)\<rparr>"

definition put_lg :: "lid \<Rightarrow> logger \<Rightarrow> 'z log_world_scheme \<Rightarrow> 'z log_world_scheme" where
  "put_lg l x w = w\<lparr>lgs := (lgs w)(l \<mapsto> x)\<rparr>"

text \<open>\<open>deref\<close> of a pointer that may be null.\<close>

definition non_null :: "string \<Rightarrow> 'a option \<Rightarrow> 'a result" where
  "non_null what p = (case p of None \<Rightarrow> Inl (UB what) | Some x \<Rightarrow> Inr x)"

text \<open>
  A method that reads or changes members under the object's read or write guard, and nothing else.
\<close>

definition lg_read :: "(logger \<Rightarrow> 'a) \<Rightarrow> tid \<Rightarrow> lid \<Rightarrow> 'z log_world_scheme \<Rightarrow> ('a \<times> 'z log_world_scheme) result" where
  "lg_read field t l w =
     and_then (lg_at l w) (\<lambda>x.
     and_then (read_scope t (lg_rwmutex x)) (\<lambda>m. Inr (field x, put_lg l (x\<lparr>lg_rwmutex := m\<rparr>) w)))"

definition lg_write :: "(logger \<Rightarrow> logger) \<Rightarrow> tid \<Rightarrow> lid \<Rightarrow> 'z log_world_scheme \<Rightarrow> 'z log_world_scheme result" where
  "lg_write change t l w =
     and_then (lg_at l w) (\<lambda>x.
     and_then (write_scope t (lg_rwmutex x)) (\<lambda>m. Inr (put_lg l (change (x\<lparr>lg_rwmutex := m\<rparr>)) w)))"

definition ap_read :: "(log_appender \<Rightarrow> 'a) \<Rightarrow> tid \<Rightarrow> aid \<Rightarrow> 'z log_world_scheme \<Rightarrow> ('a \<times> 'z log_world_scheme) result" where
  "ap_read field t a w =
     and_then (ap_at a w) (\<lambda>x.
     and_then (read_scope t (ap_rwmutex x)) (\<lambda>m. Inr (field x, put_ap a (x\<lparr>ap_rwmutex := m\<rparr>) w)))"

definition ap_write :: "(log_appender \<Rightarrow> log_appender) \<Rightarrow> tid \<Rightarrow> aid \<Rightarrow> 'z log_world_scheme \<Rightarrow> 'z log_world_scheme result" where
  "ap_write change t a w =
     and_then (ap_at a w) (\<lambda>x.
     and_then (write_scope t (ap_rwmutex x)) (\<lambda>m. Inr (put_ap a (change (x\<lparr>ap_rwmutex := m\<rparr>)) w)))"

section \<open>Formatters in the store\<close>

definition Formatter_new :: "string \<Rightarrow> 'z log_world_scheme \<Rightarrow> (mid \<times> 'z log_world_scheme) result" where
  "Formatter_new pattern w =
     and_then (LogFormatter pattern) (\<lambda>fm.
     Inr (next_obj w, put_fmt (next_obj w) fm (w\<lparr>next_obj := next_obj w + 1\<rparr>)))"

definition Formatter_setPattern :: "tid \<Rightarrow> mid \<Rightarrow> string \<Rightarrow> 'z log_world_scheme \<Rightarrow> (bool result \<times> 'z log_world_scheme) result" where
  "Formatter_setPattern t f pattern w =
     and_then (fmt_at f w) (\<lambda>x. let (r, x1) = setPattern t pattern x in Inr (r, put_fmt f x1 w))"

section \<open>Appenders\<close>

text \<open>\<open>can_open\<close> is whether the system opens a file of that name for writing.\<close>

definition new_appender :: "appender_class \<Rightarrow> 'z log_world_scheme \<Rightarrow> aid \<times> 'z log_world_scheme" where
  "new_appender c w =
     (next_obj w,
      put_ap (next_obj w) \<lparr>ap_class = c, ap_rwmutex = rw_free, ap_mutex = None, ap_level = DEBUG, ap_formatter = None\<rparr>
        (w\<lparr>next_obj := next_obj w + 1\<rparr>))"

definition StdoutLogAppender_new :: "'z log_world_scheme \<Rightarrow> aid \<times> 'z log_world_scheme" where
  "StdoutLogAppender_new = new_appender StdoutLogAppender"

definition FileLogAppender_new :: "(string \<Rightarrow> bool) \<Rightarrow> string \<Rightarrow> 'z log_world_scheme \<Rightarrow> aid \<times> 'z log_world_scheme" where
  "FileLogAppender_new can_open file = new_appender (FileLogAppender file (can_open file))"

definition Appender_setFormatter :: "tid \<Rightarrow> aid \<Rightarrow> mid option \<Rightarrow> 'z log_world_scheme \<Rightarrow> 'z log_world_scheme result" where
  "Appender_setFormatter t a val = ap_write (\<lambda>x. x\<lparr>ap_formatter := val\<rparr>) t a"

definition Appender_getFormatter :: "tid \<Rightarrow> aid \<Rightarrow> 'z log_world_scheme \<Rightarrow> (mid option \<times> 'z log_world_scheme) result" where
  "Appender_getFormatter = ap_read ap_formatter"

definition Appender_setLevel :: "tid \<Rightarrow> aid \<Rightarrow> level \<Rightarrow> 'z log_world_scheme \<Rightarrow> 'z log_world_scheme result" where
  "Appender_setLevel t a level = ap_write (\<lambda>x. x\<lparr>ap_level := level\<rparr>) t a"

text \<open>
  \<open>reopen\<close> closes a stream that is good and opens the file again; it returns \<open>!m_filestream\<close>.
\<close>

definition reopen :: "(string \<Rightarrow> bool) \<Rightarrow> tid \<Rightarrow> aid \<Rightarrow> 'z log_world_scheme \<Rightarrow> (bool \<times> 'z log_world_scheme) result" where
  "reopen can_open t a w =
     and_then (ap_at a w) (\<lambda>x.
     case ap_class x of
       StdoutLogAppender \<Rightarrow> Inl (UB ''not a FileLogAppender'')
     | FileLogAppender file good \<Rightarrow>
         and_then (ap_write (\<lambda>x. x\<lparr>ap_class := FileLogAppender file (can_open file)\<rparr>) t a w) (\<lambda>w1.
         Inr (\<not> can_open file, w1)))"

text \<open>The names of the appender classes.\<close>

datatype appender_type = FILE_LOG_APPENDER | STDOUT_LOG_APPENDER | UNKNOW_APPENDER

definition Appender_FromString :: "string \<Rightarrow> appender_type" where
  "Appender_FromString s =
     (if ''FileLogAppender'' = s then FILE_LOG_APPENDER
      else if ''StdoutLogAppender'' = s then STDOUT_LOG_APPENDER else UNKNOW_APPENDER)"

definition Appender_ToString :: "appender_type \<Rightarrow> string" where
  "Appender_ToString ty =
     (case ty of FILE_LOG_APPENDER \<Rightarrow> ''FileLogAppender'' | STDOUT_LOG_APPENDER \<Rightarrow> ''StdoutLogAppender''
      | UNKNOW_APPENDER \<Rightarrow> ''UnknowAppender'')"

section \<open>Loggers, their members\<close>

definition default_pattern :: string where
  "default_pattern = ''%d{%Y-%m-%d %H:%M:%S}%T%t%T%F%T[%p]%T<%f:%l>%T%m%n''"

definition Logger_new :: "string \<Rightarrow> 'z log_world_scheme \<Rightarrow> (lid \<times> 'z log_world_scheme) result" where
  "Logger_new name w =
     and_then (LogFormatter default_pattern) (\<lambda>fm.
     let f = next_obj w; l = f + 1
     in Inr (l, put_lg l \<lparr>lg_rwmutex = rw_free, lg_name = name, lg_level = DEBUG, lg_appenders = [],
                  lg_formatter = Some f, lg_root = None\<rparr>
                (put_fmt f fm (w\<lparr>next_obj := f + 2\<rparr>))))"

definition Logger_getRoot :: "tid \<Rightarrow> lid \<Rightarrow> 'z log_world_scheme \<Rightarrow> (lid option \<times> 'z log_world_scheme) result" where
  "Logger_getRoot = lg_read lg_root"

definition Logger_setRoot :: "tid \<Rightarrow> lid \<Rightarrow> lid option \<Rightarrow> 'z log_world_scheme \<Rightarrow> 'z log_world_scheme result" where
  "Logger_setRoot t l root = lg_write (\<lambda>x. x\<lparr>lg_root := root\<rparr>) t l"

definition Logger_setLevel :: "tid \<Rightarrow> lid \<Rightarrow> level \<Rightarrow> 'z log_world_scheme \<Rightarrow> 'z log_world_scheme result" where
  "Logger_setLevel t l level = lg_write (\<lambda>x. x\<lparr>lg_level := level\<rparr>) t l"

definition Logger_getLevel :: "tid \<Rightarrow> lid \<Rightarrow> 'z log_world_scheme \<Rightarrow> (level \<times> 'z log_world_scheme) result" where
  "Logger_getLevel = lg_read lg_level"

definition Logger_getName :: "tid \<Rightarrow> lid \<Rightarrow> 'z log_world_scheme \<Rightarrow> (string \<times> 'z log_world_scheme) result" where
  "Logger_getName = lg_read lg_name"

definition Logger_getFormatter :: "tid \<Rightarrow> lid \<Rightarrow> 'z log_world_scheme \<Rightarrow> (mid option \<times> 'z log_world_scheme) result" where
  "Logger_getFormatter = lg_read lg_formatter"

definition getAppenders :: "tid \<Rightarrow> lid \<Rightarrow> 'z log_world_scheme \<Rightarrow> (aid list \<times> 'z log_world_scheme) result" where
  "getAppenders = lg_read lg_appenders"

text \<open>\<open>setFormatter(LogFormatter::ptr)\<close>: every appender gets the formatter.\<close>

fun set_formatters :: "tid \<Rightarrow> mid option \<Rightarrow> aid list \<Rightarrow> 'z log_world_scheme \<Rightarrow> 'z log_world_scheme result" where
  "set_formatters t f [] w = Inr w"
| "set_formatters t f (a # as) w = and_then (Appender_setFormatter t a f w) (set_formatters t f as)"

definition Logger_setFormatter :: "tid \<Rightarrow> lid \<Rightarrow> mid option \<Rightarrow> 'z log_world_scheme \<Rightarrow> 'z log_world_scheme result" where
  "Logger_setFormatter t l f w = and_then (lg_at l w) (\<lambda>x. set_formatters t f (lg_appenders x) w)"

text \<open>
  \<open>setFormatter(const std::string&)\<close>: the new formatter is asked for its error and dropped; what
  is installed is the logger's own.
\<close>

definition Logger_setPattern :: "tid \<Rightarrow> lid \<Rightarrow> string \<Rightarrow> 'z log_world_scheme \<Rightarrow> 'z log_world_scheme result" where
  "Logger_setPattern t l pattern w =
     and_then (LogFormatter pattern) (\<lambda>i.
     and_then (getError t i) (\<lambda>(err, i1).
     if err then Inr w
     else and_then (lg_at l w) (\<lambda>x. Logger_setFormatter t l (lg_formatter x) w)))"

definition addAppender :: "tid \<Rightarrow> lid \<Rightarrow> aid \<Rightarrow> 'z log_world_scheme \<Rightarrow> 'z log_world_scheme result" where
  "addAppender t l a w =
     and_then (Appender_getFormatter t a w) (\<lambda>(f, w1).
     and_then (if f = None then and_then (lg_at l w1) (\<lambda>x. Appender_setFormatter t a (lg_formatter x) w1)
               else Inr w1) (\<lambda>w2.
     lg_write (\<lambda>x. x\<lparr>lg_appenders := lg_appenders x @ [a]\<rparr>) t l w2))"

definition delAppender :: "tid \<Rightarrow> lid \<Rightarrow> aid \<Rightarrow> 'z log_world_scheme \<Rightarrow> 'z log_world_scheme result" where
  "delAppender t l a = lg_write (\<lambda>x. x\<lparr>lg_appenders := filter (\<lambda>b. b \<noteq> a) (lg_appenders x)\<rparr>) t l"

definition clearAppender :: "tid \<Rightarrow> lid \<Rightarrow> 'z log_world_scheme \<Rightarrow> 'z log_world_scheme result" where
  "clearAppender t l = lg_write (\<lambda>x. x\<lparr>lg_appenders := []\<rparr>) t l"

section \<open>Logging\<close>

text \<open>
  \<open>LogFormatter::format\<close>: the items, under the formatter's read lock.
\<close>

definition Formatter_format ::
  "(string \<Rightarrow> u64 \<Rightarrow> string) \<Rightarrow> tid \<Rightarrow> mid \<Rightarrow> level \<Rightarrow> log_event \<Rightarrow> 'z log_world_scheme \<Rightarrow> (string \<times> 'z log_world_scheme) result" where
  "Formatter_format tf t f level ev w =
     and_then (fmt_at f w) (\<lambda>x.
     and_then (ReadScopedLockImpl (RWMutex_rdlock t) (fm_rwmutex x)) (\<lambda>g.
     and_then (items_format (Logger_getName t (ev_logger ev)) tf level ev (m_items x)
         (put_fmt f (x\<lparr>fm_rwmutex := snd g\<rparr>) w)) (\<lambda>(s, w1).
     and_then (fmt_at f w1) (\<lambda>x1.
     and_then (ReadScopedLockImpl_dtor (RWMutex_unlock t) (fst g, fm_rwmutex x1)) (\<lambda>m.
     Inr (s, put_fmt f (x1\<lparr>fm_rwmutex := m\<rparr>) w1))))))"

text \<open>What inserting a text into the appender's stream does: a stream in a failed state takes nothing.\<close>

fun emit :: "appender_class \<Rightarrow> string \<Rightarrow> 'z log_world_scheme \<Rightarrow> 'z log_world_scheme" where
  "emit StdoutLogAppender s w = w\<lparr>outs := outs w @ [(ToStdout, s)]\<rparr>"
| "emit (FileLogAppender file good) s w = (if good then w\<lparr>outs := outs w @ [(ToFile file, s)]\<rparr> else w)"

definition Appender_log ::
  "(string \<Rightarrow> u64 \<Rightarrow> string) \<Rightarrow> tid \<Rightarrow> aid \<Rightarrow> level \<Rightarrow> log_event \<Rightarrow> 'z log_world_scheme \<Rightarrow> 'z log_world_scheme result" where
  "Appender_log tf t a level ev w =
     and_then (ap_at a w) (\<lambda>x.
     and_then (ScopedLockImpl (SpinLock_lock t) (ap_mutex x)) (\<lambda>g.
     let w1 = put_ap a (x\<lparr>ap_mutex := snd g\<rparr>) w
     in and_then (if ap_level x \<le> level then
            and_then (non_null ''null m_formatter'' (ap_formatter x)) (\<lambda>f.
            and_then (Formatter_format tf t f level ev w1) (\<lambda>(s, w2). Inr (emit (ap_class x) s w2)))
          else Inr w1) (\<lambda>w3.
        and_then (ap_at a w3) (\<lambda>x3.
        and_then (ScopedLockImpl_dtor (SpinLock_unlock t) (fst g, ap_mutex x3)) (\<lambda>m.
        Inr (put_ap a (x3\<lparr>ap_mutex := m\<rparr>) w3))))))"

fun appenders_log ::
  "(string \<Rightarrow> u64 \<Rightarrow> string) \<Rightarrow> tid \<Rightarrow> aid list \<Rightarrow> level \<Rightarrow> log_event \<Rightarrow> 'z log_world_scheme \<Rightarrow> 'z log_world_scheme result" where
  "appenders_log tf t [] level ev w = Inr w"
| "appenders_log tf t (a # as) level ev w = and_then (Appender_log tf t a level ev w) (appenders_log tf t as level ev)"

text \<open>
  \<open>Logger::log\<close>. A logger without appenders hands the event to its root, under its own read lock;
  the fuel bounds the length of the chain of roots.
\<close>

fun Logger_log ::
  "(string \<Rightarrow> u64 \<Rightarrow> string) \<Rightarrow> nat \<Rightarrow> tid \<Rightarrow> lid \<Rightarrow> level \<Rightarrow> log_event \<Rightarrow> 'z log_world_scheme \<Rightarrow> 'z log_world_scheme result" where
  "Logger_log tf 0 t l level ev w = Inl OutOfFuel"
| "Logger_log tf (Suc n) t l level ev w =
     and_then (lg_at l w) (\<lambda>x.
     and_then (ReadScopedLockImpl (RWMutex_rdlock t) (lg_rwmutex x)) (\<lambda>g.
     let w1 = put_lg l (x\<lparr>lg_rwmutex := snd g\<rparr>) w
     in and_then (if lg_level x \<le> level then
            (if lg_appenders x \<noteq> [] then appenders_log tf t (lg_appenders x) level ev w1
             else and_then (non_null ''null m_root'' (lg_root x)) (\<lambda>r. Logger_log tf n t r level ev w1))
          else Inr w1) (\<lambda>w2.
        and_then (lg_at l w2) (\<lambda>x2.
        and_then (ReadScopedLockImpl_dtor (RWMutex_unlock t) (fst g, lg_rwmutex x2)) (\<lambda>m.
        Inr (put_lg l (x2\<lparr>lg_rwmutex := m\<rparr>) w2))))))"

definition Logger_debug where "Logger_debug tf n t l ev = Logger_log tf n t l DEBUG ev"
definition Logger_info where "Logger_info tf n t l ev = Logger_log tf n t l INFO ev"
definition Logger_warn where "Logger_warn tf n t l ev = Logger_log tf n t l WARN ev"
definition Logger_error where "Logger_error tf n t l ev = Logger_log tf n t l ERROR ev"
definition Logger_fatal where "Logger_fatal tf n t l ev = Logger_log tf n t l FATAL ev"

text \<open>The destructor of \<open>LogEventWrap\<close> logs the event.\<close>

definition LogEventWrap_dtor ::
  "(string \<Rightarrow> u64 \<Rightarrow> string) \<Rightarrow> nat \<Rightarrow> tid \<Rightarrow> log_event \<Rightarrow> 'z log_world_scheme \<Rightarrow> 'z log_world_scheme result" where
  "LogEventWrap_dtor tf n t ev = Logger_log tf n t (ev_logger ev) (ev_level ev) ev"

text \<open>
  The statement \<open>DDG_LOG_LEVEL(logger, level) << text\<close> at a line of a file, in a fiber, at a time.
\<close>

definition DDG_LOG_LEVEL ::
  "(string \<Rightarrow> u64 \<Rightarrow> string) \<Rightarrow> nat \<Rightarrow> tid \<Rightarrow> lid \<Rightarrow> level \<Rightarrow> string \<Rightarrow> int \<Rightarrow> u64 \<Rightarrow> u64 \<Rightarrow> string \<Rightarrow>
   'z log_world_scheme \<Rightarrow> 'z log_world_scheme result" where
  "DDG_LOG_LEVEL tf n t l level file line fiber time txt w =
     and_then (Logger_getLevel t l w) (\<lambda>(lvl, w1).
     if lvl \<le> level
     then LogEventWrap_dtor tf n t (ss_put txt (LogEvent l level file line 0 t fiber time)) w1
     else Inr w1)"

section \<open>Printing the configuration\<close>

text \<open>\<open>m_formatter->getPattern()\<close> on an object in the store.\<close>

definition fmt_getPattern :: "tid \<Rightarrow> mid \<Rightarrow> 'z log_world_scheme \<Rightarrow> (string \<times> 'z log_world_scheme) result" where
  "fmt_getPattern t f w =
     and_then (fmt_at f w) (\<lambda>x. and_then (getPattern t x) (\<lambda>(s, x1). Inr (s, put_fmt f x1 w)))"

text \<open>
  \<open>toYamlString\<close> of the two classes of appenders; both write the type of the standard output.
\<close>

definition appender_node :: "log_appender \<Rightarrow> string \<Rightarrow> yaml" where
  "appender_node x pattern = YMap
     ([(YScalar ''level'', YScalar (LogLevel_ToString (ap_level x))),
       (YScalar ''type'', YScalar (Appender_ToString STDOUT_LOG_APPENDER)),
       (YScalar ''formatter'', YScalar pattern)]
      @ (case ap_class x of StdoutLogAppender \<Rightarrow> [] | FileLogAppender file good \<Rightarrow> [(YScalar ''file'', YScalar file)]))"

definition Appender_toYamlString ::
  "yaml_api \<Rightarrow> tid \<Rightarrow> aid \<Rightarrow> 'z log_world_scheme \<Rightarrow> (string \<times> 'z log_world_scheme) result" where
  "Appender_toYamlString Y t a w =
     and_then (ap_at a w) (\<lambda>x.
     and_then (ReadScopedLockImpl (RWMutex_rdlock t) (ap_rwmutex x)) (\<lambda>g.
     let w1 = put_ap a (x\<lparr>ap_rwmutex := snd g\<rparr>) w
     in and_then (non_null ''null m_formatter'' (ap_formatter x)) (\<lambda>f.
        and_then (fmt_getPattern t f w1) (\<lambda>(pattern, w2).
        and_then (ap_at a w2) (\<lambda>x2.
        and_then (ReadScopedLockImpl_dtor (RWMutex_unlock t) (fst g, ap_rwmutex x2)) (\<lambda>m.
        Inr (y_emit Y (appender_node x pattern), put_ap a (x2\<lparr>ap_rwmutex := m\<rparr>) w2)))))))"

text \<open>The appenders of a logger, each printed and parsed again.\<close>

fun appender_nodes :: "yaml_api \<Rightarrow> tid \<Rightarrow> aid list \<Rightarrow> 'z log_world_scheme \<Rightarrow> (yaml list \<times> 'z log_world_scheme) result" where
  "appender_nodes Y t [] w = Inr ([], w)"
| "appender_nodes Y t (a # as) w =
     and_then (Appender_toYamlString Y t a w) (\<lambda>(s, w1).
     and_then (y_load Y s) (\<lambda>n.
     and_then (appender_nodes Y t as w1) (\<lambda>(ns, w2). Inr (n # ns, w2))))"

definition Logger_toYamlString ::
  "yaml_api \<Rightarrow> tid \<Rightarrow> lid \<Rightarrow> 'z log_world_scheme \<Rightarrow> (string \<times> 'z log_world_scheme) result" where
  "Logger_toYamlString Y t l w =
     and_then (lg_at l w) (\<lambda>x.
     and_then (ReadScopedLockImpl (RWMutex_rdlock t) (lg_rwmutex x)) (\<lambda>g.
     and_then (case lg_formatter x of None \<Rightarrow> Inr ([], put_lg l (x\<lparr>lg_rwmutex := snd g\<rparr>) w)
               | Some f \<Rightarrow> and_then (fmt_getPattern t f (put_lg l (x\<lparr>lg_rwmutex := snd g\<rparr>) w))
                   (\<lambda>(s, w1). Inr ([(YScalar ''formatter'', YScalar s)], w1))) (\<lambda>(fs, w1).
     and_then (appender_nodes Y t (lg_appenders x) w1) (\<lambda>(ns, w2).
     and_then (lg_at l w2) (\<lambda>x2.
     and_then (ReadScopedLockImpl_dtor (RWMutex_unlock t) (fst g, lg_rwmutex x2)) (\<lambda>m.
     Inr (y_emit Y (YMap
            ([(YScalar ''name'', YScalar (lg_name x))]
             @ (if lg_level x \<noteq> UNKNOW then [(YScalar ''level'', YScalar (LogLevel_ToString (lg_level x)))] else [])
             @ fs
             @ (if ns \<noteq> [] then [(YScalar ''appenders'', YSeq ns)] else []))),
          put_lg l (x2\<lparr>lg_rwmutex := m\<rparr>) w2)))))))"

section \<open>The store, and members under a guard\<close>

lemma put_at [simp]:
  "lgs (put_lg l x w) = (lgs w)(l \<mapsto> x)" "aps (put_lg l x w) = aps w" "fmts (put_lg l x w) = fmts w" "outs (put_lg l x w) = outs w"
  "aps (put_ap a y w) = (aps w)(a \<mapsto> y)" "lgs (put_ap a y w) = lgs w" "fmts (put_ap a y w) = fmts w" "outs (put_ap a y w) = outs w"
  "fmts (put_fmt f z w) = (fmts w)(f \<mapsto> z)" "lgs (put_fmt f z w) = lgs w" "aps (put_fmt f z w) = aps w" "outs (put_fmt f z w) = outs w"
  "next_obj (put_lg l x w) = next_obj w" "next_obj (put_ap a y w) = next_obj w" "next_obj (put_fmt f z w) = next_obj w"
  by (simp_all add: put_lg_def put_ap_def put_fmt_def)

lemma put_same [simp]:
  "lgs w l = Some x \<Longrightarrow> put_lg l x w = w"
  "aps w a = Some y \<Longrightarrow> put_ap a y w = w"
  "fmts w f = Some z \<Longrightarrow> put_fmt f z w = w"
  by (simp_all add: put_lg_def put_ap_def put_fmt_def fun_upd_idem)

lemma put_put [simp]:
  "put_lg l x (put_lg l x' w) = put_lg l x w"
  "put_ap a y (put_ap a y' w) = put_ap a y w"
  "put_fmt f z (put_fmt f z' w) = put_fmt f z w"
  by (simp_all add: put_lg_def put_ap_def put_fmt_def)

lemma put_outs [simp]:
  "put_lg l x (w\<lparr>outs := os\<rparr>) = (put_lg l x w)\<lparr>outs := os\<rparr>"
  "put_ap a y (w\<lparr>outs := os\<rparr>) = (put_ap a y w)\<lparr>outs := os\<rparr>"
  "put_fmt f z (w\<lparr>outs := os\<rparr>) = (put_fmt f z w)\<lparr>outs := os\<rparr>"
  by (simp_all add: put_lg_def put_ap_def put_fmt_def)

lemma obj_at [simp]:
  "lgs w l = Some x \<Longrightarrow> lg_at l w = Inr x"
  "aps w a = Some y \<Longrightarrow> ap_at a w = Inr y"
  "fmts w f = Some z \<Longrightarrow> fmt_at f w = Inr z"
  "non_null what (Some v) = Inr v" "non_null what None = Inl (UB what)"
  by (simp_all add: lg_at_def ap_at_def fmt_at_def non_null_def)

lemma rdlock_in: "writer l = None \<Longrightarrow> ReadScopedLockImpl (RWMutex_rdlock t) l = Inr (True, l\<lparr>readers := t # readers l\<rparr>)"
  by (simp add: ReadScopedLockImpl_def lock_simps)

lemma rdlock_out: "writer l = None \<Longrightarrow> ReadScopedLockImpl_dtor (RWMutex_unlock t) (True, l\<lparr>readers := t # readers l\<rparr>) = Inr l"
  using rd.scope_restores [of l t] rdlock_in [of l t] by (simp add: ReadScopedLockImpl_eq del: and_then_Inr_iff)

lemma spin_in: "ScopedLockImpl (SpinLock_lock t) None = Inr (True, Some t)"
  by (simp add: ScopedLockImpl_def lock_simps)

lemma spin_out: "ScopedLockImpl_dtor (SpinLock_unlock t) (True, Some t) = Inr None"
  using spin.scope_restores [of None t] spin_in [of t] by (simp del: and_then_Inr_iff)

lemma lg_read_free: "lgs w l = Some x \<Longrightarrow> writer (lg_rwmutex x) = None \<Longrightarrow> lg_read fld t l w = Inr (fld x, w)"
  by (simp add: lg_read_def read_scope_free)

section \<open>What an event prints\<close>

definition event_text :: "(string \<Rightarrow> u64 \<Rightarrow> string) \<Rightarrow> level \<Rightarrow> log_event \<Rightarrow> 'z log_world_scheme \<Rightarrow> mid \<Rightarrow> string" where
  "event_text tf level ev w f =
     (case (fmts w f, lgs w (ev_logger ev)) of
        (Some fm, Some lg) \<Rightarrow> concat (map (item_text (lg_name lg) tf level ev) (m_items fm)) | _ \<Rightarrow> [])"

definition prints :: "(string \<Rightarrow> u64 \<Rightarrow> string) \<Rightarrow> level \<Rightarrow> log_event \<Rightarrow> 'z log_world_scheme \<Rightarrow> aid \<Rightarrow> (sink \<times> string) list" where
  "prints tf level ev w a =
     (case aps w a of None \<Rightarrow> []
      | Some x \<Rightarrow> (case ap_formatter x of None \<Rightarrow> []
        | Some f \<Rightarrow> if level < ap_level x then []
            else (case ap_class x of StdoutLogAppender \<Rightarrow> [(ToStdout, event_text tf level ev w f)]
                  | FileLogAppender file good \<Rightarrow> if good then [(ToFile file, event_text tf level ev w f)] else [])))"

lemma prints_frame:
  "prints tf level ev (w\<lparr>outs := os\<rparr>) = prints tf level ev w"
  "lgs w l = Some x \<Longrightarrow> lg_name x' = lg_name x \<Longrightarrow> prints tf level ev (put_lg l x' w) = prints tf level ev w"
  by (auto simp: prints_def event_text_def fun_eq_iff split: option.splits appender_class.splits)

interpretation ln: named_logger "Logger_getName t l"
  "\<lambda>w. \<exists>x. lgs w l = Some x \<and> writer (lg_rwmutex x) = None \<and> lg_name x = name" name for t l name
  by unfold_locales (auto simp: Logger_getName_def lg_read_free)

lemma Formatter_format_text:
  assumes f: "fmts w f = Some fm" "writer (fm_rwmutex fm) = None"
    and l: "lgs w (ev_logger ev) = Some lg" "writer (lg_rwmutex lg) = None"
  shows "Formatter_format tf t f level ev w = Inr (event_text tf level ev w f, w)"
proof -
  let ?fm = "fm\<lparr>fm_rwmutex := (fm_rwmutex fm)\<lparr>readers := t # readers (fm_rwmutex fm)\<rparr>\<rparr>"
  have "items_format (Logger_getName t (ev_logger ev)) tf level ev (m_items fm) (put_fmt f ?fm w)
    = Inr (concat (map (item_text (lg_name lg) tf level ev) (m_items fm)), put_fmt f ?fm w)"
    by (rule ln.items_format_text) (use l in simp)
  then show ?thesis
    using f l by (simp add: Formatter_format_def rdlock_in rdlock_out event_text_def)
qed

text \<open>No thread holds a lock that logging through the loggers of \<open>L\<close> has to wait for.\<close>

definition quiet :: "lid set \<Rightarrow> 'z log_world_scheme \<Rightarrow> bool" where
  "quiet L w \<longleftrightarrow> (\<forall>l \<in> L. \<forall>x. lgs w l = Some x \<longrightarrow> writer (lg_rwmutex x) = None) \<and> (\<forall>x \<in> ran (fmts w). writer (fm_rwmutex x) = None)
     \<and> (\<forall>x \<in> ran (aps w). ap_mutex x = None)"

lemma quietD:
  assumes "quiet L w"
  shows "l \<in> L \<Longrightarrow> lgs w l = Some x \<Longrightarrow> writer (lg_rwmutex x) = None"
    and "fmts w f = Some z \<Longrightarrow> writer (fm_rwmutex z) = None"
    and "aps w a = Some y \<Longrightarrow> ap_mutex y = None"
  using assms by (auto simp: quiet_def ran_def)

lemma quiet_mono: "quiet L w \<Longrightarrow> M \<subseteq> L \<Longrightarrow> quiet M w"
  by (auto simp: quiet_def)

lemma quiet_frame [simp]: "quiet L (w\<lparr>outs := os\<rparr>) = quiet L w"
  by (simp add: quiet_def)

lemma quiet_put_lg: "quiet L w \<Longrightarrow> writer (lg_rwmutex x) = None \<Longrightarrow> quiet L (put_lg l x w)"
  by (auto simp: quiet_def ran_def)

text \<open>No dangling pointer, and no appender of a logger without a formatter.\<close>

definition can_print :: "'z log_world_scheme \<Rightarrow> aid \<Rightarrow> bool" where
  "can_print w a \<longleftrightarrow> (\<exists>x f. aps w a = Some x \<and> ap_formatter x = Some f \<and> fmts w f \<noteq> None)"

lemma can_print_frame [simp]:
  "can_print (w\<lparr>outs := os\<rparr>) = can_print w" "can_print (put_lg l x w) = can_print w"
  by (simp_all add: can_print_def fun_eq_iff)

lemma Appender_log_prints:
  assumes q: "quiet {ev_logger ev} w" and a: "can_print w a" and l: "lgs w (ev_logger ev) \<noteq> None"
  shows "Appender_log tf t a level ev w = Inr (w\<lparr>outs := outs w @ prints tf level ev w a\<rparr>)"
proof -
  obtain x f fm lg where x: "aps w a = Some x" "ap_formatter x = Some f" "fmts w f = Some fm" "lgs w (ev_logger ev) = Some lg"
    using a l by (auto simp: can_print_def)
  have free: "ap_mutex x = None" "writer (fm_rwmutex fm) = None" "writer (lg_rwmutex lg) = None"
    using quietD [OF q] x by auto
  let ?x = "x\<lparr>ap_mutex := Some t\<rparr>"
  have restored: "x\<lparr>ap_mutex := None\<rparr> = x" using free(1) by simp
  have "Formatter_format tf t f level ev (put_ap a ?x w) = Inr (event_text tf level ev (put_ap a ?x w) f, put_ap a ?x w)"
    by (rule Formatter_format_text) (use x free in auto)
  moreover have "event_text tf level ev (put_ap a ?x w) f = event_text tf level ev w f" by (simp add: event_text_def)
  ultimately show ?thesis
    using x free by (cases "ap_class x") (simp_all add: Appender_log_def spin_in spin_out restored prints_def not_le)
qed

lemma appenders_log_prints:
  assumes "quiet {ev_logger ev} w" and "\<forall>a \<in> set as. can_print w a" and "lgs w (ev_logger ev) \<noteq> None"
  shows "appenders_log tf t as level ev w = Inr (w\<lparr>outs := outs w @ concat (map (prints tf level ev w) as)\<rparr>)"
  using assms
proof (induction "as" arbitrary: w)
  case (Cons a "as")
  then show ?case by (simp add: Appender_log_prints prints_frame)
qed simp

lemma Logger_log_own:
  assumes q: "quiet {l, ev_logger ev} w" and x: "lgs w l = Some x" and ev: "lgs w (ev_logger ev) \<noteq> None"
    and level: "lg_level x \<le> level" and ap: "lg_appenders x \<noteq> []" "\<forall>a \<in> set (lg_appenders x). can_print w a"
  shows "Logger_log tf (Suc n) t l level ev w = Inr (w\<lparr>outs := outs w @ concat (map (prints tf level ev w) (lg_appenders x))\<rparr>)"
proof -
  let ?x = "x\<lparr>lg_rwmutex := (lg_rwmutex x)\<lparr>readers := t # readers (lg_rwmutex x)\<rparr>\<rparr>"
  have free: "writer (lg_rwmutex x) = None" using quietD(1) [OF q _ x] by simp
  have "appenders_log tf t (lg_appenders x) level ev (put_lg l ?x w)
    = Inr ((put_lg l ?x w)\<lparr>outs := outs (put_lg l ?x w) @ concat (map (prints tf level ev (put_lg l ?x w)) (lg_appenders x))\<rparr>)"
    by (rule appenders_log_prints) (use q ev ap free quiet_mono [OF q, of "{ev_logger ev}"] in \<open>auto simp: quiet_put_lg\<close>)
  then show ?thesis
    using x free level ap(1) prints_frame(2) [OF x, of ?x] by (simp add: rdlock_in rdlock_out)
qed

lemma Logger_log_silent:
  assumes "quiet {l} w" and x: "lgs w l = Some x" and "level < lg_level x"
  shows "Logger_log tf (Suc n) t l level ev w = Inr w"
  using assms quietD(1) [OF assms(1) _ x] by (simp add: rdlock_in rdlock_out)

lemma Logger_log_root:
  assumes q: "quiet {l, r, ev_logger ev} w" and x: "lgs w l = Some x" and ev: "lgs w (ev_logger ev) \<noteq> None"
    and level: "lg_level x \<le> level" and ap: "lg_appenders x = []"
    and r: "lg_root x = Some r" "lgs w r = Some y" "lg_level y \<le> level" "lg_appenders y \<noteq> []" "\<forall>a \<in> set (lg_appenders y). can_print w a"
  shows "Logger_log tf (Suc (Suc n)) t l level ev w = Inr (w\<lparr>outs := outs w @ concat (map (prints tf level ev w) (lg_appenders y))\<rparr>)"
proof -
  let ?x = "x\<lparr>lg_rwmutex := (lg_rwmutex x)\<lparr>readers := t # readers (lg_rwmutex x)\<rparr>\<rparr>"
  have free: "writer (lg_rwmutex x) = None" using quietD(1) [OF q _ x] by simp
  have ne: "r \<noteq> l" using x ap r by auto
  have "Logger_log tf (Suc n) t r level ev (put_lg l ?x w)
    = Inr ((put_lg l ?x w)\<lparr>outs := outs (put_lg l ?x w) @ concat (map (prints tf level ev (put_lg l ?x w)) (lg_appenders y))\<rparr>)"
    by (rule Logger_log_own) (use ev free r ne quiet_mono [OF q, of "{r, ev_logger ev}"] in \<open>auto simp: quiet_put_lg\<close>)
  then show ?thesis
    using x free level ap r(1) prints_frame(2) [OF x, of ?x]
    by (subst Logger_log.simps(2)) (simp add: rdlock_in rdlock_out del: Logger_log.simps(2))
qed

section \<open>The invariant of the store\<close>

text \<open>
  Pointers lead to objects, and an appender in the list of a logger has a formatter.
\<close>

definition lg_ok :: "'z log_world_scheme \<Rightarrow> logger \<Rightarrow> bool" where
  "lg_ok w x \<longleftrightarrow> (\<forall>a \<in> set (lg_appenders x). can_print w a)
     \<and> (\<exists>f. lg_formatter x = Some f \<and> fmts w f \<noteq> None) \<and> (\<forall>r. lg_root x = Some r \<longrightarrow> lgs w r \<noteq> None)"

definition log_wf :: "'z log_world_scheme \<Rightarrow> bool" where
  "log_wf w \<longleftrightarrow> (\<forall>l x. lgs w l = Some x \<longrightarrow> lg_ok w x)
     \<and> (\<forall>a x f. aps w a = Some x \<longrightarrow> ap_formatter x = Some f \<longrightarrow> fmts w f \<noteq> None)
     \<and> (\<forall>i. next_obj w \<le> i \<longrightarrow> lgs w i = None \<and> aps w i = None \<and> fmts w i = None)"

lemma lg_ok_put_lg: "lg_ok w y \<Longrightarrow> lg_ok (put_lg l x w) y"
  by (auto simp: lg_ok_def)

lemma log_wf_put_lg:
  assumes "log_wf w" and "lgs w l \<noteq> None" and "lg_ok w x"
  shows "log_wf (put_lg l x w)"
  using assms lg_ok_put_lg by (auto simp: log_wf_def)

lemma log_wf_put_ap:
  assumes wf: "log_wf w" and y: "aps w a = Some y" "ap_formatter y \<noteq> None \<longrightarrow> ap_formatter y' \<noteq> None"
    and f: "\<forall>f. ap_formatter y' = Some f \<longrightarrow> fmts w f \<noteq> None"
  shows "log_wf (put_ap a y' w)"
proof -
  have "can_print w b \<Longrightarrow> can_print (put_ap a y' w) b" for b
    using y f by (auto simp: can_print_def)
  then have "lg_ok w x \<Longrightarrow> lg_ok (put_ap a y' w) x" for x by (auto simp: lg_ok_def)
  then show ?thesis using wf y f by (auto simp: log_wf_def)
qed

lemma log_wf_put_fmt:
  assumes wf: "log_wf w" and z: "fmts w f \<noteq> None"
  shows "log_wf (put_fmt f z' w)"
proof -
  have "can_print w b \<Longrightarrow> can_print (put_fmt f z' w) b" for b
    by (auto simp: can_print_def) metis
  then have "lg_ok w x \<Longrightarrow> lg_ok (put_fmt f z' w) x" for x by (auto simp: lg_ok_def)
  then show ?thesis using wf z by (auto simp: log_wf_def)
qed

lemma log_wf_outs [simp]: "log_wf (w\<lparr>outs := os\<rparr>) = log_wf w"
  by (simp add: log_wf_def lg_ok_def)

lemma log_wf_lgD: "log_wf w \<Longrightarrow> lgs w l = Some x \<Longrightarrow> lg_ok w x"
  by (simp add: log_wf_def)

lemma at_Inr [simp]:
  "lg_at l w = Inr x \<longleftrightarrow> lgs w l = Some x"
  "ap_at a w = Inr y \<longleftrightarrow> aps w a = Some y"
  "fmt_at f w = Inr z \<longleftrightarrow> fmts w f = Some z"
  "non_null what v = Inr u \<longleftrightarrow> v = Some u"
  by (auto simp: lg_at_def ap_at_def fmt_at_def non_null_def split: option.splits)

lemma lg_ok_lock [simp]: "lg_ok w (x\<lparr>lg_rwmutex := m\<rparr>) = lg_ok w x"
  by (simp add: lg_ok_def)

lemma log_wf_lg_read: "log_wf w \<Longrightarrow> lg_read fld t l w = Inr (v, w') \<Longrightarrow> log_wf w'"
  by (auto simp: lg_read_def intro!: log_wf_put_lg dest: log_wf_lgD)

lemma log_wf_lg_write:
  assumes "log_wf w" and "lg_write ch t l w = Inr w'" and "\<And>x. lg_ok w x \<Longrightarrow> lg_ok w (ch x)"
  shows "log_wf w'"
  using assms by (auto simp: lg_write_def intro!: log_wf_put_lg dest: log_wf_lgD)

lemma ap_formatter_wf: "log_wf w \<Longrightarrow> aps w a = Some y \<Longrightarrow> ap_formatter y = Some f \<Longrightarrow> fmts w f \<noteq> None"
  by (auto simp: log_wf_def)

lemma log_wf_ap_read: "log_wf w \<Longrightarrow> ap_read fld t a w = Inr (v, w') \<Longrightarrow> log_wf w'"
  by (auto simp: ap_read_def intro!: log_wf_put_ap dest: ap_formatter_wf)

lemma log_wf_ap_write:
  assumes "log_wf w" and "ap_write ch t a w = Inr w'"
    and "\<And>y. ap_formatter (ch y) = ap_formatter y \<or> (\<exists>f. ap_formatter (ch y) = Some f \<and> fmts w f \<noteq> None)"
  shows "log_wf w'"
proof -
  obtain y m where y: "aps w a = Some y" "w' = put_ap a (ch (y\<lparr>ap_rwmutex := m\<rparr>)) w"
    using assms(2) by (auto simp: ap_write_def)
  show ?thesis
    unfolding y(2) using assms(3) [of "y\<lparr>ap_rwmutex := m\<rparr>"] ap_formatter_wf [OF assms(1) y(1)]
    by (intro log_wf_put_ap [OF assms(1) y(1)]) auto
qed

lemma set_formatters_wf:
  "log_wf w \<Longrightarrow> f = Some g \<Longrightarrow> fmts w g \<noteq> None \<Longrightarrow> set_formatters t f as w = Inr w' \<Longrightarrow> log_wf w'"
proof (induction "as" arbitrary: w)
  case (Cons a "as")
  then obtain w1 where w1: "Appender_setFormatter t a f w = Inr w1" "set_formatters t f as w1 = Inr w'" by auto
  have "log_wf w1"
    by (rule log_wf_ap_write [OF Cons.prems(1) w1(1) [unfolded Appender_setFormatter_def]]) (use Cons.prems in auto)
  moreover have "fmts w1 = fmts w" using w1(1) by (auto simp: Appender_setFormatter_def ap_write_def)
  ultimately show ?case using Cons.IH [OF _ Cons.prems(2) _ w1(2)] Cons.prems(3) by simp
qed simp

lemma items_format_preserves:
  assumes "\<And>w s w'. P w \<Longrightarrow> get_name w = Inr (s, w') \<Longrightarrow> P w'"
  shows "P w \<Longrightarrow> items_format get_name tf level ev is w = Inr (s, w') \<Longrightarrow> P w'"
proof (induction "is" arbitrary: w s)
  case (Cons i "is")
  then obtain s1 w1 s2 where i: "item_format get_name tf level ev i w = Inr (s1, w1)"
      "items_format get_name tf level ev is w1 = Inr (s2, w')" by auto
  have "P w1" using i(1) Cons.prems(1) assms by (cases i) auto
  then show ?case using Cons.IH i(2) by blast
qed simp

lemma Formatter_format_wf:
  assumes "log_wf w" and "Formatter_format tf t f level ev w = Inr (s, w')"
  shows "log_wf w'"
proof -
  obtain x g w1 x1 m where x: "fmts w f = Some x"
      "items_format (Logger_getName t (ev_logger ev)) tf level ev (m_items x) (put_fmt f (x\<lparr>fm_rwmutex := snd g\<rparr>) w) = Inr (s, w1)"
      "fmts w1 f = Some x1" "w' = put_fmt f (x1\<lparr>fm_rwmutex := m\<rparr>) w1"
    using assms(2) by (auto simp: Formatter_format_def)
  have "log_wf w1"
    by (rule items_format_preserves [OF _ _ x(2)])
      (use assms(1) x(1) log_wf_lg_read in \<open>auto simp: Logger_getName_def intro!: log_wf_put_fmt\<close>)
  then show ?thesis using x by (auto intro!: log_wf_put_fmt)
qed

lemma and_thenE: "and_then x f = Inr b \<Longrightarrow> (\<And>a. x = Inr a \<Longrightarrow> f a = Inr b \<Longrightarrow> P) \<Longrightarrow> P"
  by auto

lemma emit_wf: "log_wf w \<Longrightarrow> log_wf (emit c s w)"
  by (cases c) auto

lemma Appender_log_wf:
  assumes wf: "log_wf w" and r: "Appender_log tf t a level ev w = Inr w'"
  shows "log_wf w'"
  using r unfolding Appender_log_def Let_def
proof (elim and_thenE, goal_cases)
  case (1 x g w3 x3 m)
  have "log_wf (put_ap a (x\<lparr>ap_mutex := snd g\<rparr>) w)"
    using 1(1) ap_formatter_wf [OF wf] by (intro log_wf_put_ap [OF wf, of a x]) auto
  then have w3: "log_wf w3" using 1(3) by (auto split: if_splits dest: Formatter_format_wf intro: emit_wf)
  have "log_wf (put_ap a (x3\<lparr>ap_mutex := m\<rparr>) w3)"
    using 1(4) ap_formatter_wf [OF w3] by (intro log_wf_put_ap [OF w3, of a x3]) auto
  then show ?case using 1 by simp
qed

lemma appenders_log_wf: "log_wf w \<Longrightarrow> appenders_log tf t as level ev w = Inr w' \<Longrightarrow> log_wf w'"
  by (induction "as" arbitrary: w) (auto dest: Appender_log_wf)

lemma Logger_log_wf: "log_wf w \<Longrightarrow> Logger_log tf n t l level ev w = Inr w' \<Longrightarrow> log_wf w'"
proof (induction n arbitrary: l w w')
  case (Suc n)
  from Suc.prems(2) show ?case
    unfolding Logger_log.simps Let_def
  proof (elim and_thenE, goal_cases)
    case (1 x g w2 x2 m)
    have "log_wf (put_lg l (x\<lparr>lg_rwmutex := snd g\<rparr>) w)"
      using 1(1) log_wf_lgD [OF Suc.prems(1)] by (intro log_wf_put_lg [OF Suc.prems(1)]) auto
    then have w2: "log_wf w2" using 1(3) appenders_log_wf Suc.IH by (auto split: if_splits)
    have "log_wf (put_lg l (x2\<lparr>lg_rwmutex := m\<rparr>) w2)"
      using 1(4) log_wf_lgD [OF w2] by (intro log_wf_put_lg [OF w2]) auto
    then show ?case using 1 by simp
  qed
qed simp

lemma addAppender_wf:
  assumes wf: "log_wf w" and r: "addAppender t l a w = Inr w'"
  shows "log_wf w'"
proof -
  obtain f w1 w2 where f: "Appender_getFormatter t a w = Inr (f, w1)"
    and w2: "(if f = None then and_then (lg_at l w1) (\<lambda>x. Appender_setFormatter t a (lg_formatter x) w1) else Inr w1) = Inr w2"
    and w': "lg_write (\<lambda>x. x\<lparr>lg_appenders := lg_appenders x @ [a]\<rparr>) t l w2 = Inr w'"
    using r by (auto simp: addAppender_def simp del: if_split)
  obtain y m where y: "f = ap_formatter y" "aps w1 a = Some (y\<lparr>ap_rwmutex := m\<rparr>)" "lgs w1 = lgs w"
    using f by (auto simp: Appender_getFormatter_def ap_read_def)
  have wf1: "log_wf w1" using log_wf_ap_read [OF wf] f by (auto simp: Appender_getFormatter_def)
  have "log_wf w2 \<and> can_print w2 a"
  proof (cases f)
    case (Some g)
    then show ?thesis using w2 wf1 y ap_formatter_wf [OF wf1 y(2)] by (auto simp: can_print_def)
  next
    case None
    then obtain x where x: "lgs w1 l = Some x" "Appender_setFormatter t a (lg_formatter x) w1 = Inr w2" using w2 by auto
    obtain g where g: "lg_formatter x = Some g" "fmts w1 g \<noteq> None" using log_wf_lgD [OF wf1 x(1)] by (auto simp: lg_ok_def)
    have "log_wf w2"
      by (rule log_wf_ap_write [OF wf1 x(2) [unfolded Appender_setFormatter_def]]) (use g in auto)
    moreover have "can_print w2 a" using x(2) g by (auto simp: Appender_setFormatter_def ap_write_def can_print_def)
    ultimately show ?thesis by blast
  qed
  then show ?thesis using w' by (intro log_wf_lg_write [OF _ w']) (auto simp: lg_ok_def)
qed

lemma LogFormatter_fresh: "LogFormatter p = Inr i \<Longrightarrow> \<not> m_error i \<and> fm_rwmutex i = rw_free"
  by (auto simp: LogFormatter_def initPattern_def case_prod_beta Let_def split: if_splits)

lemma Logger_setPattern_own:
  "LogFormatter p = Inr i \<Longrightarrow>
    Logger_setPattern t l p w = and_then (lg_at l w) (\<lambda>x. Logger_setFormatter t l (lg_formatter x) w)"
  using LogFormatter_fresh [of p i]
  by (simp add: Logger_setPattern_def getError_def read_scope_free rw_free_def)

section \<open>Everything a program can do with the store\<close>

inductive log_step :: "'z log_world_scheme \<Rightarrow> 'z log_world_scheme \<Rightarrow> bool" where
  new_logger: "Logger_new name w = Inr (l, w') \<Longrightarrow> log_step w w'"
| new_stdout: "StdoutLogAppender_new w = (a, w') \<Longrightarrow> log_step w w'"
| new_file: "FileLogAppender_new can_open file w = (a, w') \<Longrightarrow> log_step w w'"
| new_formatter: "Formatter_new pattern w = Inr (f, w') \<Longrightarrow> log_step w w'"
| set_pattern: "Formatter_setPattern t f pattern w = Inr (r, w') \<Longrightarrow> log_step w w'"
| ap_formatter: "Appender_setFormatter t a (Some f) w = Inr w' \<Longrightarrow> fmts w f \<noteq> None \<Longrightarrow> log_step w w'"
| ap_level: "Appender_setLevel t a level w = Inr w' \<Longrightarrow> log_step w w'"
| ap_get: "Appender_getFormatter t a w = Inr (v, w') \<Longrightarrow> log_step w w'"
| ap_reopen: "reopen can_open t a w = Inr (b, w') \<Longrightarrow> log_step w w'"
| lg_get_root: "Logger_getRoot t l w = Inr (v, w') \<Longrightarrow> log_step w w'"
| lg_get_level: "Logger_getLevel t l w = Inr (v, w') \<Longrightarrow> log_step w w'"
| lg_get_name: "Logger_getName t l w = Inr (v, w') \<Longrightarrow> log_step w w'"
| lg_get_formatter: "Logger_getFormatter t l w = Inr (v, w') \<Longrightarrow> log_step w w'"
| lg_get_appenders: "getAppenders t l w = Inr (v, w') \<Longrightarrow> log_step w w'"
| lg_root: "Logger_setRoot t l (Some r) w = Inr w' \<Longrightarrow> lgs w r \<noteq> None \<Longrightarrow> log_step w w'"
| lg_level: "Logger_setLevel t l level w = Inr w' \<Longrightarrow> log_step w w'"
| lg_formatter: "Logger_setFormatter t l (Some f) w = Inr w' \<Longrightarrow> fmts w f \<noteq> None \<Longrightarrow> log_step w w'"
| lg_pattern: "Logger_setPattern t l pattern w = Inr w' \<Longrightarrow> log_step w w'"
| lg_add: "addAppender t l a w = Inr w' \<Longrightarrow> log_step w w'"
| lg_del: "delAppender t l a w = Inr w' \<Longrightarrow> log_step w w'"
| lg_clear: "clearAppender t l w = Inr w' \<Longrightarrow> log_step w w'"
| lg_log: "Logger_log tf n t l level ev w = Inr w' \<Longrightarrow> log_step w w'"

inductive log_reachable :: "log_world \<Rightarrow> bool" where
  start: "log_reachable \<lparr>fmts = Map.empty, aps = Map.empty, lgs = Map.empty, next_obj = 0, outs = []\<rparr>"
| step: "log_reachable w \<Longrightarrow> log_step w w' \<Longrightarrow> log_reachable w'"

lemma log_wf_fresh:
  assumes wf: "log_wf w" and n: "next_obj w' = next_obj w + k"
    and l: "\<And>i. i < next_obj w \<Longrightarrow> lgs w' i = lgs w i \<and> aps w' i = aps w i \<and> fmts w' i = fmts w i"
    and new: "\<And>i x. next_obj w \<le> i \<Longrightarrow> lgs w' i = Some x \<Longrightarrow> i < next_obj w' \<and> lg_ok w' x"
      "\<And>i x. next_obj w \<le> i \<Longrightarrow> aps w' i = Some x \<Longrightarrow> i < next_obj w' \<and> ap_formatter x = None"
      "\<And>i x. next_obj w \<le> i \<Longrightarrow> fmts w' i = Some x \<Longrightarrow> i < next_obj w'"
  shows "log_wf w'"
proof -
  have old: "i < next_obj w" if "lgs w i \<noteq> None \<or> aps w i \<noteq> None \<or> fmts w i \<noteq> None" for i
    using wf that unfolding log_wf_def by (meson not_le)
  have keep: "lgs w i \<noteq> None \<Longrightarrow> lgs w' i = lgs w i" "aps w i \<noteq> None \<Longrightarrow> aps w' i = aps w i"
      "fmts w i \<noteq> None \<Longrightarrow> fmts w' i = fmts w i" for i
    using old [of i] l [of i] by auto
  have cp: "can_print w a \<Longrightarrow> can_print w' a" for a
    unfolding can_print_def using keep by (metis option.distinct(1))
  have ok: "lg_ok w x \<Longrightarrow> lg_ok w' x" for x
    unfolding lg_ok_def using cp keep by metis
  have "lg_ok w' x" if x: "lgs w' i = Some x" for i x
  proof (cases "i < next_obj w")
    case True
    then show ?thesis using l [of i] x ok log_wf_lgD [OF wf] by auto
  qed (use new(1) [of i x] x in auto)
  moreover have "fmts w' f \<noteq> None" if x: "aps w' i = Some x" "ap_formatter x = Some f" for i x f
  proof -
    have i: "i < next_obj w" using new(2) [of i x] x by (cases "i < next_obj w") auto
    then have "aps w i = Some x" using l [of i] x by simp
    then have "fmts w f \<noteq> None" using ap_formatter_wf [OF wf] x(2) by blast
    then show ?thesis using keep(3) by simp
  qed
  moreover have "lgs w' i = None \<and> aps w' i = None \<and> fmts w' i = None" if "next_obj w' \<le> i" for i
  proof -
    have i: "next_obj w \<le> i" using that n by simp
    have "lgs w' i = None" using new(1) [OF i] that by (cases "lgs w' i") (simp, meson not_le)
    moreover have "aps w' i = None" using new(2) [OF i] that by (cases "aps w' i") (simp, meson not_le)
    moreover have "fmts w' i = None" using new(3) [OF i] that by (cases "fmts w' i") (simp, meson not_le)
    ultimately show ?thesis by blast
  qed
  ultimately show ?thesis unfolding log_wf_def by blast
qed

lemma log_wf_none: "log_wf w \<Longrightarrow> next_obj w \<le> i \<Longrightarrow> lgs w i = None \<and> aps w i = None \<and> fmts w i = None"
  by (simp add: log_wf_def)

lemma Logger_new_wf:
  assumes wf: "log_wf w" and r: "Logger_new name w = Inr (l, w')"
  shows "log_wf w'"
proof -
  obtain fm where w': "w' = put_lg (Suc (next_obj w)) \<lparr>lg_rwmutex = rw_free, lg_name = name, lg_level = DEBUG,
      lg_appenders = [], lg_formatter = Some (next_obj w), lg_root = None\<rparr> (put_fmt (next_obj w) fm (w\<lparr>next_obj := next_obj w + 2\<rparr>))"
    using r by (auto simp: Logger_new_def Let_def)
  show ?thesis
    by (rule log_wf_fresh [OF wf, where k = 2]) (use log_wf_none [OF wf] in \<open>auto simp: w' lg_ok_def split: if_splits\<close>)
qed

lemma new_appender_wf:
  assumes wf: "log_wf w" and r: "new_appender c w = (a, w')"
  shows "log_wf w'"
proof -
  have w': "w' = put_ap (next_obj w) \<lparr>ap_class = c, ap_rwmutex = rw_free, ap_mutex = None, ap_level = DEBUG, ap_formatter = None\<rparr>
        (w\<lparr>next_obj := next_obj w + 1\<rparr>)"
    using r by (auto simp: new_appender_def)
  show ?thesis
    by (rule log_wf_fresh [OF wf, where k = 1]) (use log_wf_none [OF wf] in \<open>auto simp: w' split: if_splits\<close>)
qed

lemma Formatter_new_wf:
  assumes wf: "log_wf w" and r: "Formatter_new pattern w = Inr (f, w')"
  shows "log_wf w'"
proof -
  obtain fm where w': "w' = put_fmt (next_obj w) fm (w\<lparr>next_obj := next_obj w + 1\<rparr>)"
    using r by (auto simp: Formatter_new_def)
  show ?thesis
    by (rule log_wf_fresh [OF wf, where k = 1]) (use log_wf_none [OF wf] in \<open>auto simp: w' split: if_splits\<close>)
qed

lemma log_step_wf: "log_step w w' \<Longrightarrow> log_wf w \<Longrightarrow> log_wf w'"
proof (induction rule: log_step.induct)
  case (new_logger name w l w')
  then show ?case by (rule Logger_new_wf [rotated])
next
  case (new_stdout w a w')
  then show ?case by (auto simp: StdoutLogAppender_new_def intro: new_appender_wf)
next
  case (new_file can_open name w a w')
  then show ?case by (auto simp: FileLogAppender_new_def intro: new_appender_wf)
next
  case (new_formatter pattern w f w')
  then show ?case by (rule Formatter_new_wf [rotated])
next
  case (set_pattern t f pattern w r w')
  then show ?case by (auto simp: Formatter_setPattern_def case_prod_beta Let_def intro!: log_wf_put_fmt)
next
  case (ap_formatter t a f w w')
  show ?case
    by (rule log_wf_ap_write [OF ap_formatter(3) ap_formatter(1) [unfolded Appender_setFormatter_def]]) (use ap_formatter in \<open>auto simp: lg_ok_def\<close>)
next
  case (ap_level t a level w w')
  show ?case
    by (rule log_wf_ap_write [OF ap_level(2) ap_level(1) [unfolded Appender_setLevel_def]]) (use ap_level in \<open>auto simp: lg_ok_def\<close>)
next
  case (ap_get t a w v w')
  then show ?case by (auto simp: Appender_getFormatter_def intro: log_wf_ap_read)
next
  case (ap_reopen can_open t a w b w')
  obtain x where x: "aps w a = Some x" using ap_reopen(1) by (auto simp: reopen_def)
  then obtain name where "ap_write (\<lambda>x. x\<lparr>ap_class := FileLogAppender name (can_open name)\<rparr>) t a w = Inr w'"
    using ap_reopen(1) by (cases "ap_class x") (auto simp: reopen_def)
  from log_wf_ap_write [OF ap_reopen(2) this] show ?case by simp
next
  case (lg_get_root t l w v w')
  then show ?case by (auto simp: Logger_getRoot_def intro: log_wf_lg_read)
next
  case (lg_get_level t l w v w')
  then show ?case by (auto simp: Logger_getLevel_def intro: log_wf_lg_read)
next
  case (lg_get_name t l w v w')
  then show ?case by (auto simp: Logger_getName_def intro: log_wf_lg_read)
next
  case (lg_get_formatter t l w v w')
  then show ?case by (auto simp: Logger_getFormatter_def intro: log_wf_lg_read)
next
  case (lg_get_appenders t l w v w')
  then show ?case by (auto simp: getAppenders_def intro: log_wf_lg_read)
next
  case (lg_root t l r w w')
  show ?case
    by (rule log_wf_lg_write [OF lg_root(3) lg_root(1) [unfolded Logger_setRoot_def]]) (use lg_root in \<open>auto simp: lg_ok_def\<close>)
next
  case (lg_level t l level w w')
  show ?case
    by (rule log_wf_lg_write [OF lg_level(2) lg_level(1) [unfolded Logger_setLevel_def]]) (use lg_level in \<open>auto simp: lg_ok_def\<close>)
next
  case (lg_formatter t l f w w')
  then show ?case by (auto simp: Logger_setFormatter_def intro: set_formatters_wf [OF _ refl])
next
  case (lg_pattern t l pattern w w')
  obtain i where "LogFormatter pattern = Inr i" using lg_pattern(1) by (auto simp: Logger_setPattern_def)
  then obtain x where x: "lgs w l = Some x" "set_formatters t (lg_formatter x) (lg_appenders x) w = Inr w'"
    using lg_pattern(1) by (auto simp: Logger_setPattern_own Logger_setFormatter_def)
  then show ?case
    using log_wf_lgD [OF lg_pattern(2) x(1)] set_formatters_wf [OF lg_pattern(2) _ _ x(2)] by (auto simp: lg_ok_def)
next
  case (lg_add t l a w w')
  then show ?case by (rule addAppender_wf [rotated])
next
  case (lg_del t l a w w')
  show ?case
    by (rule log_wf_lg_write [OF lg_del(2) lg_del(1) [unfolded delAppender_def]]) (use lg_del in \<open>auto simp: lg_ok_def\<close>)
next
  case (lg_clear t l w w')
  show ?case
    by (rule log_wf_lg_write [OF lg_clear(2) lg_clear(1) [unfolded clearAppender_def]]) (use lg_clear in \<open>auto simp: lg_ok_def\<close>)
next
  case (lg_log tf n t l level ev w w')
  then show ?case by (auto intro: Logger_log_wf)
qed

lemma log_reachable_wf: "log_reachable w \<Longrightarrow> log_wf w"
proof (induction rule: log_reachable.induct)
  case start
  show ?case by (simp add: log_wf_def)
qed (rule log_step_wf)

section \<open>Examples\<close>

definition default_formatter :: log_formatter where
  "default_formatter = \<lparr>fm_rwmutex = rw_free, m_pattern = default_pattern, m_items = map token_item default_tokens, m_error = False\<rparr>"

lemma LogFormatter_default: "LogFormatter default_pattern = Inr default_formatter"
proof -
  have "unparse default_tokens = default_pattern"
    by (simp add: default_tokens_def default_time_def default_pattern_def)
  then show ?thesis
    using initPattern_tokens [OF default_tokens_ok, of "[]"] by (simp add: LogFormatter_def default_formatter_def)
qed

text \<open>A logger with one appender on the standard output, after a use in thread 7.\<close>

definition one_logger :: log_world where
  "one_logger = \<lparr>fmts = [0 \<mapsto> default_formatter],
     aps = [2 \<mapsto> \<lparr>ap_class = StdoutLogAppender, ap_rwmutex = rw_free\<lparr>writer := Some 7\<rparr>, ap_mutex = None, ap_level = DEBUG, ap_formatter = Some 0\<rparr>],
     lgs = [1 \<mapsto> \<lparr>lg_rwmutex = rw_free, lg_name = ''a'', lg_level = DEBUG, lg_appenders = [2], lg_formatter = Some 0, lg_root = None\<rparr>],
     next_obj = 3, outs = []\<rparr>"

lemma one_logger_reachable: "log_reachable one_logger"
proof -
  let ?w0 = "\<lparr>fmts = Map.empty, aps = Map.empty, lgs = Map.empty, next_obj = 0, outs = []\<rparr>"
  have "log_reachable ?w0" by (rule log_reachable.start)
  then have "log_reachable (snd (projr (Logger_new ''a'' ?w0)))"
    by (rule log_reachable.step) (rule log_step.new_logger [where l = 1], simp add: Logger_new_def LogFormatter_default Let_def)
  then have "log_reachable (snd (StdoutLogAppender_new (snd (projr (Logger_new ''a'' ?w0)))))"
    by (rule log_reachable.step) (rule log_step.new_stdout [where a = 2],
      simp add: StdoutLogAppender_new_def new_appender_def Logger_new_def LogFormatter_default Let_def put_lg_def put_fmt_def)
  then have "log_reachable (projr (addAppender 7 1 2 (snd (StdoutLogAppender_new (snd (projr (Logger_new ''a'' ?w0)))))))"
    by (rule log_reachable.step) (rule log_step.lg_add [where t = 7 and l = 1 and a = 2],
      simp add: StdoutLogAppender_new_def new_appender_def Logger_new_def LogFormatter_default Let_def put_lg_def put_fmt_def put_ap_def
        addAppender_def Appender_getFormatter_def Appender_setFormatter_def ap_read_def ap_write_def lg_write_def lg_at_def ap_at_def
        read_scope_free write_scope_free rw_free_def)
  then have "log_reachable (snd (projr (Logger_getName 7 1 (projr (addAppender 7 1 2 (snd (StdoutLogAppender_new (snd (projr (Logger_new ''a'' ?w0))))))))))"
    by (rule log_reachable.step) (rule log_step.lg_get_name [where t = 7 and l = 1 and v = "''a''"],
      simp add: StdoutLogAppender_new_def new_appender_def Logger_new_def LogFormatter_default Let_def put_lg_def put_fmt_def put_ap_def
        addAppender_def Appender_getFormatter_def Appender_setFormatter_def ap_read_def ap_write_def lg_write_def lg_at_def ap_at_def
        read_scope_free write_scope_free rw_free_def Logger_getName_def lg_read_def read_scope_own)
  also have "snd (projr (Logger_getName 7 1 (projr (addAppender 7 1 2 (snd (StdoutLogAppender_new (snd (projr (Logger_new ''a'' ?w0))))))))) = one_logger"
    by (simp add: StdoutLogAppender_new_def new_appender_def Logger_new_def LogFormatter_default Let_def put_lg_def put_fmt_def put_ap_def
        addAppender_def Appender_getFormatter_def Appender_setFormatter_def ap_read_def ap_write_def lg_write_def lg_at_def ap_at_def
        read_scope_free write_scope_free rw_free_def Logger_getName_def lg_read_def read_scope_own one_logger_def numeral_2_eq_2)
  finally show ?thesis .
qed

lemma one_logger_quiet: "quiet UNIV one_logger"
  by (auto simp: quiet_def one_logger_def default_formatter_def rw_free_def ran_def split: if_splits)

section \<open>Properties\<close>



text \<open>
  C24: what a call of \<open>log\<close> writes, when no other thread holds a lock of the logging objects. Below
  the logger's level nothing happens; otherwise every appender whose own level admits the event
  writes its text once, in the order of the list, and nothing else changes; a logger without
  appenders writes to those of its root, and without a root the null pointer is used.
\<close>

theorem Logger_log_outputs:
  assumes w: "log_reachable w" "quiet UNIV w" and x: "lgs w l = Some x" and ev: "lgs w (ev_logger ev) \<noteq> None"
  shows "(level < lg_level x \<longrightarrow> Logger_log tf (Suc n) t l level ev w = Inr w)
    \<and> (lg_level x \<le> level \<and> lg_appenders x \<noteq> [] \<longrightarrow>
        Logger_log tf (Suc n) t l level ev w = Inr (w\<lparr>outs := outs w @ concat (map (prints tf level ev w) (lg_appenders x))\<rparr>))
    \<and> (lg_level x \<le> level \<and> lg_appenders x = [] \<and> lg_root x = None \<longrightarrow>
        Logger_log tf (Suc n) t l level ev w = Inl (UB ''null m_root''))
    \<and> (\<forall>r y. lg_level x \<le> level \<and> lg_appenders x = [] \<and> lg_root x = Some r \<and> lgs w r = Some y
          \<and> lg_level y \<le> level \<and> lg_appenders y \<noteq> [] \<longrightarrow>
        Logger_log tf (Suc (Suc n)) t l level ev w = Inr (w\<lparr>outs := outs w @ concat (map (prints tf level ev w) (lg_appenders y))\<rparr>))"
proof (intro conjI allI impI, goal_cases)
  case 1
  then show ?case using Logger_log_silent [OF quiet_mono [OF w(2)] x] by simp
next
  case 2
  then show ?case
    using log_wf_lgD [OF log_reachable_wf [OF w(1)] x] by (intro Logger_log_own [OF quiet_mono [OF w(2)] x ev]) (auto simp: lg_ok_def)
next
  case 3
  then show ?case using quietD(1) [OF w(2) _ x] x by (simp add: rdlock_in)
next
  case (4 r y)
  then show ?case
    using log_wf_lgD [OF log_reachable_wf [OF w(1)], of r y]
    by (intro Logger_log_root [OF quiet_mono [OF w(2)] x ev]) (auto simp: lg_ok_def)
qed

theorem Logger_log_outputs_witness:
  "\<exists>w'. Logger_log (\<lambda>f s. ''now'') 1 7 1 INFO (ss_put ''hi'' (LogEvent 1 INFO ''f.cc'' 3 0 7 5 0)) one_logger = Inr w'
    \<and> outs w' = [(ToStdout, ''now'' @ [CHR 0x09] @ ''7'' @ [CHR 0x09] @ ''5'' @ [CHR 0x09] @ ''[INFO]'' @ [CHR 0x09]
        @ ''<f.cc:3>'' @ [CHR 0x09] @ ''hi'' @ [CHR 0x0A])]"
proof -
  let ?x = "\<lparr>lg_rwmutex = rw_free, lg_name = ''a'', lg_level = DEBUG, lg_appenders = [2], lg_formatter = Some 0, lg_root = None\<rparr>"
  let ?ev = "ss_put ''hi'' (LogEvent 1 INFO ''f.cc'' 3 0 7 5 0)" and ?tf = "\<lambda>f s. ''now''"
  have x: "lgs one_logger 1 = Some ?x" by (simp add: one_logger_def)
  have ev: "lgs one_logger (ev_logger ?ev) \<noteq> None" by (simp add: ss_put_def LogEvent_def one_logger_def)
  have "Logger_log ?tf 1 7 1 INFO ?ev one_logger
    = Inr (one_logger\<lparr>outs := outs one_logger @ concat (map (prints ?tf INFO ?ev one_logger) [2])\<rparr>)"
    using Logger_log_outputs [OF one_logger_reachable one_logger_quiet x ev, of INFO ?tf 0 7] by (simp add: level_defs del: Logger_log.simps)
  moreover have "prints ?tf INFO ?ev one_logger 2 = [(ToStdout, ''now'' @ [CHR 0x09] @ ''7'' @ [CHR 0x09] @ ''5'' @ [CHR 0x09] @ ''[INFO]'' @ [CHR 0x09]
        @ ''<f.cc:3>'' @ [CHR 0x09] @ ''hi'' @ [CHR 0x0A])]"
    by (simp add: prints_def event_text_def one_logger_def ss_put_def LogEvent_def default_formatter_def default_tokens_def
      s_format_items_def level_defs LogLevel_ToString_def dec_int_def dec.simps char_of_def bit_Suc_0_iff)
  ultimately show ?thesis by (simp add: one_logger_def del: Logger_log.simps)
qed

text \<open>
  \<open>setFormatter\<close> with a pattern. Every accepted pattern has the same effect: the formatter that is
  made of it is dropped, and all the appenders get the logger's own formatter.
\<close>

theorem setFormatter_ignores_pattern:
  assumes "checkValid p = Inr True" and "checkValid q = Inr True" and "lgs w l = Some x"
  shows "Logger_setPattern t l p w = Logger_setPattern t l q w
    \<and> Logger_setPattern t l p w = Logger_setFormatter t l (lg_formatter x) w"
proof -
  obtain i j where "LogFormatter p = Inr i" "LogFormatter q = Inr j"
    using assms(1,2) by (auto simp: LogFormatter_def checkValid_def case_prod_beta)
  then show ?thesis using assms(3) by (simp add: Logger_setPattern_own)
qed

theorem setFormatter_ignores_pattern_witness:
  "Logger_setPattern 7 1 ''%m'' one_logger = Logger_setPattern 7 1 ''%p%n'' one_logger"
proof -
  have v: "checkValid ''%m'' = Inr True" "checkValid ''%p%n'' = Inr True"
    using initPattern_tokens [of "[Dir ''m'' None]" "[]"] initPattern_tokens [of "[Dir ''p'' None, Dir ''n'' None]" "[]"]
    by (simp_all add: checkValid_def s_format_items_def key_char_def isalpha_def)
  have "lgs one_logger 1 = Some (the (lgs one_logger 1))" by (simp add: one_logger_def)
  from setFormatter_ignores_pattern [OF v this] show ?thesis by blast
qed

end
