(* ===== verification/LogDefine.thy ===== *)
theory LogDefine
  imports Logger
begin

text \<open>
  \<open>ddg/log.h\<close> and \<open>log.cc\<close>: the data of the logging configuration, \<open>LogAppenderDefine\<close> and
  \<open>LogDefine\<close>, their comparisons, and their conversions from and to YAML text, over the interface
  of yaml-cpp of \<open>LexicalCast\<close>.
\<close>

section \<open>The data\<close>

record appender_define =
  ad_type :: appender_type
  ad_level :: level
  ad_formatter :: string
  ad_file :: string

record log_define =
  ld_name :: string
  ld_level :: level
  ld_formatter :: string
  ld_appenders :: "appender_define list"

definition LogAppenderDefine :: appender_define where
  "LogAppenderDefine = \<lparr>ad_type = UNKNOW_APPENDER, ad_level = UNKNOW, ad_formatter = [], ad_file = []\<rparr>"

definition LogDefine :: log_define where
  "LogDefine = \<lparr>ld_name = [], ld_level = UNKNOW, ld_formatter = [], ld_appenders = []\<rparr>"

text \<open>\<open>operator==\<close>; the files of two appenders are not compared (\<open>oth.file == oth.file\<close>).\<close>

definition appender_define_eq :: "appender_define \<Rightarrow> appender_define \<Rightarrow> bool" where
  "appender_define_eq d oth \<longleftrightarrow> ad_type d = ad_type oth \<and> ad_level d = ad_level oth
     \<and> ad_formatter d = ad_formatter oth \<and> ad_file oth = ad_file oth"

definition log_define_eq :: "log_define \<Rightarrow> log_define \<Rightarrow> bool" where
  "log_define_eq d oth \<longleftrightarrow>
     length (ld_appenders d) = length (ld_appenders oth)
     \<and> (\<forall>i < length (ld_appenders oth). appender_define_eq (ld_appenders d ! i) (ld_appenders oth ! i))
     \<and> ld_name d = ld_name oth \<and> ld_level d = ld_level oth \<and> ld_formatter d = ld_formatter oth"

text \<open>\<open>operator<\<close>: the names as \<open>std::string\<close> compares them, by the codes of their characters.\<close>

fun string_less :: "string \<Rightarrow> string \<Rightarrow> bool" where
  "string_less [] [] \<longleftrightarrow> False"
| "string_less [] (c # cs) \<longleftrightarrow> True"
| "string_less (b # bs) [] \<longleftrightarrow> False"
| "string_less (b # bs) (c # cs) \<longleftrightarrow>
     (of_char b :: nat) < of_char c \<or> ((of_char b :: nat) = of_char c \<and> string_less bs cs)"

definition log_define_less :: "log_define \<Rightarrow> log_define \<Rightarrow> bool" where
  "log_define_less d oth \<longleftrightarrow> string_less (ld_name d) (ld_name oth)"

section \<open>To text\<close>

definition entry :: "string \<Rightarrow> string \<Rightarrow> yaml \<times> yaml" where
  "entry k v = (YScalar k, YScalar v)"

text \<open>A node that gets no key stays the null node it was made as.\<close>

definition appender_define_node :: "appender_define \<Rightarrow> yaml" where
  "appender_define_node d =
     (let kvs = (if ad_level d \<noteq> UNKNOW then [entry ''level'' (LogLevel_ToString (ad_level d))] else [])
        @ (if ad_formatter d \<noteq> [] then [entry ''formatter'' (ad_formatter d)] else [])
        @ (if ad_file d \<noteq> [] then [entry ''file'' (ad_file d)] else [])
        @ (if ad_type d \<noteq> UNKNOW_APPENDER then [entry ''type'' (Appender_ToString (ad_type d))] else [])
      in if kvs = [] then YNull else YMap kvs)"

definition appender_define_to_string :: "yaml_api \<Rightarrow> appender_define \<Rightarrow> string" where
  "appender_define_to_string Y d = y_emit Y (appender_define_node d)"

text \<open>The entry of the formatter, for which \<open>checkValid\<close> may throw.\<close>

definition formatter_entry :: "string \<Rightarrow> (yaml \<times> yaml) list result" where
  "formatter_entry f =
     (if f = [] then Inr []
      else and_then (checkValid f) (\<lambda>ok. Inr [entry ''formatter'' (if \<not> ok then [] else f)]))"

definition log_define_to_string :: "yaml_api \<Rightarrow> log_define \<Rightarrow> string result" where
  "log_define_to_string Y d =
     and_then (formatter_entry (ld_formatter d)) (\<lambda>fs.
     and_then (map_result (\<lambda>a. y_load Y (appender_define_to_string Y a)) (ld_appenders d)) (\<lambda>nodes.
     Inr (y_emit Y (YMap
       ([entry ''name'' (ld_name d)]
        @ (if ld_level d \<noteq> UNKNOW then [entry ''level'' (LogLevel_ToString (ld_level d))] else [])
        @ fs
        @ (if nodes \<noteq> [] then [(YScalar ''appenders'', YSeq nodes)] else []))))))"

section \<open>From text\<close>

definition set_appender_key :: "yaml \<times> yaml \<Rightarrow> appender_define \<Rightarrow> appender_define" where
  "set_appender_key kv d =
     (let key = Scalar (fst kv); v = Scalar (snd kv)
      in if key = ''type'' then d\<lparr>ad_type := Appender_FromString v\<rparr>
         else if key = ''level'' then d\<lparr>ad_level := LogLevel_FromString v\<rparr>
         else if key = ''file'' then d\<lparr>ad_file := v\<rparr>
         else if key = ''formatter'' then d\<lparr>ad_formatter := v\<rparr>
         else d)"

definition appender_define_from_string :: "yaml_api \<Rightarrow> string \<Rightarrow> appender_define result" where
  "appender_define_from_string Y s =
     and_then (y_load Y s) (\<lambda>node.
     and_then (node_entries node) (\<lambda>kvs. Inr (fold set_appender_key kvs LogAppenderDefine)))"

text \<open>\<open>node[key]\<close> on a map is the first entry of the key.\<close>

definition node_get :: "(yaml \<times> yaml) list \<Rightarrow> string \<Rightarrow> yaml" where
  "node_get kvs key = (case List.find (\<lambda>kv. fst kv = YScalar key) kvs of None \<Rightarrow> YNull | Some kv \<Rightarrow> snd kv)"

text \<open>
  The texts \<open>ss << *it\<close> of an iteration over a node. The value of an iterator over a map is no node
  of its own, and prints as nothing.
\<close>

fun element_texts :: "yaml_api \<Rightarrow> yaml \<Rightarrow> string list" where
  "element_texts Y (YSeq xs) = map (y_emit Y) xs"
| "element_texts Y (YMap kvs) = replicate (length kvs) []"
| "element_texts Y n = []"

definition set_log_key :: "yaml_api \<Rightarrow> (yaml \<times> yaml) list \<Rightarrow> yaml \<times> yaml \<Rightarrow> log_define \<Rightarrow> log_define result" where
  "set_log_key Y all kv d =
     (let key = Scalar (fst kv); v = Scalar (snd kv)
      in if key = ''name'' then (if v = [] then Inl (Exn key) else Inr (d\<lparr>ld_name := v\<rparr>))
         else if key = ''level'' then Inr (d\<lparr>ld_level := LogLevel_FromString v\<rparr>)
         else if key = ''formatter'' then and_then (checkValid v) (\<lambda>ok. Inr (d\<lparr>ld_formatter := if \<not> ok then [] else v\<rparr>))
         else if key = ''appenders'' then
           and_then (map_result (appender_define_from_string Y) (element_texts Y (node_get all key))) (\<lambda>as.
             Inr (d\<lparr>ld_appenders := ld_appenders d @ as\<rparr>))
         else Inr d)"

fun set_log_keys :: "yaml_api \<Rightarrow> (yaml \<times> yaml) list \<Rightarrow> (yaml \<times> yaml) list \<Rightarrow> log_define \<Rightarrow> log_define result" where
  "set_log_keys Y all [] d = Inr d"
| "set_log_keys Y all (kv # kvs) d = and_then (set_log_key Y all kv d) (set_log_keys Y all kvs)"

text \<open>The last loop: an appender without formatter or level gets those of the logger.\<close>

definition inherit_appender :: "log_define \<Rightarrow> appender_define \<Rightarrow> appender_define" where
  "inherit_appender d a =
     (let a1 = (if ld_formatter d \<noteq> [] \<and> ad_formatter a = [] then a\<lparr>ad_formatter := ld_formatter d\<rparr> else a)
      in if ld_level d \<noteq> UNKNOW \<and> ad_level a1 = UNKNOW then a1\<lparr>ad_level := ld_level d\<rparr> else a1)"

definition inherit :: "log_define \<Rightarrow> log_define" where
  "inherit d = d\<lparr>ld_appenders := map (inherit_appender d) (ld_appenders d)\<rparr>"

definition log_define_from_string :: "yaml_api \<Rightarrow> string \<Rightarrow> log_define result" where
  "log_define_from_string Y s =
     and_then (y_load Y s) (\<lambda>node.
     and_then (node_entries node) (\<lambda>kvs.
     and_then (set_log_keys Y kvs kvs LogDefine) (\<lambda>d. Inr (inherit d))))"

section \<open>What can be read back\<close>

text \<open>The values of the level that a text can name.\<close>

definition named_level :: "level \<Rightarrow> bool" where
  "named_level l \<longleftrightarrow> DEBUG \<le> l \<and> l \<le> UNKNOW"

lemma level_back: "named_level l \<Longrightarrow> LogLevel_FromString (LogLevel_ToString l) = l"
proof -
  assume "named_level l"
  then consider "l = 1" | "l = 2" | "l = 3" | "l = 4" | "l = 5" | "l = 6"
    by (auto simp: named_level_def level_defs) linarith
  then show ?thesis
    by cases (simp_all add: LogLevel_FromString_def LogLevel_ToString_def level_defs toupper_def of_char_def)
qed

lemma type_back [simp]: "Appender_FromString (Appender_ToString ty) = ty"
  by (cases ty) (simp_all add: Appender_FromString_def Appender_ToString_def)

lemma appender_define_back:
  assumes "named_level (ad_level d)" and "yaml_reads_back Y (appender_define_node d)"
  shows "appender_define_from_string Y (y_emit Y (appender_define_node d)) = Inr d"
proof -
  have "and_then (node_entries (appender_define_node d)) (\<lambda>kvs. Inr (fold set_appender_key kvs LogAppenderDefine)) = Inr d"
    using level_back [OF assms(1)]
    by (cases "ad_level d = UNKNOW"; cases "ad_formatter d = []"; cases "ad_file d = []"; cases "ad_type d = UNKNOW_APPENDER")
      (simp_all add: appender_define_node_def entry_def set_appender_key_def LogAppenderDefine_def)
  then show ?thesis using assms(2) by (simp add: appender_define_from_string_def yaml_reads_back_def)
qed

text \<open>A configuration that the text can express: what is asked of its fields.\<close>

definition expressible :: "log_define \<Rightarrow> bool" where
  "expressible d \<longleftrightarrow> ld_name d \<noteq> [] \<and> named_level (ld_level d)
     \<and> (ld_formatter d = [] \<or> checkValid (ld_formatter d) = Inr True)
     \<and> (\<forall>a \<in> set (ld_appenders d). named_level (ad_level a))"

definition log_define_node :: "log_define \<Rightarrow> yaml" where
  "log_define_node d = YMap
     ([entry ''name'' (ld_name d)]
      @ (if ld_level d \<noteq> UNKNOW then [entry ''level'' (LogLevel_ToString (ld_level d))] else [])
      @ (if ld_formatter d \<noteq> [] then [entry ''formatter'' (ld_formatter d)] else [])
      @ (if ld_appenders d \<noteq> [] then [(YScalar ''appenders'', YSeq (map appender_define_node (ld_appenders d)))] else []))"

definition readable :: "yaml_api \<Rightarrow> log_define \<Rightarrow> bool" where
  "readable Y d \<longleftrightarrow> yaml_reads_back Y (log_define_node d)
     \<and> (\<forall>a \<in> set (ld_appenders d). yaml_reads_back Y (appender_define_node a))"

lemma log_define_to_node:
  assumes "expressible d" and "readable Y d"
  shows "log_define_to_string Y d = Inr (y_emit Y (log_define_node d))"
proof -
  have "map_result (\<lambda>a. y_load Y (appender_define_to_string Y a)) (ld_appenders d) = Inr (map appender_define_node (ld_appenders d))"
    by (rule map_result_map) (use assms(2) in \<open>auto simp: readable_def appender_define_to_string_def yaml_reads_back_def\<close>)
  then show ?thesis
    using assms(1) by (auto simp: log_define_to_string_def formatter_entry_def expressible_def log_define_node_def)
qed

lemma log_define_from_node:
  assumes ex: "expressible d" and re: "readable Y d"
  shows "log_define_from_string Y (y_emit Y (log_define_node d)) = Inr (inherit d)"
proof -
  let ?ns = "map appender_define_node (ld_appenders d)"
  have as: "map_result (appender_define_from_string Y) (element_texts Y (YSeq ?ns)) = Inr (ld_appenders d)"
  proof -
    have "\<forall>a \<in> set (ld_appenders d). appender_define_from_string Y (y_emit Y (appender_define_node a)) = Inr a"
      using appender_define_back ex re by (auto simp: expressible_def readable_def)
    then show ?thesis by (simp add: map_result_Inr)
  qed
  obtain kvs where kvs: "log_define_node d = YMap kvs" by (simp add: log_define_node_def)
  have get: "node_get kvs ''appenders'' = YSeq ?ns" if "ld_appenders d \<noteq> []"
    using kvs that by (auto simp: log_define_node_def node_get_def entry_def)
  have "set_log_keys Y kvs kvs LogDefine = Inr d"
    using kvs ex as get level_back [of "ld_level d"]
    by (cases "ld_level d = UNKNOW"; cases "ld_formatter d = []"; cases "ld_appenders d = []")
      (auto simp: log_define_node_def expressible_def entry_def set_log_key_def LogDefine_def)
  then show ?thesis
    using re kvs by (simp add: log_define_from_string_def readable_def yaml_reads_back_def)
qed

lemma inherit_full:
  "inherit d = d\<lparr>ld_appenders := map (\<lambda>a.
      a\<lparr>ad_formatter := (if ad_formatter a = [] then ld_formatter d else ad_formatter a),
        ad_level := (if ad_level a = UNKNOW then ld_level d else ad_level a)\<rparr>) (ld_appenders d)\<rparr>"
  by (simp add: inherit_def inherit_appender_def Let_def)

section \<open>Properties\<close>

text \<open>
  C30: the configuration of a logger and its text. Printing it and reading the text back gives the
  configuration in which every appender without a formatter or level of its own has the logger's;
  a configuration whose appenders all have both comes back as it is.
\<close>

theorem LogDefine_round_trip:
  assumes "expressible d" and "readable Y d"
  shows "and_then (log_define_to_string Y d) (log_define_from_string Y) = Inr (d\<lparr>ld_appenders := map (\<lambda>a.
        a\<lparr>ad_formatter := (if ad_formatter a = [] then ld_formatter d else ad_formatter a),
          ad_level := (if ad_level a = UNKNOW then ld_level d else ad_level a)\<rparr>) (ld_appenders d)\<rparr>)
    \<and> ((\<forall>a \<in> set (ld_appenders d). ad_formatter a \<noteq> [] \<and> ad_level a \<noteq> UNKNOW) \<longrightarrow>
        and_then (log_define_to_string Y d) (log_define_from_string Y) = Inr d)"
proof -
  have "and_then (log_define_to_string Y d) (log_define_from_string Y) = Inr (inherit d)"
    by (simp add: log_define_to_node [OF assms] log_define_from_node [OF assms])
  moreover have "inherit d = d" if "\<forall>a \<in> set (ld_appenders d). ad_formatter a \<noteq> [] \<and> ad_level a \<noteq> UNKNOW"
  proof -
    have "map (inherit_appender d) (ld_appenders d) = ld_appenders d"
      using that by (intro map_idI) (auto simp: inherit_appender_def Let_def)
    then show ?thesis by (simp add: inherit_def)
  qed
  ultimately show ?thesis unfolding inherit_full [symmetric] by metis
qed

definition system_define :: log_define where
  "system_define = \<lparr>ld_name = ''system'', ld_level = INFO, ld_formatter = ''%m'',
     ld_appenders = [\<lparr>ad_type = STDOUT_LOG_APPENDER, ad_level = UNKNOW, ad_formatter = [], ad_file = []\<rparr>]\<rparr>"

definition system_yaml :: yaml_api where
  "system_yaml = table_yaml [(log_define_node system_define, ''name: system''),
     (appender_define_node (hd (ld_appenders system_define)), ''type: StdoutLogAppender'')]"

lemma message_pattern_valid: "checkValid ''%m'' = Inr True"
  using initPattern_tokens [of "[Dir ''m'' None]" "[]"] by (simp add: checkValid_def s_format_items_def)

lemma system_readable: "readable system_yaml system_define" "expressible system_define"
  by (simp_all add: readable_def yaml_reads_back_def system_yaml_def table_yaml_def system_define_def log_define_node_def
    appender_define_node_def entry_def level_defs expressible_def named_level_def message_pattern_valid)

theorem LogDefine_round_trip_witness:
  "and_then (log_define_to_string system_yaml system_define) (log_define_from_string system_yaml)
    = Inr (system_define\<lparr>ld_appenders := [\<lparr>ad_type = STDOUT_LOG_APPENDER, ad_level = INFO, ad_formatter = ''%m'', ad_file = []\<rparr>]\<rparr>)"
  using LogDefine_round_trip [OF system_readable(2,1)]
  by (simp add: inherit_def inherit_appender_def system_define_def level_defs)

text \<open>
  What a file appender says of itself. The text \<open>toYamlString\<close> gives is read back as the
  configuration of an appender on the standard output, with the level, the pattern and the file of
  the appender; nothing changes in the store.
\<close>

theorem FileLogAppender_prints_stdout:
  assumes x: "aps w a = Some x" "ap_class x = FileLogAppender name good" "ap_formatter x = Some f" "writer (ap_rwmutex x) = None"
    and fm: "fmts w f = Some fm" "writer (fm_rwmutex fm) = None"
    and level: "named_level (ap_level x)" and yaml: "yaml_reads_back Y (appender_node x (m_pattern fm))"
  shows "\<exists>s. Appender_toYamlString Y t a w = Inr (s, w) \<and> appender_define_from_string Y s
    = Inr \<lparr>ad_type = STDOUT_LOG_APPENDER, ad_level = ap_level x, ad_formatter = m_pattern fm, ad_file = name\<rparr>"
proof -
  have "Appender_toYamlString Y t a w = Inr (y_emit Y (appender_node x (m_pattern fm)), w)"
    using x fm by (simp add: Appender_toYamlString_def rdlock_in rdlock_out fmt_getPattern_def getPattern_def read_scope_free)
  moreover have "appender_define_from_string Y (y_emit Y (appender_node x (m_pattern fm)))
      = Inr \<lparr>ad_type = STDOUT_LOG_APPENDER, ad_level = ap_level x, ad_formatter = m_pattern fm, ad_file = name\<rparr>"
    using yaml x(2) level_back [OF level]
    by (simp add: appender_define_from_string_def yaml_reads_back_def appender_node_def set_appender_key_def LogAppenderDefine_def)
  ultimately show ?thesis by blast
qed

theorem FileLogAppender_prints_stdout_witness:
  "let x = \<lparr>ap_class = FileLogAppender ''log.txt'' True, ap_rwmutex = rw_free, ap_mutex = None, ap_level = INFO, ap_formatter = Some 0\<rparr>;
       Y = table_yaml [(appender_node x default_pattern, ''file: log.txt'')];
       w = one_logger\<lparr>aps := [2 \<mapsto> x]\<rparr>
   in \<exists>s. Appender_toYamlString Y 7 2 w = Inr (s, w) \<and> appender_define_from_string Y s
    = Inr \<lparr>ad_type = STDOUT_LOG_APPENDER, ad_level = INFO, ad_formatter = default_pattern, ad_file = ''log.txt''\<rparr>"
proof -
  let ?x = "\<lparr>ap_class = FileLogAppender ''log.txt'' True, ap_rwmutex = rw_free, ap_mutex = None, ap_level = INFO, ap_formatter = Some 0\<rparr>"
  let ?Y = "table_yaml [(appender_node ?x default_pattern, ''file: log.txt'')]"
  have "\<exists>s. Appender_toYamlString ?Y 7 2 (one_logger\<lparr>aps := [2 \<mapsto> ?x]\<rparr>) = Inr (s, one_logger\<lparr>aps := [2 \<mapsto> ?x]\<rparr>)
    \<and> appender_define_from_string ?Y s = Inr \<lparr>ad_type = STDOUT_LOG_APPENDER, ad_level = ap_level ?x,
        ad_formatter = m_pattern default_formatter, ad_file = ''log.txt''\<rparr>"
    by (rule FileLogAppender_prints_stdout [where f = 0 and good = True])
      (simp_all add: one_logger_def default_formatter_def rw_free_def named_level_def level_defs yaml_reads_back_def,
        simp add: table_yaml_def)
  then show ?thesis by (simp add: Let_def default_formatter_def)
qed

end
