(* ===== verification/Config.thy ===== *)
theory Config
  imports LexicalCast Mutex
begin

text \<open>
  \<open>ddg/config.h\<close> and \<open>ddg/config.cc\<close>: configuration variables with listeners, the registry of
  all variables, and loading from YAML. A variable of any type is one record: \<open>'v\<close> holds the
  values of all types, \<open>cv_type\<close> says which type the variable was made with (what
  \<open>dynamic_pointer_cast\<close> tests), and the conversions and the \<open>operator==\<close> of a type are given by \<open>casts\<close>. The
  read-write locks are part of the state, because the write guard of \<open>ddg/mutex.h\<close> keeps its
  lock. A listener is a value of type \<open>'cb\<close>; \<open>throws\<close> says whether a call of it throws (a
  \<open>std::exception\<close>), and the calls made are recorded in order.
\<close>

section \<open>Variables\<close>

record ('v, 'cb) config_var =
  m_rwmutex :: rwlock
  cv_name :: string
  cv_description :: string
  cv_type :: string
  m_val :: 'v
  s_func_id :: u64
  m_cbs :: "(u64 \<times> 'cb) list"

type_synonym 'v casts = "string \<Rightarrow> ('v \<Rightarrow> string result) \<times> (string \<Rightarrow> 'v result) \<times> ('v \<Rightarrow> 'v \<Rightarrow> bool)"
type_synonym ('v, 'cb) call = "'cb \<times> 'v \<times> 'v"

text \<open>\<open>::tolower\<close> in the C locale.\<close>

definition tolower :: "char \<Rightarrow> char" where
  "tolower c = (let n = of_char c :: nat in if 65 \<le> n \<and> n \<le> 90 then char_of (n + 32) else c)"

text \<open>The constructor; the name is stored in lower case.\<close>

definition ConfigVar :: "string \<Rightarrow> string \<Rightarrow> 'v \<Rightarrow> string \<Rightarrow> ('v, 'cb) config_var" where
  "ConfigVar ty name default_value description =
     \<lparr>m_rwmutex = rw_free, cv_name = map tolower name, cv_description = description, cv_type = ty,
      m_val = default_value, s_func_id = 0, m_cbs = []\<rparr>"

definition getName :: "tid \<Rightarrow> ('v, 'cb) config_var \<Rightarrow> (string \<times> ('v, 'cb) config_var) result" where
  "getName t cv = and_then (read_scope t (m_rwmutex cv)) (\<lambda>l. Inr (cv_name cv, cv\<lparr>m_rwmutex := l\<rparr>))"

definition getDescription :: "tid \<Rightarrow> ('v, 'cb) config_var \<Rightarrow> (string \<times> ('v, 'cb) config_var) result" where
  "getDescription t cv =
     and_then (read_scope t (m_rwmutex cv)) (\<lambda>l. Inr (cv_description cv, cv\<lparr>m_rwmutex := l\<rparr>))"

definition toString :: "'v casts \<Rightarrow> ('v, 'cb) config_var \<Rightarrow> string result" where
  "toString casts cv =
     (case fst (casts (cv_type cv)) (m_val cv) of
        Inr s \<Rightarrow> Inr s
      | Inl (Exn e) \<Rightarrow> Inr []
      | Inl e \<Rightarrow> Inl e)"

text \<open>
  The loop over the listeners in the order of the table, up to one that throws.
\<close>

fun call_listeners :: "('cb \<Rightarrow> 'v \<Rightarrow> 'v \<Rightarrow> bool) \<Rightarrow> (u64 \<times> 'cb) list \<Rightarrow> 'v \<Rightarrow> 'v \<Rightarrow> ('v, 'cb) call list \<times> bool" where
  "call_listeners throws [] old v = ([], False)"
| "call_listeners throws ((k, cb) # cbs) old v =
     (if throws cb old v then ([(cb, old, v)], True)
      else let (calls, thrown) = call_listeners throws cbs old v in ((cb, old, v) # calls, thrown))"

text \<open>
  \<open>setValue\<close>: whether it returned or threw, the calls it made, and the variable afterwards; \<open>eq\<close> is the
  \<open>operator==\<close> of the type.
\<close>

definition setValue ::
  "('v \<Rightarrow> 'v \<Rightarrow> bool) \<Rightarrow> ('cb \<Rightarrow> 'v \<Rightarrow> 'v \<Rightarrow> bool) \<Rightarrow> tid \<Rightarrow> 'v \<Rightarrow> ('v, 'cb) config_var \<Rightarrow>
   unit result \<times> ('v, 'cb) call list \<times> ('v, 'cb) config_var" where
  "setValue eq throws t v cv =
     (case write_scope t (m_rwmutex cv) of
        Inl e \<Rightarrow> (Inl e, [], cv)
      | Inr l \<Rightarrow>
          let cv1 = cv\<lparr>m_rwmutex := l\<rparr>
          in if eq (m_val cv1) v then (Inr (), [], cv1)
             else let (calls, thrown) = call_listeners throws (m_cbs cv1) (m_val cv1) v
               in if thrown then (Inl (Exn ''listener''), calls, cv1)
                  else (Inr (), calls, cv1\<lparr>m_val := v\<rparr>))"

definition fromString ::
  "'v casts \<Rightarrow> ('cb \<Rightarrow> 'v \<Rightarrow> 'v \<Rightarrow> bool) \<Rightarrow> tid \<Rightarrow> string \<Rightarrow> ('v, 'cb) config_var \<Rightarrow>
   bool result \<times> ('v, 'cb) call list \<times> ('v, 'cb) config_var" where
  "fromString casts throws t s cv =
     (case fst (snd (casts (cv_type cv))) s of
        Inl (Exn e) \<Rightarrow> (Inr False, [], cv)
      | Inl e \<Rightarrow> (Inl e, [], cv)
      | Inr v \<Rightarrow>
          (case setValue (snd (snd (casts (cv_type cv)))) throws t v cv of
             (Inr u, calls, cv1) \<Rightarrow> (Inr True, calls, cv1)
           | (Inl (Exn e), calls, cv1) \<Rightarrow> (Inr False, calls, cv1)
           | (Inl e, calls, cv1) \<Rightarrow> (Inl e, calls, cv1)))"

section \<open>Listeners\<close>

text \<open>
  \<open>addListener(cb)\<close> searches \<open>0 \<dots> s_func_id\<close> for an unused key. (When all \<open>2^64\<close> keys are used,
  the loop's counter wraps and it never ends.)
\<close>

definition find_key :: "u64 \<Rightarrow> (u64 \<times> 'cb) list \<Rightarrow> u64 option" where
  "find_key n cbs =
     map_option of_nat (List.find (\<lambda>i. of_nat i \<notin> fst ` set cbs) [0..<unat n + 1])"

definition addListener ::
  "tid \<Rightarrow> 'cb \<Rightarrow> ('v, 'cb) config_var \<Rightarrow> (u64 \<times> ('v, 'cb) config_var) result" where
  "addListener t cb cv =
     and_then (write_scope t (m_rwmutex cv)) (\<lambda>l.
     let cv1 = cv\<lparr>m_rwmutex := l\<rparr>
     in case find_key (s_func_id cv1) (m_cbs cv1) of
          Some i \<Rightarrow> Inr (i, cv1\<lparr>m_cbs := m_cbs cv1 @ [(i, cb)]\<rparr>)
        | None \<Rightarrow>
            if s_func_id cv1 = -1 then Inl (UB ''loop without end'')
            else let i = s_func_id cv1 + 1
              in Inr (i, cv1\<lparr>s_func_id := i, m_cbs := m_cbs cv1 @ [(i, cb)]\<rparr>))"

definition funcIdGrowthValid :: "u64 \<Rightarrow> u64 \<Rightarrow> bool" where
  "funcIdGrowthValid func_id i =
     (if func_id < 256 then i < func_id * 2
      else i < (func_id + 3 * 256) div 4 + func_id)"

text \<open>\<open>addListener(key, cb)\<close>; \<open>insert\<close> leaves a listener that is already there.\<close>

definition addListener_key ::
  "tid \<Rightarrow> u64 \<Rightarrow> 'cb \<Rightarrow> ('v, 'cb) config_var \<Rightarrow> unit result \<times> ('v, 'cb) config_var" where
  "addListener_key t key cb cv =
     (case write_scope t (m_rwmutex cv) of
        Inl e \<Rightarrow> (Inl e, cv)
      | Inr l \<Rightarrow>
          let cv1 = cv\<lparr>m_rwmutex := l\<rparr>
          in if \<not> funcIdGrowthValid (s_func_id cv1) key
             then (Inl (Exn ''ConfigVar::addListener invalid key''), cv1)
             else let cv2 = (if key > s_func_id cv1 then cv1\<lparr>s_func_id := key\<rparr> else cv1)
               in (Inr (), if key \<in> fst ` set (m_cbs cv2) then cv2
                           else cv2\<lparr>m_cbs := m_cbs cv2 @ [(key, cb)]\<rparr>))"

definition clearListener :: "tid \<Rightarrow> ('v, 'cb) config_var \<Rightarrow> ('v, 'cb) config_var result" where
  "clearListener t cv =
     and_then (write_scope t (m_rwmutex cv)) (\<lambda>l. Inr (cv\<lparr>m_rwmutex := l, m_cbs := []\<rparr>))"

definition getListener ::
  "tid \<Rightarrow> u64 \<Rightarrow> ('v, 'cb) config_var \<Rightarrow> ('cb option \<times> ('v, 'cb) config_var) result" where
  "getListener t key cv =
     and_then (read_scope t (m_rwmutex cv)) (\<lambda>l. Inr (map_of (m_cbs cv) key, cv\<lparr>m_rwmutex := l\<rparr>))"

section \<open>The registry\<close>

text \<open>
  The map of \<open>GetDatas\<close>, its lock \<open>GetMutex\<close>, the variables by address, and the listener
  calls made so far.
\<close>

record ('v, 'cb) config =
  s_datas :: "string \<Rightarrow> nat option"
  cfg_mutex :: rwlock
  cvars :: "nat \<Rightarrow> ('v, 'cb) config_var option"
  next_cvar :: nat
  called :: "('v, 'cb) call list"

definition kValidSet :: string where
  "kValidSet = ''abcdefghijklmnopqrstuvwxyz._0123456789''"

definition valid_name :: "string \<Rightarrow> bool" where
  "valid_name name \<longleftrightarrow> (\<forall>c \<in> set name. c \<in> set kValidSet)"

definition Config_insert :: "string \<Rightarrow> ('v, 'cb) config_var \<Rightarrow> ('v, 'cb) config \<Rightarrow> nat \<times> ('v, 'cb) config" where
  "Config_insert name cv cfg =
     (let p = next_cvar cfg
      in (p, cfg\<lparr>cvars := (cvars cfg)(p \<mapsto> cv), next_cvar := p + 1,
            s_datas := (case s_datas cfg name of None \<Rightarrow> (s_datas cfg)(name \<mapsto> p) | Some _ \<Rightarrow> s_datas cfg)\<rparr>))"

text \<open>\<open>Lookup<T>(name, default_value, description)\<close>, with the type's name for \<open>T\<close>.\<close>

definition Lookup ::
  "tid \<Rightarrow> string \<Rightarrow> string \<Rightarrow> 'v \<Rightarrow> string \<Rightarrow> ('v, 'cb) config \<Rightarrow> nat result \<times> ('v, 'cb) config" where
  "Lookup t ty name default_value description cfg =
     (case write_scope t (cfg_mutex cfg) of
        Inl e \<Rightarrow> (Inl e, cfg)
      | Inr l \<Rightarrow>
          let cfg1 = cfg\<lparr>cfg_mutex := l\<rparr>;
              tmp = (case s_datas cfg1 name of None \<Rightarrow> None
                | Some p \<Rightarrow> (case cvars cfg1 p of None \<Rightarrow> None
                    | Some cv \<Rightarrow> if cv_type cv = ty then Some p else None))
          in case tmp of
               Some p \<Rightarrow> (Inr p, cfg1)
             | None \<Rightarrow>
                 if \<not> valid_name name then (Inl (Exn name), cfg1)
                 else let (p, cfg2) = Config_insert name (ConfigVar ty name default_value description) cfg1
                   in (Inr p, cfg2))"

text \<open>\<open>Lookup<T>(name)\<close> and \<open>LookupBase\<close>.\<close>

definition Lookup_typed :: "tid \<Rightarrow> string \<Rightarrow> string \<Rightarrow> ('v, 'cb) config \<Rightarrow> (nat option \<times> ('v, 'cb) config) result" where
  "Lookup_typed t ty name cfg =
     and_then (read_scope t (cfg_mutex cfg)) (\<lambda>l.
     Inr (case s_datas cfg name of None \<Rightarrow> None
        | Some p \<Rightarrow> (case cvars cfg p of None \<Rightarrow> None
            | Some cv \<Rightarrow> if cv_type cv = ty then Some p else None), cfg\<lparr>cfg_mutex := l\<rparr>))"

definition LookupBase :: "tid \<Rightarrow> string \<Rightarrow> ('v, 'cb) config \<Rightarrow> (nat option \<times> ('v, 'cb) config) result" where
  "LookupBase t name cfg =
     and_then (read_scope t (cfg_mutex cfg)) (\<lambda>l. Inr (s_datas cfg name, cfg\<lparr>cfg_mutex := l\<rparr>))"

section \<open>Loading\<close>

definition dotted :: "string \<Rightarrow> string \<Rightarrow> string" where
  "dotted prefix k = (if prefix = [] then k else prefix @ ''.'' @ k)"

text \<open>
  \<open>ListAllMember\<close>: every level of the recursion holds a read guard on the registry's lock
  while it visits the levels below.
\<close>

function (sequential)
  ListAllMember :: "tid \<Rightarrow> string \<Rightarrow> yaml \<Rightarrow> rwlock \<Rightarrow> (string \<times> yaml) list \<Rightarrow> (rwlock \<times> (string \<times> yaml) list) result" and
  ListMembers :: "tid \<Rightarrow> string \<Rightarrow> (yaml \<times> yaml) list \<Rightarrow> rwlock \<Rightarrow> (string \<times> yaml) list \<Rightarrow> (rwlock \<times> (string \<times> yaml) list) result"
where
  "ListAllMember t prefix node l output =
     and_then (ReadScopedLockImpl (RWMutex_rdlock t) l) (\<lambda>g.
     and_then
       (if \<not> valid_name prefix then Inr (snd g, output)
        else (case node of
                YMap kvs \<Rightarrow> ListMembers t prefix kvs (snd g) (output @ [(prefix, node)])
              | _ \<Rightarrow> Inr (snd g, output @ [(prefix, node)]))) (\<lambda>(l1, output1).
     and_then (ReadScopedLockImpl_dtor (RWMutex_unlock t) (fst g, l1)) (\<lambda>l2.
     Inr (l2, output1))))"
| "ListMembers t prefix [] l output = Inr (l, output)"
| "ListMembers t prefix ((k, v) # kvs) l output =
     and_then (ListAllMember t (dotted prefix (Scalar k)) v l output) (\<lambda>(l1, output1).
       ListMembers t prefix kvs l1 output1)"
  by pat_completeness auto
termination
  by (relation "measure (case_sum (\<lambda>(t, p, n, l, out). size n)
      (\<lambda>(t, p, kvs, l, out). size_list (size_prod size size) kvs))") auto

declare ListAllMember.simps [simp del] ListMembers.simps [simp del]

text \<open>One iteration of the loop of \<open>LoadFromYaml\<close>.\<close>

definition load_member ::
  "yaml_api \<Rightarrow> 'v casts \<Rightarrow> ('cb \<Rightarrow> 'v \<Rightarrow> 'v \<Rightarrow> bool) \<Rightarrow> tid \<Rightarrow> string \<times> yaml \<Rightarrow> ('v, 'cb) config \<Rightarrow>
   ('v, 'cb) config result" where
  "load_member Y casts throws t i cfg =
     (if fst i = [] then Inr cfg
      else and_then (LookupBase t (map tolower (fst i)) cfg) (\<lambda>(var, cfg1).
        case var of None \<Rightarrow> Inr cfg1
        | Some p \<Rightarrow>
            (case cvars cfg1 p of None \<Rightarrow> Inl (UB ''dangling variable'')
             | Some cv \<Rightarrow>
                 (let text = (case snd i of YScalar s \<Rightarrow> s | n \<Rightarrow> y_emit Y n)
                  in case fromString casts throws t text cv of
                       (Inl e, calls, cv1) \<Rightarrow> Inl e
                     | (Inr b, calls, cv1) \<Rightarrow>
                         Inr (cfg1\<lparr>cvars := (cvars cfg1)(p \<mapsto> cv1), called := called cfg1 @ calls\<rparr>)))))"

fun load_members ::
  "yaml_api \<Rightarrow> 'v casts \<Rightarrow> ('cb \<Rightarrow> 'v \<Rightarrow> 'v \<Rightarrow> bool) \<Rightarrow> tid \<Rightarrow> (string \<times> yaml) list \<Rightarrow> ('v, 'cb) config \<Rightarrow>
   ('v, 'cb) config result" where
  "load_members Y casts throws t [] cfg = Inr cfg"
| "load_members Y casts throws t (i # is) cfg =
     and_then (load_member Y casts throws t i cfg) (load_members Y casts throws t is)"

definition LoadFromYaml ::
  "yaml_api \<Rightarrow> 'v casts \<Rightarrow> ('cb \<Rightarrow> 'v \<Rightarrow> 'v \<Rightarrow> bool) \<Rightarrow> tid \<Rightarrow> yaml \<Rightarrow> ('v, 'cb) config \<Rightarrow>
   ('v, 'cb) config result" where
  "LoadFromYaml Y casts throws t root cfg =
     and_then (ListAllMember t [] root (cfg_mutex cfg) []) (\<lambda>(l, all_nodes).
     and_then (ReadScopedLockImpl (RWMutex_rdlock t) l) (\<lambda>g.
     and_then (load_members Y casts throws t all_nodes (cfg\<lparr>cfg_mutex := snd g\<rparr>)) (\<lambda>cfg1.
     and_then (ReadScopedLockImpl_dtor (RWMutex_unlock t) (fst g, cfg_mutex cfg1)) (\<lambda>l1.
     Inr (cfg1\<lparr>cfg_mutex := l1\<rparr>)))))"

text \<open>\<open>Visit\<close>: the variables in the order of the table, which \<open>order\<close> gives, each passed to \<open>cb\<close>.\<close>

definition Visit ::
  "(nat set \<Rightarrow> nat list) \<Rightarrow> tid \<Rightarrow> (nat \<Rightarrow> 's \<Rightarrow> 's) \<Rightarrow> ('v, 'cb) config \<Rightarrow> 's \<Rightarrow> ('s \<times> ('v, 'cb) config) result" where
  "Visit order t cb cfg st =
     and_then (read_scope t (cfg_mutex cfg)) (\<lambda>l.
     Inr (fold cb (order (ran (s_datas cfg))) st, cfg\<lparr>cfg_mutex := l\<rparr>))"

section \<open>Listeners and values\<close>

lemma call_listeners_quiet:
  "\<forall>cb \<in> snd ` set cbs. \<not> throws cb old v \<Longrightarrow>
    call_listeners throws cbs old v = (map (\<lambda>(k, cb). (cb, old, v)) cbs, False)"
  by (induction cbs) auto

lemma call_listeners_prefix:
  "call_listeners throws cbs old v = (calls, thrown) \<Longrightarrow>
    (\<exists>n. calls = map (\<lambda>(k, cb). (cb, old, v)) (take n cbs)) \<and> (thrown \<longleftrightarrow> (\<exists>cb \<in> snd ` set cbs. throws cb old v))"
proof (induction cbs arbitrary: calls thrown)
  case (Cons x cbs)
  obtain k cb where x: "x = (k, cb)" by (cases x)
  obtain calls1 thrown1 where 1: "call_listeners throws cbs old v = (calls1, thrown1)" by (cases "call_listeners throws cbs old v")
  from Cons.IH [OF 1] obtain n where n: "calls1 = map (\<lambda>(k, cb). (cb, old, v)) (take n cbs)"
    "thrown1 \<longleftrightarrow> (\<exists>cb \<in> snd ` set cbs. throws cb old v)" by blast
  show ?case
  proof (cases "throws cb old v")
    case True
    then show ?thesis using Cons.prems x by (auto intro!: exI [of _ 1])
  next
    case False
    then show ?thesis using Cons.prems x 1 n by (auto intro!: exI [of _ "Suc n"])
  qed
qed simp

lemma find_SomeD: "List.find P xs = Some x \<Longrightarrow> P x \<and> x \<in> set xs"
  by (induction xs) (auto split: if_splits)

lemma find_key_Some:
  assumes "find_key n cbs = Some i" shows "i \<le> n \<and> i \<notin> fst ` set cbs"
proof -
  obtain j where j: "List.find (\<lambda>i. of_nat i \<notin> fst ` set cbs) [0..<unat n + 1] = Some j" "i = of_nat j"
    using assms unfolding find_key_def by blast
  from find_SomeD [OF j(1)] have n: "j \<le> unat n" and "of_nat j \<notin> fst ` set cbs" by auto
  have "unat n < 2 ^ 64" using unsigned_less [of n] by simp
  then have "unat (of_nat j :: u64) = j" using n by (simp add: unat_of_nat)
  with \<open>of_nat j \<notin> fst ` set cbs\<close> n j(2) show ?thesis by (simp add: word_le_nat_alt)
qed

lemma find_key_None: "find_key n cbs = None \<Longrightarrow> i \<le> n \<Longrightarrow> i \<in> fst ` set cbs"
proof -
  assume a: "find_key n cbs = None" "i \<le> n"
  have "unat i \<in> set [0..<unat n + 1]" using a(2) by (auto simp: word_le_nat_alt)
  with a(1) have "\<not> (of_nat (unat i) \<notin> fst ` set cbs)"
    unfolding find_key_def map_option_is_None find_None_iff by blast
  then show ?thesis by simp
qed

text \<open>Every key in use is at most \<open>s_func_id\<close>, and no key is used twice.\<close>

definition keys_ok :: "('v, 'cb) config_var \<Rightarrow> bool" where
  "keys_ok cv \<longleftrightarrow> distinct (map fst (m_cbs cv)) \<and> (\<forall>k \<in> fst ` set (m_cbs cv). k \<le> s_func_id cv)"

lemma keys_ok_new: "keys_ok (ConfigVar ty name v d)"
  by (simp add: keys_ok_def ConfigVar_def)

lemma u64_less_succ: "(n :: u64) \<noteq> -1 \<Longrightarrow> n < n + 1"
proof -
  assume "n \<noteq> -1"
  then have "unat n \<noteq> 2 ^ 64 - 1"
    by (simp add: word_unat_eq_iff unsigned_minus_1_eq_mask mask_eq_exp_minus_1)
  moreover have "unat n < 2 ^ 64" using unsigned_less [of n, where ?'a = nat] by simp
  ultimately have "(unat n + 1) mod 2 ^ 64 = unat n + 1" by (intro mod_less) simp
  then show ?thesis by (simp add: word_less_nat_alt unat_word_ariths)
qed

text \<open>A variable whose write lock some thread took and never gave back.\<close>

lemma var_lock_kept:
  assumes "m_rwmutex cv = rw_free" "u \<noteq> t"
  shows "write_scope t (m_rwmutex cv) = Inr (rw_free\<lparr>writer := Some t\<rparr>)"
    and "write_scope u (rw_free\<lparr>writer := Some t\<rparr>) = Inl Blocked"
    and "read_scope u (rw_free\<lparr>writer := Some t\<rparr>) = Inl Blocked"
  using assms by (simp_all add: lock_simps rw_free_def)

section \<open>The members of a YAML node\<close>

text \<open>\<open>n\<close> is the node at the path \<open>ks\<close> of keys below the node \<open>root\<close>.\<close>

inductive member_at :: "yaml \<Rightarrow> string list \<Rightarrow> yaml \<Rightarrow> bool" where
  here [step_intros]: "member_at n [] n"
| below [step_intros]: "(k, v) \<in> set kvs \<Longrightarrow> member_at v ks n \<Longrightarrow> member_at (YMap kvs) (Scalar k # ks) n"

inductive_cases member_at_NilE: "member_at n [] m"
inductive_cases member_at_ConsE: "member_at n (k # ks) m"
inductive_simps member_at_simps: "member_at YNull ks m" "member_at (YScalar s) ks m" "member_at (YSeq xs) ks m"
  "member_at (YMap kvs) ks m"

fun members :: "string \<Rightarrow> yaml \<Rightarrow> (string \<times> yaml) list" where
  "members prefix node =
     (if \<not> valid_name prefix then []
      else (prefix, node) # (case node of
          YMap kvs \<Rightarrow> concat (map (\<lambda>(k, v). members (dotted prefix (Scalar k)) v) kvs)
        | _ \<Rightarrow> []))"

declare members.simps [simp del]

lemma valid_dotted: "valid_name (dotted p k) \<Longrightarrow> valid_name p"
  by (auto simp: valid_name_def dotted_def split: if_splits)

lemma valid_dotted_fold: "valid_name (foldl dotted p ks) \<Longrightarrow> valid_name p"
  by (induction ks arbitrary: p) (auto dest: valid_dotted)

lemma members_iff:
  "(p, n) \<in> set (members prefix node) \<longleftrightarrow>
    valid_name p \<and> (\<exists>ks. member_at node ks n \<and> p = foldl dotted prefix ks)"
proof (induction prefix node rule: members.induct)
  case (1 prefix node)
  show ?case
  proof (cases "valid_name prefix")
    case False
    then show ?thesis by (auto simp: members.simps dest: valid_dotted_fold)
  next
    case valid: True
    show ?thesis
    proof (cases node)
      case (YMap kvs)
      have IH: "(p, n) \<in> set (members (dotted prefix (Scalar k)) v) \<longleftrightarrow>
          valid_name p \<and> (\<exists>ks. member_at v ks n \<and> p = foldl dotted (dotted prefix (Scalar k)) ks)"
        if "(k, v) \<in> set kvs" for k v
        using "1.IH" [of kvs "(k, v)" k v] valid YMap that by simp
      have "(p, n) \<in> set (members prefix node) \<longleftrightarrow> (p, n) = (prefix, node) \<or>
          (\<exists>(k, v) \<in> set kvs. (p, n) \<in> set (members (dotted prefix (Scalar k)) v))"
        using valid YMap by (auto simp: members.simps [of prefix])
      also have "\<dots> \<longleftrightarrow> (p, n) = (prefix, node) \<or> (\<exists>(k, v) \<in> set kvs. valid_name p \<and>
          (\<exists>ks. member_at v ks n \<and> p = foldl dotted (dotted prefix (Scalar k)) ks))"
        using IH by blast
      also have "\<dots> \<longleftrightarrow> valid_name p \<and> (\<exists>ks. member_at node ks n \<and> p = foldl dotted prefix ks)"
      proof
        assume "(p, n) = (prefix, node) \<or> (\<exists>(k, v) \<in> set kvs. valid_name p \<and>
            (\<exists>ks. member_at v ks n \<and> p = foldl dotted (dotted prefix (Scalar k)) ks))"
        then show "valid_name p \<and> (\<exists>ks. member_at node ks n \<and> p = foldl dotted prefix ks)"
        proof
          assume "(p, n) = (prefix, node)"
          then show ?thesis using valid by (intro conjI exI [of _ "[]"]) (auto intro: member_at.here)
        next
          assume "\<exists>(k, v) \<in> set kvs. valid_name p \<and>
            (\<exists>ks. member_at v ks n \<and> p = foldl dotted (dotted prefix (Scalar k)) ks)"
          then obtain k v ks where "(k, v) \<in> set kvs" "valid_name p" "member_at v ks n"
            "p = foldl dotted (dotted prefix (Scalar k)) ks" by blast
          then show ?thesis
            unfolding YMap by (intro conjI exI [of _ "Scalar k # ks"]) (auto intro: member_at.below)
        qed
      next
        assume "valid_name p \<and> (\<exists>ks. member_at node ks n \<and> p = foldl dotted prefix ks)"
        then obtain ks where p: "valid_name p" "member_at (YMap kvs) ks n" "p = foldl dotted prefix ks"
          unfolding YMap by blast
        from p(2) show "(p, n) = (prefix, node) \<or> (\<exists>(k, v) \<in> set kvs. valid_name p \<and>
            (\<exists>ks. member_at v ks n \<and> p = foldl dotted (dotted prefix (Scalar k)) ks))"
        proof cases
          case here
          then show ?thesis using p(3) YMap by simp
        next
          case (below k v ks')
          then show ?thesis using p(1,3) by (intro disjI2 bexI [of _ "(k, v)"]) auto
        qed
      qed
      finally show ?thesis .
    qed (use valid in \<open>auto simp: members.simps [of prefix] member_at_simps\<close>)
  qed
qed


lemma rdlock_free: "writer l = None \<Longrightarrow> ReadScopedLockImpl (RWMutex_rdlock t) l = Inr (True, l\<lparr>readers := t # readers l\<rparr>)"
  by (simp add: ReadScopedLockImpl_def lock_defs)

lemma rd_dtor_free:
  "writer l = None \<Longrightarrow> ReadScopedLockImpl_dtor (RWMutex_unlock t) (True, l\<lparr>readers := t # readers l\<rparr>) = Inr l"
  by (simp add: ReadScopedLockImpl_dtor_def ReadScopedLockImpl_unlock_def lock_defs)

lemma ListAllMember_free:
  "(writer l = None \<longrightarrow> ListAllMember t prefix node l out = Inr (l, out @ members prefix node))"
  "(writer l = None \<longrightarrow> ListMembers t prefix kvs l out
     = Inr (l, out @ concat (map (\<lambda>(k, v). members (dotted prefix (Scalar k)) v) kvs)))"
proof (induction t prefix node l out and t prefix kvs l out rule: ListAllMember_ListMembers.induct)
  case (1 t prefix node l out)
  show ?case
  proof
    assume l: "writer l = None"
    let ?l = "l\<lparr>readers := t # readers l\<rparr>"
    show "ListAllMember t prefix node l out = Inr (l, out @ members prefix node)"
    proof (cases "valid_name prefix \<and> (\<exists>kvs. node = YMap kvs)")
      case False
      then show ?thesis
        using l by (auto simp: ListAllMember.simps members.simps [of prefix] rdlock_free rd_dtor_free split: yaml.splits)
    next
      case True
      then obtain kvs where node: "node = YMap kvs" and valid: "valid_name prefix" by blast
      have "ListMembers t prefix kvs ?l (out @ [(prefix, node)])
          = Inr (?l, (out @ [(prefix, node)]) @ concat (map (\<lambda>(k, v). members (dotted prefix (Scalar k)) v) kvs))"
        using "1.IH" [of "(True, ?l)" kvs] l node valid by (simp add: rdlock_free)
      then show ?thesis
        using l node valid by (simp add: ListAllMember.simps members.simps [of prefix] rdlock_free rd_dtor_free)
    qed
  qed
next
  case (2 t prefix l out)
  then show ?case by (simp add: ListMembers.simps)
next
  case (3 t prefix k v kvs l out)
  then show ?case by (simp add: ListMembers.simps)
qed

text \<open>With the registry's lock taken by the thread itself, the first guard to end gives it back.\<close>

lemma rdlock_own: "ReadScopedLockImpl (RWMutex_rdlock t) (rw_free\<lparr>writer := Some t\<rparr>) = Inr (True, rw_free\<lparr>writer := Some t\<rparr>)"
  by (simp add: ReadScopedLockImpl_def lock_defs EDEADLK_def)

lemma rd_dtor_own: "ReadScopedLockImpl_dtor (RWMutex_unlock t) (True, rw_free\<lparr>writer := Some t\<rparr>) = Inr rw_free"
  by (simp add: ReadScopedLockImpl_dtor_def ReadScopedLockImpl_unlock_def lock_defs rw_free_def)

lemma rd_dtor_not_held:
  "ReadScopedLockImpl_dtor (RWMutex_unlock t) (True, rw_free) = Inl (UB ''unlock of a read-write lock not held'')"
  by (simp add: ReadScopedLockImpl_dtor_def ReadScopedLockImpl_unlock_def lock_defs rw_free_def)

lemma ListAllMember_own:
  "ListAllMember t prefix node (rw_free\<lparr>writer := Some t\<rparr>) out
    = (if valid_name prefix \<and> (\<exists>kv kvs. node = YMap (kv # kvs))
       then Inl (UB ''unlock of a read-write lock not held'')
       else Inr (rw_free, out @ members prefix node))"
proof (induction node arbitrary: prefix out)
  case (YMap kvs)
  show ?case
  proof (cases "valid_name prefix \<and> kvs \<noteq> []")
    case False
    then show ?thesis
      by (auto simp: ListAllMember.simps ListMembers.simps members.simps [of prefix] rdlock_own rd_dtor_own)
  next
    case True
    then obtain k v kvs' where kvs: "kvs = (k, v) # kvs'" by (metis list.exhaust surj_pair)
    let ?out = "out @ [(prefix, YMap kvs)]"
    have "ListAllMember t (dotted prefix (Scalar k)) v (rw_free\<lparr>writer := Some t\<rparr>) ?out
        \<in> {Inl (UB ''unlock of a read-write lock not held''), Inr (rw_free, ?out @ members (dotted prefix (Scalar k)) v)}"
      using YMap.IH [of "(k, v)" v "dotted prefix (Scalar k)" ?out] kvs by simp
    moreover have free: "ListMembers t prefix kvs' rw_free out'
        = Inr (rw_free, out' @ concat (map (\<lambda>(k, v). members (dotted prefix (Scalar k)) v) kvs'))" for out'
      using ListAllMember_free(2) [of rw_free t prefix kvs' out'] by (simp add: rw_free_def)
    ultimately show ?thesis
      using True kvs
      by (auto simp: ListAllMember.simps [of t prefix] ListMembers.simps rdlock_own rd_dtor_not_held)
  qed
qed (auto simp: ListAllMember.simps members.simps rdlock_own rd_dtor_own)

lemma load_member_frame:
  assumes "load_member Y casts throws t i cfg = Inr cfg'" "writer (cfg_mutex cfg) = None"
  shows "s_datas cfg' = s_datas cfg \<and> cfg_mutex cfg' = cfg_mutex cfg
    \<and> (\<forall>p. (fst i = [] \<or> s_datas cfg (map tolower (fst i)) \<noteq> Some p) \<longrightarrow> cvars cfg' p = cvars cfg p)"
proof (cases "fst i = []")
  case False
  have base: "LookupBase t (map tolower (fst i)) cfg = Inr (s_datas cfg (map tolower (fst i)), cfg)"
    using assms(2) by (simp add: LookupBase_def read_scope_free)
  show ?thesis
  proof (cases "s_datas cfg (map tolower (fst i))")
    case None
    then show ?thesis using assms(1) False base by (simp add: load_member_def)
  next
    case (Some p)
    then obtain cv where cv: "cvars cfg p = Some cv"
      using assms(1) False base by (auto simp: load_member_def split: option.splits)
    obtain r calls cv1 where f: "fromString casts throws t (case snd i of YScalar s \<Rightarrow> s | n \<Rightarrow> y_emit Y n) cv = (r, calls, cv1)"
      by (metis prod_cases3)
    with Some cv assms(1) False base have "cfg' = cfg\<lparr>cvars := (cvars cfg)(p \<mapsto> cv1), called := called cfg @ calls\<rparr>"
      by (auto simp: load_member_def Let_def split: sum.splits)
    then show ?thesis using Some False by simp
  qed
qed (use assms in \<open>simp add: load_member_def\<close>)

lemma load_members_frame:
  assumes "load_members Y casts throws t is cfg = Inr cfg'" "writer (cfg_mutex cfg) = None"
  shows "s_datas cfg' = s_datas cfg \<and> cfg_mutex cfg' = cfg_mutex cfg
    \<and> (\<forall>p. (\<forall>i \<in> set is. fst i = [] \<or> s_datas cfg (map tolower (fst i)) \<noteq> Some p) \<longrightarrow> cvars cfg' p = cvars cfg p)"
  using assms
proof (induction "is" arbitrary: cfg)
  case (Cons i "is")
  obtain cfg1 where 1: "load_member Y casts throws t i cfg = Inr cfg1" "load_members Y casts throws t is cfg1 = Inr cfg'"
    using Cons.prems by auto
  note f = load_member_frame [OF 1(1) Cons.prems(2)]
  with Cons.IH [OF 1(2)] Cons.prems(2) show ?case by auto
qed simp

text \<open>What a load does to one variable: the members with its name, in their order.\<close>

definition load_into ::
  "yaml_api \<Rightarrow> 'v casts \<Rightarrow> ('cb \<Rightarrow> 'v \<Rightarrow> 'v \<Rightarrow> bool) \<Rightarrow> tid \<Rightarrow> string \<times> yaml \<Rightarrow> ('v, 'cb) config_var \<Rightarrow>
   ('v, 'cb) config_var" where
  "load_into Y casts throws t i cv =
     snd (snd (fromString casts throws t (case snd i of YScalar s \<Rightarrow> s | n \<Rightarrow> y_emit Y n) cv))"

definition names_var :: "('v, 'cb) config \<Rightarrow> nat \<Rightarrow> string \<times> yaml \<Rightarrow> bool" where
  "names_var cfg p i \<longleftrightarrow> fst i \<noteq> [] \<and> s_datas cfg (map tolower (fst i)) = Some p"

lemma load_member_var:
  assumes r: "load_member Y casts throws t i cfg = Inr cfg'" and l: "writer (cfg_mutex cfg) = None"
  shows "cvars cfg' p = (if names_var cfg p i then map_option (load_into Y casts throws t i) (cvars cfg p) else cvars cfg p)"
proof (cases "names_var cfg p i")
  case True
  then have base: "LookupBase t (map tolower (fst i)) cfg = Inr (Some p, cfg)" and ne: "fst i \<noteq> []"
    using l by (simp_all add: LookupBase_def read_scope_free names_var_def)
  obtain cv where cv: "cvars cfg p = Some cv"
    using r base ne by (auto simp: load_member_def split: option.splits)
  obtain q calls cv1 where f: "fromString casts throws t (case snd i of YScalar s \<Rightarrow> s | n \<Rightarrow> y_emit Y n) cv = (q, calls, cv1)"
    by (metis prod_cases3)
  with cv r base ne have "cvars cfg' p = Some cv1"
    by (auto simp: load_member_def Let_def split: sum.splits)
  with True cv f show ?thesis by (simp add: load_into_def)
next
  case False
  then show ?thesis using load_member_frame [OF r l] by (auto simp: names_var_def)
qed

lemma load_members_var:
  "load_members Y casts throws t is cfg = Inr cfg' \<Longrightarrow> writer (cfg_mutex cfg) = None \<Longrightarrow>
   cvars cfg' p = map_option (fold (load_into Y casts throws t) (filter (names_var cfg p) is)) (cvars cfg p)"
proof (induction "is" arbitrary: cfg)
  case Nil
  then show ?case by (simp add: option.map_ident)
next
  case (Cons i "is")
  obtain cfg1 where 1: "load_member Y casts throws t i cfg = Inr cfg1" "load_members Y casts throws t is cfg1 = Inr cfg'"
    using Cons.prems by auto
  note f = load_member_frame [OF 1(1) Cons.prems(2)]
  have "names_var cfg1 p = names_var cfg p" using f by (simp add: fun_eq_iff names_var_def)
  then show ?case
    using Cons.IH [OF 1(2)] f Cons.prems(2) load_member_var [OF 1(1) Cons.prems(2), of p]
    by (simp add: option.map_comp comp_def)
qed

lemma map_of_snoc:
  assumes "i \<notin> fst ` set xs" shows "map_of (xs @ [(i, cb)]) = (map_of xs)(i \<mapsto> cb)"
proof -
  have "map_of xs i = None" unfolding map_of_eq_None_iff using assms by simp
  then show ?thesis by (auto simp: fun_eq_iff map_add_def split: option.splits)
qed

lemma valid_tolower: "valid_name k \<Longrightarrow> map tolower k = k"
proof -
  have "\<forall>c \<in> set kValidSet. tolower c = c"
    by (simp add: kValidSet_def tolower_def Let_def of_char_def char_of_def)
  then show "valid_name k \<Longrightarrow> map tolower k = k"
    unfolding valid_name_def by (intro map_idI) blast
qed

lemma Lookup_lock:
  assumes "cfg_mutex cfg = rw_free"
  shows "cfg_mutex (snd (Lookup t ty name v d cfg)) = rw_free\<lparr>writer := Some t\<rparr>"
proof -
  have "write_scope t (cfg_mutex cfg) = Inr (rw_free\<lparr>writer := Some t\<rparr>)"
    using assms by (simp add: lock_simps rw_free_def)
  then show ?thesis
    by (auto simp: Lookup_def Config_insert_def Let_def split: option.splits)
qed


text \<open>An empty registry, one with a variable \<open>a\<close>, and conversions of numbers, for examples.\<close>

definition no_config :: "('v, 'cb) config" where
  "no_config = \<lparr>s_datas = Map.empty, cfg_mutex = rw_free, cvars = Map.empty, next_cvar = 0, called = []\<rparr>"

definition one_var :: "(nat, unit) config" where
  "one_var = \<lparr>s_datas = [''a'' \<mapsto> 0], cfg_mutex = rw_free, cvars = [0 \<mapsto> ConfigVar ''int'' ''a'' 5 []],
     next_cvar = 1, called = []\<rparr>"

definition nat_casts :: "nat casts" where
  "nat_casts ty = (\<lambda>n. Inr (if n = 1 then ''1'' else ''0''), \<lambda>s. if s = ''1'' then Inr 1 else Inl (Exn ''bad_lexical_cast''), (=))"

section \<open>Properties\<close>

text \<open>
  C29: \<open>Lookup\<close> with a default. A registered variable of the same type is returned as it is. An
  unused valid name registers a new variable with the default value. A name that is registered
  with another type gives a new variable that is not registered, and an invalid name that does not
  name a variable of that type is an exception.
\<close>

theorem Lookup_outcome:
  fixes t :: tid
  assumes l: "cfg_mutex cfg = rw_free" and heap: "\<forall>p. s_datas cfg name = Some p \<longrightarrow> cvars cfg p \<noteq> None"
    and fresh: "cvars cfg (next_cvar cfg) = None"
  defines "cfg1 \<equiv> cfg\<lparr>cfg_mutex := rw_free\<lparr>writer := Some t\<rparr>\<rparr>"
  shows "case s_datas cfg name of
      Some p \<Rightarrow> (if cv_type (the (cvars cfg p)) = ty then Lookup t ty name v d cfg = (Inr p, cfg1)
        else if valid_name name then (\<exists>cfg' q. Lookup t ty name v d cfg = (Inr q, cfg') \<and> q \<noteq> p
            \<and> s_datas cfg' = s_datas cfg \<and> cvars cfg' = (cvars cfg)(q \<mapsto> ConfigVar ty name v d))
        else Lookup t ty name v d cfg = (Inl (Exn name), cfg1))
    | None \<Rightarrow> (if valid_name name then (\<exists>cfg' q. Lookup t ty name v d cfg = (Inr q, cfg')
            \<and> s_datas cfg' = (s_datas cfg)(name \<mapsto> q) \<and> cvars cfg' = (cvars cfg)(q \<mapsto> ConfigVar ty name v d))
        else Lookup t ty name v d cfg = (Inl (Exn name), cfg1))"
proof -
  have w: "write_scope t (cfg_mutex cfg) = Inr (rw_free\<lparr>writer := Some t\<rparr>)"
    using l by (simp add: lock_simps rw_free_def)
  show ?thesis
  proof (cases "s_datas cfg name")
    case None
    then show ?thesis using w by (simp add: Lookup_def Config_insert_def cfg1_def Let_def)
  next
    case (Some p)
    then obtain cv where cv: "cvars cfg p = Some cv" using heap by auto
    then have "p \<noteq> next_cvar cfg" using fresh by auto
    with Some cv w show ?thesis by (simp add: Lookup_def Config_insert_def cfg1_def Let_def)
  qed
qed

theorem Lookup_outcome_witness:
  "\<exists>cfg' q. Lookup 7 ''int'' ''a.b'' (5 :: nat) [] (no_config :: (nat, unit) config) = (Inr q, cfg')
    \<and> s_datas cfg' = [''a.b'' \<mapsto> q]"
  using Lookup_outcome [of "no_config :: (nat, unit) config" "''a.b''" 7 "''int''" 5 "[]"]
  by (auto simp: no_config_def valid_name_def kValidSet_def)

text \<open>
  \<open>Lookup\<close> with a default keeps the registry's write lock, so every lookup and load of another
  thread blocks from then on.
\<close>

theorem Lookup_keeps_the_lock:
  assumes "cfg_mutex cfg = rw_free" "u \<noteq> t"
  shows "case Lookup t ty name v d cfg of (r, cfg1) \<Rightarrow>
      Lookup u ty' name' v' d' cfg1 = (Inl Blocked, cfg1) \<and> LookupBase u name' cfg1 = Inl Blocked
    \<and> LoadFromYaml Y casts throws u root cfg1 = Inl Blocked"
proof -
  obtain r cfg1 where k: "Lookup t ty name v d cfg = (r, cfg1)" by (metis surj_pair)
  have w: "write_scope t (cfg_mutex cfg) = Inr (rw_free\<lparr>writer := Some t\<rparr>)"
    using assms by (simp add: lock_simps rw_free_def)
  have m: "cfg_mutex cfg1 = rw_free\<lparr>writer := Some t\<rparr>"
    using k Lookup_lock [OF assms(1), of t ty name v d] by simp
  have "ReadScopedLockImpl (RWMutex_rdlock u) (rw_free\<lparr>writer := Some t\<rparr>) = Inl Blocked"
    using assms(2) by (simp add: ReadScopedLockImpl_def lock_defs)
  then have "ListAllMember u [] root (rw_free\<lparr>writer := Some t\<rparr>) [] = Inl Blocked"
    by (simp add: ListAllMember.simps)
  moreover have "write_scope u (rw_free\<lparr>writer := Some t\<rparr>) = Inl Blocked" "read_scope u (rw_free\<lparr>writer := Some t\<rparr>) = Inl Blocked"
    using assms(2) by (simp_all add: lock_simps)
  ultimately show ?thesis
    using k m by (simp add: Lookup_def LookupBase_def LoadFromYaml_def)
qed

theorem Lookup_keeps_the_lock_witness:
  "LookupBase 8 ''x'' (snd (Lookup 7 ''int'' ''a'' (5 :: nat) [] (no_config :: (nat, unit) config))) = Inl Blocked"
  using Lookup_keeps_the_lock [where cfg = "no_config :: (nat, unit) config" and u = 8 and t = 7
      and ty = "''int''" and name = "''a''" and v = 5 and d = "[]" and name' = "''x''"]
  by (simp add: no_config_def case_prod_beta)

text \<open>
  C26: \<open>setValue\<close>. Setting a value that the type's \<open>operator==\<close> takes for the variable's calls nobody
  and changes nothing. Otherwise every listener is
  called once with the old and the new value and the value is set; if some listener throws, the
  listeners before it in the table and it have been called and the value is unchanged. In each
  case the write lock stays with the caller.
\<close>

theorem setValue_notifies:
  assumes "m_rwmutex cv = rw_free"
  shows "if eq (m_val cv) v then setValue eq throws t v cv = (Inr (), [], cv\<lparr>m_rwmutex := rw_free\<lparr>writer := Some t\<rparr>\<rparr>)
    else if \<forall>cb \<in> snd ` set (m_cbs cv). \<not> throws cb (m_val cv) v
      then setValue eq throws t v cv = (Inr (), map (\<lambda>(k, cb). (cb, m_val cv, v)) (m_cbs cv),
             cv\<lparr>m_rwmutex := rw_free\<lparr>writer := Some t\<rparr>, m_val := v\<rparr>)
    else \<exists>n. setValue eq throws t v cv = (Inl (Exn ''listener''),
             map (\<lambda>(k, cb). (cb, m_val cv, v)) (take n (m_cbs cv)), cv\<lparr>m_rwmutex := rw_free\<lparr>writer := Some t\<rparr>\<rparr>)"
proof -
  obtain calls thrown where c: "call_listeners throws (m_cbs cv) (m_val cv) v = (calls, thrown)"
    by (cases "call_listeners throws (m_cbs cv) (m_val cv) v")
  have w: "write_scope t (m_rwmutex cv) = Inr (rw_free\<lparr>writer := Some t\<rparr>)"
    using assms by (simp add: lock_simps rw_free_def)
  show ?thesis
    using call_listeners_prefix [OF c] call_listeners_quiet [of "m_cbs cv" throws "m_val cv" v] w c
    by (auto simp: setValue_def Let_def)
qed

theorem setValue_notifies_witness:
  "setValue (=) (\<lambda>cb x y. False) 7 (2 :: nat) ((ConfigVar ''int'' ''a'' 1 [])\<lparr>m_cbs := [(0, ''f''), (1, ''g'')]\<rparr>)
    = (Inr (), [(''f'', 1, 2), (''g'', 1, 2)],
       (ConfigVar ''int'' ''a'' 1 [])\<lparr>m_cbs := [(0, ''f''), (1, ''g'')], m_rwmutex := rw_free\<lparr>writer := Some 7\<rparr>, m_val := 2\<rparr>)"
  using setValue_notifies [of "(ConfigVar ''int'' ''a'' (1 :: nat) [])\<lparr>m_cbs := [(0, ''f''), (1, ''g'')]\<rparr>" "(=)" 2
      "\<lambda>cb x y. False" 7]
  by (simp add: ConfigVar_def)

text \<open>
  After \<open>setValue\<close> another thread cannot use the variable. Whatever the outcome, every operation of
  another thread that takes the variable's lock blocks, until the thread itself happens to use a
  read guard, whose unlock gives the write lock back.
\<close>

theorem setValue_keeps_the_lock:
  assumes "m_rwmutex cv = rw_free" "u \<noteq> t"
  shows "case setValue eq throws t v cv of (r, calls, cv1) \<Rightarrow>
      setValue eq throws u v' cv1 = (Inl Blocked, [], cv1) \<and> addListener u cb cv1 = Inl Blocked
    \<and> getListener u k cv1 = Inl Blocked \<and> getName u cv1 = Inl Blocked
    \<and> (\<exists>cv2. getName t cv1 = Inr (cv_name cv, cv2) \<and> m_rwmutex cv2 = rw_free)"
proof -
  obtain r calls cv1 where s: "setValue eq throws t v cv = (r, calls, cv1)" by (metis prod_cases3)
  have w: "write_scope t (m_rwmutex cv) = Inr (rw_free\<lparr>writer := Some t\<rparr>)"
    using assms by (simp add: lock_simps rw_free_def)
  have cv1: "m_rwmutex cv1 = rw_free\<lparr>writer := Some t\<rparr> \<and> cv_name cv1 = cv_name cv"
    using s w by (auto simp: setValue_def Let_def split: if_splits prod.splits)
  have "read_scope t (rw_free\<lparr>writer := Some t\<rparr>) = Inr rw_free"
    by (simp add: read_scope_own rw_free_def)
  with s cv1 var_lock_kept(2,3) [OF assms] show ?thesis
    by (simp add: setValue_def addListener_def getListener_def getName_def)
qed

theorem setValue_keeps_the_lock_witness:
  "setValue (=) (\<lambda>cb x y. False) 8 3 (snd (snd (setValue (=) (\<lambda>cb x y. False) 7 (2 :: nat) (ConfigVar ''int'' ''a'' 1 [] :: (nat, unit) config_var))))
    = (Inl Blocked, [], snd (snd (setValue (=) (\<lambda>cb x y. False) 7 2 (ConfigVar ''int'' ''a'' 1 []))))"
  using setValue_keeps_the_lock [where cv = "ConfigVar ''int'' ''a'' (1 :: nat) [] :: (nat, unit) config_var"
      and u = 8 and t = 7 and eq = "(=)" and throws = "\<lambda>cb x y. False" and v = 2 and v' = 3]
  by (simp add: ConfigVar_def case_prod_beta)

text \<open>
  C28: \<open>ListAllMember\<close> lists exactly the nodes of the tree with their dotted paths, as far as the path
  consists of the permitted characters only, and gives the lock back as it was.
\<close>

theorem ListAllMember_paths:
  assumes "writer l = None"
  shows "\<exists>ns. ListAllMember t [] root l [] = Inr (l, ns)
    \<and> (\<forall>p n. (p, n) \<in> set ns \<longleftrightarrow> valid_name p \<and> (\<exists>ks. member_at root ks n \<and> p = foldl dotted [] ks))"
  using ListAllMember_free(1) [of l t "[]" root "[]"] assms members_iff [of _ _ "[]" root] by auto

theorem ListAllMember_paths_witness:
  "\<exists>ns. ListAllMember 7 [] (YMap [(YScalar ''a'', YScalar ''1'')]) rw_free [] = Inr (rw_free, ns)
    \<and> (''a'', YScalar ''1'') \<in> set ns"
proof -
  let ?r = "YMap [(YScalar ''a'', YScalar ''1'')]"
  have "member_at ?r [Scalar (YScalar ''a'')] (YScalar ''1'')"
    by (intro member_at.below [where v = "YScalar ''1''"] member_at.here) simp
  then have "\<exists>ks. member_at ?r ks (YScalar ''1'') \<and> ''a'' = foldl dotted [] ks"
    by (intro exI [of _ "[''a'']"]) (simp add: dotted_def)
  moreover have "valid_name ''a''" by (simp add: valid_name_def kValidSet_def)
  ultimately show ?thesis
    using ListAllMember_paths [of rw_free 7 ?r] by (auto simp: rw_free_def)
qed

text \<open>A load of one member into one variable.\<close>

lemma load_example_members:
  "ListAllMember 7 [] (YMap [(YScalar ''a'', YScalar ''1'')]) rw_free []
    = Inr (rw_free, [([], YMap [(YScalar ''a'', YScalar ''1'')]), (''a'', YScalar ''1'')])"
proof -
  have "valid_name ''a''" "valid_name []" by (simp_all add: valid_name_def kValidSet_def)
  then show ?thesis
    using ListAllMember_free(1) [of rw_free 7 "[]" "YMap [(YScalar ''a'', YScalar ''1'')]" "[]"]
    by (simp add: rw_free_def members.simps dotted_def)
qed

lemma load_example:
  "\<exists>cfg'. LoadFromYaml (table_yaml []) nat_casts (\<lambda>cb x y. False) 7 (YMap [(YScalar ''a'', YScalar ''1'')]) one_var = Inr cfg'
    \<and> (\<exists>cv. cvars cfg' 0 = Some cv \<and> m_val cv = 1)"
proof -
  let ?r = "YMap [(YScalar ''a'', YScalar ''1'')]"
  have lock0: "cfg_mutex one_var = rw_free" by (simp add: one_var_def)
  define cfg1 where "cfg1 = one_var\<lparr>cfg_mutex := rw_free\<lparr>readers := [7]\<rparr>,
    cvars := [0 \<mapsto> (ConfigVar ''int'' ''a'' 5 [])\<lparr>m_rwmutex := rw_free\<lparr>writer := Some 7\<rparr>, m_val := 1\<rparr>]\<rparr>"
  have "load_members (table_yaml []) nat_casts (\<lambda>cb x y. False) 7 [([], ?r), (''a'', YScalar ''1'')]
      (one_var\<lparr>cfg_mutex := rw_free\<lparr>readers := [7]\<rparr>\<rparr>) = Inr cfg1"
    using valid_tolower [of "''a''"]
    by (simp add: one_var_def cfg1_def load_member_def LookupBase_def read_scope_free rw_free_def
      ConfigVar_def fromString_def setValue_def nat_casts_def write_scope_free Let_def valid_name_def kValidSet_def)
  moreover have "ReadScopedLockImpl (RWMutex_rdlock 7) rw_free = Inr (True, rw_free\<lparr>readers := [7]\<rparr>)"
    using rdlock_free [of rw_free 7] by (simp add: rw_free_def)
  moreover have "ReadScopedLockImpl_dtor (RWMutex_unlock 7) (True, cfg_mutex cfg1) = Inr rw_free"
    using rd_dtor_free [of rw_free 7] by (simp add: rw_free_def cfg1_def)
  ultimately have l: "LoadFromYaml (table_yaml []) nat_casts (\<lambda>cb x y. False) 7 ?r one_var = Inr (cfg1\<lparr>cfg_mutex := rw_free\<rparr>)"
    using load_example_members unfolding LoadFromYaml_def lock0 by (simp del: load_members.simps)
  obtain cv where "cvars (cfg1\<lparr>cfg_mutex := rw_free\<rparr>) 0 = Some cv" "m_val cv = 1" by (simp add: cfg1_def)
  with l show ?thesis by blast
qed

text \<open>
  C27: what a load does. The members that \<open>ListAllMember\<close> lists are gone through in their order, and each
  one whose path is the name of a registered variable is given to this variable's \<open>fromString\<close>, as its
  scalar or as the text of its node. So a variable ends as its own members, and no others, leave it.
  The registry and its lock are as before.
\<close>

theorem LoadFromYaml_loads_members:
  assumes l: "writer (cfg_mutex cfg) = None" and r: "LoadFromYaml Y casts throws t root cfg = Inr cfg'"
  shows "\<exists>ns. ListAllMember t [] root (cfg_mutex cfg) [] = Inr (cfg_mutex cfg, ns)
    \<and> s_datas cfg' = s_datas cfg \<and> cfg_mutex cfg' = cfg_mutex cfg
    \<and> (\<forall>p. cvars cfg' p = map_option (fold (load_into Y casts throws t)
          (filter (\<lambda>i. fst i \<noteq> [] \<and> s_datas cfg (fst i) = Some p) ns)) (cvars cfg p))"
proof -
  let ?ns = "members [] root"
  let ?l = "(cfg_mutex cfg)\<lparr>readers := t # readers (cfg_mutex cfg)\<rparr>"
  have la: "ListAllMember t [] root (cfg_mutex cfg) [] = Inr (cfg_mutex cfg, ?ns)"
    using ListAllMember_free(1) [of "cfg_mutex cfg" t "[]" root "[]"] l by simp
  then obtain cfg1 l1 where ms: "load_members Y casts throws t ?ns (cfg\<lparr>cfg_mutex := ?l\<rparr>) = Inr cfg1"
    and l1: "ReadScopedLockImpl_dtor (RWMutex_unlock t) (True, cfg_mutex cfg1) = Inr l1"
    and cfg': "cfg' = cfg1\<lparr>cfg_mutex := l1\<rparr>"
    using r rdlock_free [OF l, of t] by (auto simp: LoadFromYaml_def)
  have w: "writer (cfg_mutex (cfg\<lparr>cfg_mutex := ?l\<rparr>)) = None" using l by simp
  have f: "s_datas cfg1 = s_datas cfg" "cfg_mutex cfg1 = ?l"
    using load_members_frame [OF ms w] by auto
  have "l1 = cfg_mutex cfg" using l1 rd_dtor_free [OF l, of t] f(2) by simp
  moreover have "filter (names_var (cfg\<lparr>cfg_mutex := ?l\<rparr>) p) ?ns
      = filter (\<lambda>i. fst i \<noteq> [] \<and> s_datas cfg (fst i) = Some p) ?ns" for p
  proof (rule filter_cong)
    fix i assume "i \<in> set ?ns"
    then have "valid_name (fst i)" using members_iff [of "fst i" "snd i" "[]" root] by simp
    then show "names_var (cfg\<lparr>cfg_mutex := ?l\<rparr>) p i = (fst i \<noteq> [] \<and> s_datas cfg (fst i) = Some p)"
      using valid_tolower by (simp add: names_var_def)
  qed simp
  ultimately show ?thesis
    using la f(1) cfg' load_members_var [OF ms w] by simp
qed

theorem LoadFromYaml_loads_members_witness:
  "\<exists>cfg'. LoadFromYaml (table_yaml []) nat_casts (\<lambda>cb x y. False) 7 (YMap [(YScalar ''a'', YScalar ''1'')]) one_var = Inr cfg'
    \<and> (\<exists>cv. cvars cfg' 0 = Some cv \<and> m_val cv = 1)"
proof -
  let ?r = "YMap [(YScalar ''a'', YScalar ''1'')]"
  have free: "writer (cfg_mutex one_var) = None" by (simp add: one_var_def rw_free_def)
  obtain cfg' where cfg': "LoadFromYaml (table_yaml []) nat_casts (\<lambda>cb x y. False) 7 ?r one_var = Inr cfg'"
    using load_example by blast
  obtain ns where ns: "ListAllMember 7 [] ?r (cfg_mutex one_var) [] = Inr (cfg_mutex one_var, ns)"
    "cvars cfg' 0 = map_option (fold (load_into (table_yaml []) nat_casts (\<lambda>cb x y. False) 7)
          (filter (\<lambda>i. fst i \<noteq> [] \<and> s_datas one_var (fst i) = Some 0) ns)) (cvars one_var 0)"
    using LoadFromYaml_loads_members [OF free cfg'] by blast
  have "ns = [([], ?r), (''a'', YScalar ''1'')]"
    using ns(1) load_example_members by (simp add: one_var_def)
  then have "\<exists>cv. cvars cfg' 0 = Some cv \<and> m_val cv = 1"
    using ns(2) by (simp add: one_var_def load_into_def ConfigVar_def fromString_def setValue_def nat_casts_def
      write_scope_free rw_free_def)
  then show ?thesis using cfg' by blast
qed

text \<open>
  A load changes only variables that some member of the document names: a variable that is
  changed is registered under the dotted path of a node, as it is written there. (The path has
  only permitted characters, among which there is no capital letter, so its conversion to lower
  case does nothing.) The registry itself and its lock are as before.
\<close>

theorem LoadFromYaml_changes_only_members:
  assumes l: "writer (cfg_mutex cfg) = None" and r: "LoadFromYaml Y casts throws t root cfg = Inr cfg'"
    and p: "cvars cfg' p \<noteq> cvars cfg p"
  shows "s_datas cfg' = s_datas cfg \<and> cfg_mutex cfg' = cfg_mutex cfg
    \<and> (\<exists>ks n. member_at root ks n \<and> valid_name (foldl dotted [] ks) \<and> s_datas cfg (foldl dotted [] ks) = Some p)"
proof -
  let ?ns = "members [] root"
  let ?l = "(cfg_mutex cfg)\<lparr>readers := t # readers (cfg_mutex cfg)\<rparr>"
  have "ListAllMember t [] root (cfg_mutex cfg) [] = Inr (cfg_mutex cfg, ?ns)"
    using ListAllMember_free(1) [of "cfg_mutex cfg" t "[]" root "[]"] l by simp
  then obtain cfg1 l1 where ms: "load_members Y casts throws t ?ns (cfg\<lparr>cfg_mutex := ?l\<rparr>) = Inr cfg1"
    and l1: "ReadScopedLockImpl_dtor (RWMutex_unlock t) (True, cfg_mutex cfg1) = Inr l1"
    and cfg': "cfg' = cfg1\<lparr>cfg_mutex := l1\<rparr>"
    using r rdlock_free [OF l, of t] by (auto simp: LoadFromYaml_def)
  from load_members_frame [OF ms] l have f: "s_datas cfg1 = s_datas cfg" "cfg_mutex cfg1 = ?l"
    "\<And>p. \<forall>i \<in> set ?ns. fst i = [] \<or> s_datas cfg (map tolower (fst i)) \<noteq> Some p \<Longrightarrow> cvars cfg1 p = cvars cfg p"
    by auto
  have "l1 = cfg_mutex cfg" using l1 rd_dtor_free [OF l, of t] f(2) by simp
  moreover have "\<not> (\<forall>i \<in> set ?ns. fst i = [] \<or> s_datas cfg (map tolower (fst i)) \<noteq> Some p)"
    using f(3) [of p] p cfg' by auto
  then obtain i where i: "i \<in> set ?ns" "s_datas cfg (map tolower (fst i)) = Some p" by blast
  have "(fst i, snd i) \<in> set ?ns" using i(1) by simp
  then obtain ks where "valid_name (fst i)" "member_at root ks (snd i)" "fst i = foldl dotted [] ks"
    unfolding members_iff by blast
  with i(2) valid_tolower [of "fst i"] have "\<exists>ks n. member_at root ks n \<and> valid_name (foldl dotted [] ks) \<and> s_datas cfg (foldl dotted [] ks) = Some p"
    by auto
  ultimately show ?thesis using f(1) cfg' by simp
qed

theorem LoadFromYaml_changes_only_members_witness:
  "\<exists>cfg'. LoadFromYaml (table_yaml []) nat_casts (\<lambda>cb x y. False) 7 (YMap [(YScalar ''a'', YScalar ''1'')]) one_var = Inr cfg'
    \<and> (\<exists>cv. cvars cfg' 0 = Some cv \<and> m_val cv = 1) \<and> cfg_mutex cfg' = rw_free"
proof -
  let ?r = "YMap [(YScalar ''a'', YScalar ''1'')]"
  have free: "writer (cfg_mutex one_var) = None" by (simp add: one_var_def rw_free_def)
  obtain cfg' cv where l: "LoadFromYaml (table_yaml []) nat_casts (\<lambda>cb x y. False) 7 ?r one_var = Inr cfg'"
    and cv: "cvars cfg' 0 = Some cv" "m_val cv = 1"
    using load_example by blast
  have "cvars cfg' 0 \<noteq> cvars one_var 0" using cv by (auto simp: one_var_def ConfigVar_def)
  from LoadFromYaml_changes_only_members [OF free l this] l cv show ?thesis
    by (simp add: one_var_def)
qed

text \<open>
  Loading in the thread that registered a variable. The write lock that \<open>Lookup\<close> left is given
  back by the first nested read guard of \<open>ListAllMember\<close> to end, so for every document with at
  least one member the outermost guard unlocks a lock that is not held.
\<close>

theorem LoadFromYaml_after_Lookup:
  assumes "cfg_mutex cfg = rw_free" and "root = YMap (kv # kvs)"
  shows "LoadFromYaml Y casts throws t root (snd (Lookup t ty name v d cfg))
    = Inl (UB ''unlock of a read-write lock not held'')"
  unfolding LoadFromYaml_def Lookup_lock [OF assms(1)] ListAllMember_own
  by (simp add: assms(2) valid_name_def)

theorem LoadFromYaml_after_Lookup_witness:
  "LoadFromYaml (table_yaml []) nat_casts (\<lambda>cb x y. False) 7 (YMap [(YScalar ''a'', YScalar ''1'')])
      (snd (Lookup 7 ''int'' ''a'' (5 :: nat) [] (no_config :: (nat, unit) config)))
    = Inl (UB ''unlock of a read-write lock not held'')"
  by (rule LoadFromYaml_after_Lookup) (simp_all add: no_config_def)

text \<open>
  \<open>addListener\<close> without a key. The listener gets a key that is not in use, the others keep theirs,
  and the keys stay distinct and bounded by \<open>s_func_id\<close>.
\<close>

theorem addListener_fresh_key:
  assumes ok: "keys_ok cv" and l: "m_rwmutex cv = rw_free" and n: "s_func_id cv \<noteq> -1"
  shows "\<exists>i cv'. addListener t cb cv = Inr (i, cv') \<and> i \<notin> fst ` set (m_cbs cv)
    \<and> map_of (m_cbs cv') = (map_of (m_cbs cv))(i \<mapsto> cb) \<and> keys_ok cv'"
proof -
  have w: "write_scope t (m_rwmutex cv) = Inr (rw_free\<lparr>writer := Some t\<rparr>)"
    using l by (simp add: lock_simps rw_free_def)
  show ?thesis
  proof (cases "find_key (s_func_id cv) (m_cbs cv)")
    case (Some i)
    from find_key_Some [OF this] map_of_snoc [of i "m_cbs cv" cb] ok w Some show ?thesis
      by (simp add: addListener_def keys_ok_def)
  next
    case None
    let ?i = "s_func_id cv + 1"
    have lt: "s_func_id cv < ?i" using n by (rule u64_less_succ)
    then have "?i \<notin> fst ` set (m_cbs cv)" using ok by (auto simp: keys_ok_def)
    with map_of_snoc [of ?i "m_cbs cv" cb] ok w None n lt show ?thesis
      by (simp add: addListener_def keys_ok_def Let_def) (meson le_less_trans less_imp_le order_trans)
  qed
qed

theorem addListener_fresh_key_witness:
  "\<exists>cv'. addListener 7 ''f'' (ConfigVar ''int'' ''a'' (1 :: nat) []) = Inr (0, cv') \<and> map_of (m_cbs cv') = [0 \<mapsto> ''f''] \<and> keys_ok cv'"
proof -
  obtain i cv' where a: "addListener 7 ''f'' (ConfigVar ''int'' ''a'' (1 :: nat) []) = Inr (i, cv')"
    "map_of (m_cbs cv') = [i \<mapsto> ''f'']" "keys_ok cv'"
    using addListener_fresh_key [OF keys_ok_new [of "''int''" "''a''" "1 :: nat" "[]"], of 7 "''f''"]
    by (auto simp: ConfigVar_def)
  moreover have "i = 0"
    using a(1) by (simp add: addListener_def ConfigVar_def write_scope_free rw_free_def find_key_def)
  ultimately show ?thesis by blast
qed

text \<open>
  \<open>addListener\<close> with a key. A key in the permitted range is accepted, and installed if it is not in
  use (a listener that is already there stays); any other key is an exception and no listener
  changes.
\<close>

theorem addListener_key_outcome:
  assumes ok: "keys_ok cv" and l: "m_rwmutex cv = rw_free"
  shows "if funcIdGrowthValid (s_func_id cv) key
    then \<exists>cv'. addListener_key t key cb cv = (Inr (), cv') \<and> keys_ok cv'
      \<and> map_of (m_cbs cv') = (if key \<in> fst ` set (m_cbs cv) then map_of (m_cbs cv) else (map_of (m_cbs cv))(key \<mapsto> cb))
    else \<exists>cv'. addListener_key t key cb cv = (Inl (Exn ''ConfigVar::addListener invalid key''), cv') \<and> m_cbs cv' = m_cbs cv"
proof -
  have w: "write_scope t (m_rwmutex cv) = Inr (rw_free\<lparr>writer := Some t\<rparr>)"
    using l by (simp add: lock_simps rw_free_def)
  show ?thesis
  proof (cases "funcIdGrowthValid (s_func_id cv) key")
    case False
    then show ?thesis using w by (simp add: addListener_key_def Let_def)
  next
    case True
    let ?cv = "cv\<lparr>m_rwmutex := rw_free\<lparr>writer := Some t\<rparr>, s_func_id := max key (s_func_id cv)\<rparr>"
    have mx: "(if s_func_id cv < key then c\<lparr>s_func_id := key\<rparr> else c) = c\<lparr>s_func_id := max key (s_func_id cv)\<rparr>"
      if "s_func_id c = s_func_id cv" for c :: "('a, 'b) config_var"
      using that by (cases c) (auto simp: max_def dest: leD)
    have run: "addListener_key t key cb cv = (Inr (), if key \<in> fst ` set (m_cbs cv) then ?cv
        else ?cv\<lparr>m_cbs := m_cbs cv @ [(key, cb)]\<rparr>)"
      using w True by (simp add: addListener_key_def Let_def mx)
    have "keys_ok ?cv" using ok by (auto simp: keys_ok_def le_max_iff_disj)
    moreover have "keys_ok (?cv\<lparr>m_cbs := m_cbs cv @ [(key, cb)]\<rparr>)" if "key \<notin> fst ` set (m_cbs cv)"
      using ok that by (auto simp: keys_ok_def le_max_iff_disj)
    ultimately show ?thesis using True run map_of_snoc [of key "m_cbs cv" cb] by auto
  qed
qed

theorem addListener_key_outcome_witness:
  "\<exists>cv'. addListener_key 7 3 ''f'' ((ConfigVar ''int'' ''a'' (1 :: nat) [])\<lparr>s_func_id := 2\<rparr>) = (Inr (), cv') \<and> map_of (m_cbs cv') = [3 \<mapsto> ''f'']"
  using addListener_key_outcome [of "(ConfigVar ''int'' ''a'' (1 :: nat) [])\<lparr>s_func_id := 2\<rparr>" 3 7 "''f''"]
  by (auto simp: ConfigVar_def keys_ok_def funcIdGrowthValid_def)

text \<open>
  No key is accepted by a variable that never had a listener: the permitted range grows from
  \<open>s_func_id\<close>, which starts at 0.
\<close>

theorem new_variable_rejects_every_key:
  "\<exists>cv'. addListener_key t key cb (ConfigVar ty name v d) = (Inl (Exn ''ConfigVar::addListener invalid key''), cv')"
  by (simp add: addListener_key_def ConfigVar_def funcIdGrowthValid_def lock_simps rw_free_def Let_def)

end
