(* ===== verification/LoggerManager.thy ===== *)
theory LoggerManager
  imports LogDefine Config
begin

text \<open>
  \<open>ddg/log.h\<close> and \<open>log.cc\<close>: \<open>LoggerManager\<close>, its registration at the configuration, and the
  listener that reconfigures the loggers when the variable \<open>logs\<close> changes. A \<open>std::set<LogDefine>\<close>
  is the list of its elements in their order. The singleton is the state itself.
\<close>

section \<open>The manager\<close>

record log_manager = log_world +
  mgr_rwmutex :: rwlock
  mgr_root :: "lid option"
  mgr_loggers :: "string \<Rightarrow> lid option"

text \<open>What the logging statements and the new appenders get from outside.\<close>

record log_env =
  le_strftime :: "string \<Rightarrow> u64 \<Rightarrow> string"
  le_can_open :: "string \<Rightarrow> bool"
  le_file :: string
  le_fiber :: u64
  le_time :: u64

definition LOG_AT :: "log_env \<Rightarrow> nat \<Rightarrow> tid \<Rightarrow> lid \<Rightarrow> level \<Rightarrow> int \<Rightarrow> string \<Rightarrow> log_manager \<Rightarrow> log_manager result" where
  "LOG_AT E n t l level line txt =
     DDG_LOG_LEVEL (le_strftime E) n t l level (le_file E) line (le_fiber E) (le_time E) txt"

definition Manager_getRoot :: "tid \<Rightarrow> log_manager \<Rightarrow> (lid option \<times> log_manager) result" where
  "Manager_getRoot t w = and_then (read_scope t (mgr_rwmutex w)) (\<lambda>m. Inr (mgr_root w, w\<lparr>mgr_rwmutex := m\<rparr>))"

definition getLogger :: "tid \<Rightarrow> string \<Rightarrow> log_manager \<Rightarrow> (lid \<times> log_manager) result" where
  "getLogger t name w =
     and_then (write_scope t (mgr_rwmutex w)) (\<lambda>m.
     let w1 = w\<lparr>mgr_rwmutex := m\<rparr>
     in case mgr_loggers w1 name of
          Some l \<Rightarrow> Inr (l, w1)
        | None \<Rightarrow>
            and_then (Logger_new name w1) (\<lambda>(l, w2).
            and_then (Logger_setRoot t l (mgr_root w2) w2) (\<lambda>w3.
            Inr (l, w3\<lparr>mgr_loggers := (mgr_loggers w3)(name \<mapsto> l)\<rparr>))))"

definition delLogger :: "tid \<Rightarrow> string \<Rightarrow> log_manager \<Rightarrow> log_manager result" where
  "delLogger t name w =
     and_then (write_scope t (mgr_rwmutex w)) (\<lambda>m.
     let w1 = w\<lparr>mgr_rwmutex := m\<rparr>
     in if mgr_loggers w1 name = None then Inr w1
        else Inr (w1\<lparr>mgr_loggers := (mgr_loggers w1)(name := None)\<rparr>))"

text \<open>\<open>toYamlString\<close>: the loggers in the order of the table, which \<open>order\<close> gives.\<close>

fun logger_nodes :: "yaml_api \<Rightarrow> tid \<Rightarrow> lid list \<Rightarrow> log_manager \<Rightarrow> (yaml list \<times> log_manager) result" where
  "logger_nodes Y t [] w = Inr ([], w)"
| "logger_nodes Y t (l # ls) w =
     and_then (Logger_toYamlString Y t l w) (\<lambda>(s, w1).
     and_then (y_load Y s) (\<lambda>n.
     and_then (logger_nodes Y t ls w1) (\<lambda>(ns, w2). Inr (n # ns, w2))))"

definition Manager_toYamlString ::
  "yaml_api \<Rightarrow> ((string \<Rightarrow> lid option) \<Rightarrow> lid list) \<Rightarrow> tid \<Rightarrow> log_manager \<Rightarrow> (string \<times> log_manager) result" where
  "Manager_toYamlString Y order t w =
     and_then (ReadScopedLockImpl (RWMutex_rdlock t) (mgr_rwmutex w)) (\<lambda>g.
     and_then (logger_nodes Y t (order (mgr_loggers w)) (w\<lparr>mgr_rwmutex := snd g\<rparr>)) (\<lambda>(ns, w1).
     and_then (ReadScopedLockImpl_dtor (RWMutex_unlock t) (fst g, mgr_rwmutex w1)) (\<lambda>m.
     Inr (y_emit Y (if ns = [] then YNull else YSeq ns), w1\<lparr>mgr_rwmutex := m\<rparr>))))"

section \<open>The listener\<close>

text \<open>\<open>find\<close> in a set: the element that is neither less nor greater.\<close>

definition find_define :: "log_define \<Rightarrow> log_define list \<Rightarrow> log_define option" where
  "find_define d ds = List.find (\<lambda>e. \<not> log_define_less d e \<and> \<not> log_define_less e d) ds"

text \<open>
  One appender of a configuration. For an unknown type the pointer stays null (after a message) and
  is used.
\<close>

definition add_defined :: "log_env \<Rightarrow> tid \<Rightarrow> lid \<Rightarrow> appender_define \<Rightarrow> log_manager \<Rightarrow> log_manager result" where
  "add_defined E t l ad w =
     and_then (case ad_type ad of
         STDOUT_LOG_APPENDER \<Rightarrow> Inr (StdoutLogAppender_new w)
       | FILE_LOG_APPENDER \<Rightarrow> Inr (FileLogAppender_new (le_can_open E) (ad_file ad) w)
       | UNKNOW_APPENDER \<Rightarrow> Inl (UB ''null appender'')) (\<lambda>(a, w1).
     and_then (Appender_setLevel t a (ad_level ad) w1) (\<lambda>w2.
     and_then (if ad_formatter ad \<noteq> []
               then and_then (Formatter_new (ad_formatter ad) w2) (\<lambda>(f, w3). Appender_setFormatter t a (Some f) w3)
               else Inr w2) (\<lambda>w4.
     addAppender t l a w4)))"

fun add_all_defined :: "log_env \<Rightarrow> tid \<Rightarrow> lid \<Rightarrow> appender_define list \<Rightarrow> log_manager \<Rightarrow> log_manager result" where
  "add_all_defined E t l [] w = Inr w"
| "add_all_defined E t l (ad # ads) w = and_then (add_defined E t l ad w) (add_all_defined E t l ads)"

definition apply_define :: "log_env \<Rightarrow> tid \<Rightarrow> log_define \<Rightarrow> log_manager \<Rightarrow> log_manager result" where
  "apply_define E t d w =
     and_then (getLogger t (ld_name d) w) (\<lambda>(l, w1).
     and_then (Logger_setLevel t l (ld_level d) w1) (\<lambda>w2.
     and_then (if ld_formatter d \<noteq> [] then Logger_setPattern t l (ld_formatter d) w2 else Inr w2) (\<lambda>w3.
     and_then (clearAppender t l w3) (add_all_defined E t l (ld_appenders d)))))"

fun apply_defines :: "log_env \<Rightarrow> tid \<Rightarrow> log_define list \<Rightarrow> log_define list \<Rightarrow> log_manager \<Rightarrow> log_manager result" where
  "apply_defines E t old [] w = Inr w"
| "apply_defines E t old (d # ds) w =
     and_then (case find_define d old of
         None \<Rightarrow> apply_define E t d w
       | Some e \<Rightarrow> if \<not> log_define_eq d e then apply_define E t d w else Inr w)
       (apply_defines E t old ds)"

definition remove_define :: "tid \<Rightarrow> log_define \<Rightarrow> log_manager \<Rightarrow> log_manager result" where
  "remove_define t d w =
     and_then (getLogger t (ld_name d) w) (\<lambda>(l, w1).
     and_then (Logger_setLevel t l 100 w1) (\<lambda>w2.
     and_then (clearAppender t l w2) (delLogger t (ld_name d))))"

fun remove_defines :: "tid \<Rightarrow> log_define list \<Rightarrow> log_define list \<Rightarrow> log_manager \<Rightarrow> log_manager result" where
  "remove_defines t new [] w = Inr w"
| "remove_defines t new (d # ds) w =
     and_then (if find_define d new = None then remove_define t d w else Inr w) (remove_defines t new ds)"

definition on_logs_changed ::
  "log_env \<Rightarrow> nat \<Rightarrow> tid \<Rightarrow> log_define list \<Rightarrow> log_define list \<Rightarrow> log_manager \<Rightarrow> log_manager result" where
  "on_logs_changed E n t old new w =
     and_then (Manager_getRoot t w) (\<lambda>(r, w0).
     and_then (non_null ''null root'' r) (\<lambda>r.
     and_then (LOG_AT E n t r INFO 669 ''on_logger_conf_changed'' w0) (\<lambda>w1.
     and_then (apply_defines E t old new w1) (remove_defines t new old))))"

section \<open>Construction\<close>

text \<open>
  \<open>init\<close>: the variable \<open>logs\<close> is looked up, with the empty set as its default, and \<open>func\<close>, the
  listener above, is added to it.
\<close>

definition Manager_init ::
  "log_env \<Rightarrow> nat \<Rightarrow> tid \<Rightarrow> 'v \<Rightarrow> 'cb \<Rightarrow> ('v, 'cb) config \<Rightarrow> log_manager \<Rightarrow> (('v, 'cb) config \<times> log_manager) result" where
  "Manager_init E n t no_defines func cfg w =
     (case Lookup t ''std::set<LogDefine>'' ''logs'' no_defines ''logs config'' cfg of
        (Inl e, cfg1) \<Rightarrow> Inl e
      | (Inr p, cfg1) \<Rightarrow>
          and_then (non_null ''no variable'' (cvars cfg1 p)) (\<lambda>cv.
          and_then (addListener t func cv) (\<lambda>(k, cv1).
          and_then (non_null ''null root'' (mgr_root w)) (\<lambda>r.
          and_then (LOG_AT E n t r DEBUG 725 ''LoggerManager init finish!'' w) (\<lambda>w1.
          Inr (cfg1\<lparr>cvars := (cvars cfg1)(p \<mapsto> cv1)\<rparr>, w1))))))"

definition no_loggers :: log_manager where
  "no_loggers = \<lparr>fmts = Map.empty, aps = Map.empty, lgs = Map.empty, next_obj = 0, outs = [],
     mgr_rwmutex = rw_free, mgr_root = None, mgr_loggers = Map.empty\<rparr>"

definition Manager_new ::
  "log_env \<Rightarrow> nat \<Rightarrow> tid \<Rightarrow> 'v \<Rightarrow> 'cb \<Rightarrow> ('v, 'cb) config \<Rightarrow> (('v, 'cb) config \<times> log_manager) result" where
  "Manager_new E n t no_defines func cfg =
     and_then (Logger_new ''root'' no_loggers) (\<lambda>(r, w0).
     let w1 = w0\<lparr>mgr_root := Some r\<rparr>; (a, w2) = StdoutLogAppender_new w1
     in and_then (Appender_setLevel t a DEBUG w2) (\<lambda>w3.
        and_then (Logger_setLevel t r DEBUG w3) (\<lambda>w4.
        and_then (addAppender t r a w4) (\<lambda>w5.
        and_then (Logger_getName t r w5) (\<lambda>(name, w6).
        Manager_init E n t no_defines func cfg (w6\<lparr>mgr_loggers := (mgr_loggers w6)(name \<mapsto> r)\<rparr>))))))"

section \<open>One thread that owns the locks\<close>

text \<open>
  A lock that a thread can use again and again: nobody has it, or the thread itself kept it from a
  write guard.
\<close>

definition usable :: "tid \<Rightarrow> rwlock \<Rightarrow> bool" where
  "usable t m \<longleftrightarrow> readers m = [] \<and> (writer m = None \<or> writer m = Some t)"

lemma usable_scopes:
  assumes "usable t m"
  shows "write_scope t m = Inr (m\<lparr>writer := Some t\<rparr>)" and "read_scope t m = Inr (m\<lparr>writer := None\<rparr>)"
  using assms by (auto simp: usable_def write_scope_free write_scope_own read_scope_free read_scope_own)

lemma usable_upd [simp]:
  "usable t m \<Longrightarrow> usable t (m\<lparr>writer := Some t\<rparr>)" "usable t m \<Longrightarrow> usable t (m\<lparr>writer := None\<rparr>)" "usable t rw_free"
  by (simp_all add: usable_def rw_free_def)

lemma guarded_usable:
  "lgs w l = Some x \<Longrightarrow> usable t (lg_rwmutex x) \<Longrightarrow>
    lg_write ch t l w = Inr (put_lg l (ch (x\<lparr>lg_rwmutex := (lg_rwmutex x)\<lparr>writer := Some t\<rparr>\<rparr>)) w)"
  "lgs w l = Some x \<Longrightarrow> usable t (lg_rwmutex x) \<Longrightarrow>
    lg_read fld t l w = Inr (fld x, put_lg l (x\<lparr>lg_rwmutex := (lg_rwmutex x)\<lparr>writer := None\<rparr>\<rparr>) w)"
  "aps w a = Some y \<Longrightarrow> usable t (ap_rwmutex y) \<Longrightarrow>
    ap_write ch' t a w = Inr (put_ap a (ch' (y\<lparr>ap_rwmutex := (ap_rwmutex y)\<lparr>writer := Some t\<rparr>\<rparr>)) w)"
  "aps w a = Some y \<Longrightarrow> usable t (ap_rwmutex y) \<Longrightarrow>
    ap_read fld' t a w = Inr (fld' y, put_ap a (y\<lparr>ap_rwmutex := (ap_rwmutex y)\<lparr>writer := None\<rparr>\<rparr>) w)"
  by (simp_all add: lg_write_def lg_read_def ap_write_def ap_read_def usable_scopes)

lemma mgr_put [simp]:
  "mgr_loggers (put_lg l x w) = mgr_loggers w" "mgr_root (put_lg l x w) = mgr_root w" "mgr_rwmutex (put_lg l x w) = mgr_rwmutex w"
  "mgr_loggers (put_ap a y w) = mgr_loggers w" "mgr_root (put_ap a y w) = mgr_root w" "mgr_rwmutex (put_ap a y w) = mgr_rwmutex w"
  "mgr_loggers (put_fmt f z w) = mgr_loggers w" "mgr_root (put_fmt f z w) = mgr_root w" "mgr_rwmutex (put_fmt f z w) = mgr_rwmutex w"
  by (simp_all add: put_lg_def put_ap_def put_fmt_def)

text \<open>
  The states the listener works in: the store is well formed, the thread can use every lock, the
  registered loggers exist under their names, the loggers' own formatters have the default pattern,
  and no appender is shared by two loggers.
\<close>

definition logger_managed :: "tid \<Rightarrow> log_manager \<Rightarrow> logger \<Rightarrow> bool" where
  "logger_managed t w x \<longleftrightarrow> usable t (lg_rwmutex x)
     \<and> (\<exists>f z. lg_formatter x = Some f \<and> fmts w f = Some z \<and> m_pattern z = default_pattern)"

definition unshared :: "log_manager \<Rightarrow> bool" where
  "unshared w \<longleftrightarrow> (\<forall>l l' x x'. l \<noteq> l' \<longrightarrow> lgs w l = Some x \<longrightarrow> lgs w l' = Some x' \<longrightarrow>
     set (lg_appenders x) \<inter> set (lg_appenders x') = {})"

definition managed :: "tid \<Rightarrow> log_manager \<Rightarrow> bool" where
  "managed t w \<longleftrightarrow> log_wf w \<and> unshared w \<and> usable t (mgr_rwmutex w)
     \<and> (\<forall>l x. lgs w l = Some x \<longrightarrow> logger_managed t w x)
     \<and> (\<forall>a y. aps w a = Some y \<longrightarrow> usable t (ap_rwmutex y) \<and> ap_mutex y = None)
     \<and> (\<forall>f z. fmts w f = Some z \<longrightarrow> writer (fm_rwmutex z) = None)
     \<and> (\<exists>r. mgr_root w = Some r \<and> lgs w r \<noteq> None)
     \<and> (\<forall>n l. mgr_loggers w n = Some l \<longrightarrow> (\<exists>x. lgs w l = Some x \<and> lg_name x = n))"

lemma managedD:
  assumes "managed t w"
  shows "log_wf w" "unshared w" "usable t (mgr_rwmutex w)"
    and "lgs w l = Some x \<Longrightarrow> usable t (lg_rwmutex x)"
    and "lgs w l = Some x \<Longrightarrow> \<exists>f z. lg_formatter x = Some f \<and> fmts w f = Some z \<and> m_pattern z = default_pattern"
    and "aps w a = Some y \<Longrightarrow> usable t (ap_rwmutex y)" "aps w a = Some y \<Longrightarrow> ap_mutex y = None"
    and "fmts w f = Some z \<Longrightarrow> writer (fm_rwmutex z) = None"
    and "mgr_loggers w n = Some l \<Longrightarrow> \<exists>x. lgs w l = Some x \<and> lg_name x = n"
  using assms by (simp_all add: managed_def logger_managed_def)

lemma managed_put_lg:
  assumes m: "managed t w" and x: "lgs w l = Some x"
    and x': "lg_ok w x'" "usable t (lg_rwmutex x')" "lg_name x' = lg_name x" "lg_formatter x' = lg_formatter x"
    and ap: "\<And>a. a \<in> set (lg_appenders x') \<Longrightarrow> a \<in> set (lg_appenders x) \<or> (\<forall>l' y. lgs w l' = Some y \<longrightarrow> a \<notin> set (lg_appenders y))"
  shows "managed t (put_lg l x' w)"
proof -
  have "unshared (put_lg l x' w)"
    unfolding unshared_def
  proof (intro allI impI)
    fix l1 l2 y1 y2
    assume ne: "l1 \<noteq> l2" and y: "lgs (put_lg l x' w) l1 = Some y1" "lgs (put_lg l x' w) l2 = Some y2"
    have sep: "set (lg_appenders y) \<inter> set (lg_appenders y') = {}" if "k \<noteq> k'" "lgs w k = Some y" "lgs w k' = Some y'" for k k' y y'
      using managedD(2) [OF m] that by (simp add: unshared_def)
    have new: "set (lg_appenders x') \<inter> set (lg_appenders y) = {}" if "k \<noteq> l" "lgs w k = Some y" for k y
      using ap sep [of k l y x] that x by blast
    show "set (lg_appenders y1) \<inter> set (lg_appenders y2) = {}"
      using ne y sep new by (auto split: if_splits) (metis disjoint_iff)+
  qed
  moreover have "log_wf (put_lg l x' w)" by (rule log_wf_put_lg) (use managedD(1) [OF m] x x' in auto)
  moreover have "lg_name x = n" if "mgr_loggers w n = Some l" for n
    using managedD(9) [OF m that] x by auto
  ultimately show ?thesis using m x x' by (auto simp: managed_def logger_managed_def)
qed

lemma managed_put_ap:
  assumes m: "managed t w" and y: "aps w a = Some y"
    and y': "usable t (ap_rwmutex y')" "ap_mutex y' = None" "ap_formatter y \<noteq> None \<longrightarrow> ap_formatter y' \<noteq> None"
      "\<forall>f. ap_formatter y' = Some f \<longrightarrow> fmts w f \<noteq> None"
  shows "managed t (put_ap a y' w)"
proof -
  have "log_wf (put_ap a y' w)" by (rule log_wf_put_ap [OF managedD(1) [OF m] y y'(3,4)])
  then show ?thesis using m y' by (auto simp: managed_def logger_managed_def unshared_def)
qed

lemma managed_new_ap:
  assumes m: "managed t w"
  shows "managed t (snd (new_appender c w))"
proof -
  have "log_wf (snd (new_appender c w))"
    using new_appender_wf [OF managedD(1) [OF m], of c "next_obj w"] by (simp add: new_appender_def)
  then show ?thesis using m by (auto simp: new_appender_def managed_def logger_managed_def unshared_def)
qed

lemma managed_new_fmt:
  assumes m: "managed t w" and f: "LogFormatter p = Inr z"
  shows "managed t (put_fmt (next_obj w) z (w\<lparr>next_obj := next_obj w + 1\<rparr>))"
proof -
  have "log_wf (put_fmt (next_obj w) z (w\<lparr>next_obj := next_obj w + 1\<rparr>))"
    by (rule Formatter_new_wf [OF managedD(1) [OF m], of p "next_obj w"]) (simp add: Formatter_new_def f)
  moreover have "fmts w (next_obj w) = None" using log_wf_none [OF managedD(1) [OF m], of "next_obj w"] by simp
  moreover have "logger_managed t (put_fmt (next_obj w) z (w\<lparr>next_obj := next_obj w + 1\<rparr>)) x" if x: "lgs w k = Some x" for k x
  proof -
    obtain g y where g: "lg_formatter x = Some g" "fmts w g = Some y" "m_pattern y = default_pattern"
      using managedD(5) [OF m x] by blast
    then show ?thesis using calculation(2) managedD(4) [OF m x] by (auto simp: logger_managed_def)
  qed
  ultimately show ?thesis
    using m LogFormatter_fresh [OF f] by (auto simp: managed_def unshared_def rw_free_def)
qed

section \<open>The configuration of the loggers, abstractly\<close>

type_synonym appender_conf = "appender_class \<times> level \<times> string option"
type_synonym conf = "level \<times> appender_conf option list"

definition ap_conf :: "'z log_world_scheme \<Rightarrow> aid \<Rightarrow> appender_conf option" where
  "ap_conf w a = map_option (\<lambda>y. (ap_class y, ap_level y, map_option m_pattern (Option.bind (ap_formatter y) (fmts w)))) (aps w a)"

definition logger_conf :: "'z log_world_scheme \<Rightarrow> logger \<Rightarrow> conf" where
  "logger_conf w x = (lg_level x, map (ap_conf w) (lg_appenders x))"

definition conf :: "log_manager \<Rightarrow> string \<Rightarrow> conf option" where
  "conf w n = Option.bind (mgr_loggers w n) (\<lambda>l. map_option (logger_conf w) (lgs w l))"

text \<open>What a step leaves alone: other loggers than \<open>l\<close>, and other appenders than those of \<open>A\<close>.\<close>

definition leaves :: "lid \<Rightarrow> aid set \<Rightarrow> log_manager \<Rightarrow> log_manager \<Rightarrow> bool" where
  "leaves l A w w' \<longleftrightarrow> (\<forall>k x. k \<noteq> l \<longrightarrow> lgs w k = Some x \<longrightarrow> lgs w' k = Some x)
     \<and> (\<forall>b. b \<notin> A \<longrightarrow> aps w b \<noteq> None \<longrightarrow> ap_conf w' b = ap_conf w b)
     \<and> mgr_loggers w' = mgr_loggers w \<and> mgr_root w' = mgr_root w"

lemma leaves_refl [simp]: "leaves l A w w"
  by (simp add: leaves_def)

lemma ap_conf_None: "ap_conf w b = None \<longleftrightarrow> aps w b = None"
  by (simp add: ap_conf_def)

lemma leaves_trans: "leaves l A w w1 \<Longrightarrow> leaves l A w1 w2 \<Longrightarrow> leaves l A w w2"
  unfolding leaves_def by (metis ap_conf_None)

lemma leaves_put_lg [simp]: "leaves l A w (put_lg l x w)"
  by (auto simp: leaves_def ap_conf_def)

lemma leaves_put_ap: "a \<in> A \<or> aps w a = None \<Longrightarrow> leaves l A w (put_ap a y w)"
  by (auto simp: leaves_def ap_conf_def)

lemma leaves_new_fmt:
  assumes "log_wf w" and "fmts w f = None"
  shows "leaves l A w (put_fmt f z w)"
proof -
  have ne: "g \<noteq> f" if "aps w b = Some y" "ap_formatter y = Some g" for b y g
    using ap_formatter_wf [OF assms(1) that] assms(2) by auto
  have "ap_conf (put_fmt f z w) b = ap_conf w b" for b
  proof (cases "aps w b")
    case (Some y)
    then show ?thesis using ne [of b y] by (cases "ap_formatter y") (auto simp: ap_conf_def)
  qed (simp add: ap_conf_def)
  then show ?thesis by (simp add: leaves_def)
qed

lemma leaves_next [simp]: "leaves l A w (w\<lparr>next_obj := n\<rparr>)" "leaves l A w (w\<lparr>outs := os\<rparr>)" "leaves l A w (w\<lparr>mgr_rwmutex := m\<rparr>)"
  by (simp_all add: leaves_def ap_conf_def)

lemma conf_leaves:
  assumes m: "managed t w" and l: "leaves l A w w'" and x: "lgs w l = Some x"
    and A: "\<And>k y. k \<noteq> l \<Longrightarrow> lgs w k = Some y \<Longrightarrow> set (lg_appenders y) \<inter> A = {}"
  shows "conf w' n = (if mgr_loggers w n = Some l then map_option (logger_conf w') (lgs w' l) else conf w n)"
proof -
  have same: "map_option (logger_conf w') (lgs w' k) = map_option (logger_conf w) (lgs w k)"
    if k: "mgr_loggers w n = Some k" "k \<noteq> l" for k
  proof -
    obtain y where y: "lgs w k = Some y" using managedD(9) [OF m k(1)] by blast
    have "\<forall>a \<in> set (lg_appenders y). aps w a \<noteq> None" using log_wf_lgD [OF managedD(1) [OF m] y] by (auto simp: lg_ok_def can_print_def)
    then have "map (ap_conf w') (lg_appenders y) = map (ap_conf w) (lg_appenders y)"
      using l A [OF k(2) y] by (intro map_cong) (auto simp: leaves_def)
    then show ?thesis using l k(2) y by (simp add: leaves_def logger_conf_def)
  qed
  show ?thesis using l same by (cases "mgr_loggers w n") (auto simp: conf_def leaves_def)
qed

section \<open>Applying a configuration\<close>

lemma leaves_fresh: "leaves l {a} w w' \<Longrightarrow> aps w a = None \<Longrightarrow> leaves l {} w w'"
  unfolding leaves_def by (metis empty_iff singletonD)

lemma managed_fmt_exists: "managed t w \<Longrightarrow> aps w a = Some y \<Longrightarrow> ap_formatter y = Some f \<Longrightarrow> fmts w f \<noteq> None"
  using ap_formatter_wf managedD(1) by blast

lemma addAppender_step:
  assumes m: "managed t w" and x: "lgs w l = Some x" and y: "aps w a = Some y"
    and new: "\<And>k z. lgs w k = Some z \<Longrightarrow> a \<notin> set (lg_appenders z)"
  shows "\<exists>w' x'. addAppender t l a w = Inr w' \<and> managed t w' \<and> lgs w' l = Some x' \<and> lg_level x' = lg_level x
    \<and> lg_appenders x' = lg_appenders x @ [a] \<and> leaves l {a} w w'
    \<and> ap_conf w' a = Some (ap_class y, ap_level y,
        Some (case ap_formatter y of None \<Rightarrow> default_pattern | Some f \<Rightarrow> m_pattern (the (fmts w f))))"
proof -
  obtain g z where g: "lg_formatter x = Some g" "fmts w g = Some z" "m_pattern z = default_pattern"
    using managedD(5) [OF m x] by blast
  let ?f = "case ap_formatter y of None \<Rightarrow> Some g | Some f \<Rightarrow> Some f"
  let ?m = "case ap_formatter y of None \<Rightarrow> (ap_rwmutex y)\<lparr>writer := Some t\<rparr> | Some f \<Rightarrow> (ap_rwmutex y)\<lparr>writer := None\<rparr>"
  let ?y = "y\<lparr>ap_rwmutex := ?m, ap_formatter := ?f\<rparr>"
  let ?x = "x\<lparr>lg_rwmutex := (lg_rwmutex x)\<lparr>writer := Some t\<rparr>, lg_appenders := lg_appenders x @ [a]\<rparr>"
  let ?w1 = "put_ap a ?y w"
  have uy: "usable t (ap_rwmutex y)" by (rule managedD(6) [OF m y])
  have ux: "usable t (lg_rwmutex x)" by (rule managedD(4) [OF m x])
  have m1: "managed t ?w1"
    by (rule managed_put_ap [OF m y]) (use uy managedD(7) [OF m y] g(2) managed_fmt_exists [OF m y] in \<open>auto split: option.splits\<close>)
  have "addAppender t l a w = Inr (put_lg l ?x ?w1)"
    using x y uy ux g(1)
    by (cases "ap_formatter y"; cases y)
      (simp_all add: addAppender_def Appender_getFormatter_def Appender_setFormatter_def guarded_usable del: at_Inr)
  moreover have "managed t (put_lg l ?x ?w1)"
  proof (rule managed_put_lg [OF m1])
    show "lgs ?w1 l = Some x" using x by simp
    have "can_print ?w1 a" using g(2) managed_fmt_exists [OF m y] by (auto simp: can_print_def split: option.splits)
    then show "lg_ok ?w1 ?x" using log_wf_lgD [OF managedD(1) [OF m1], of l x] x by (auto simp: lg_ok_def)
    show "b \<in> set (lg_appenders x) \<or> (\<forall>l' y. lgs ?w1 l' = Some y \<longrightarrow> b \<notin> set (lg_appenders y))" if "b \<in> set (lg_appenders ?x)" for b
      using that new by auto
  qed (use ux in simp_all)
  moreover have "leaves l {a} w (put_lg l ?x ?w1)"
    by (rule leaves_trans [OF leaves_put_ap leaves_put_lg]) simp
  moreover have "ap_conf (put_lg l ?x ?w1) a = Some (ap_class y, ap_level y,
        Some (case ap_formatter y of None \<Rightarrow> default_pattern | Some f \<Rightarrow> m_pattern (the (fmts w f))))"
    using g managed_fmt_exists [OF m y] by (auto simp: ap_conf_def split: option.splits)
  ultimately show ?thesis by (intro exI [of _ "put_lg l ?x ?w1"] exI [of _ ?x]) simp
qed

text \<open>The configuration an appender of a \<open>LogDefine\<close> describes, and those that can be made.\<close>

definition class_of :: "log_env \<Rightarrow> appender_define \<Rightarrow> appender_class" where
  "class_of E ad = (if ad_type ad = FILE_LOG_APPENDER then FileLogAppender (ad_file ad) (le_can_open E (ad_file ad)) else StdoutLogAppender)"

definition appender_define_conf :: "log_env \<Rightarrow> appender_define \<Rightarrow> appender_conf" where
  "appender_define_conf E ad =
     (class_of E ad, ad_level ad, Some (if ad_formatter ad = [] then default_pattern else ad_formatter ad))"

definition define_conf :: "log_env \<Rightarrow> log_define \<Rightarrow> conf" where
  "define_conf E d = (ld_level d, map (\<lambda>ad. Some (appender_define_conf E ad)) (ld_appenders d))"

definition valid_appender :: "appender_define \<Rightarrow> bool" where
  "valid_appender ad \<longleftrightarrow> ad_type ad \<noteq> UNKNOW_APPENDER \<and> (ad_formatter ad = [] \<or> checkValid (ad_formatter ad) = Inr True)"

definition valid_define :: "log_define \<Rightarrow> bool" where
  "valid_define d \<longleftrightarrow> (ld_formatter d = [] \<or> checkValid (ld_formatter d) = Inr True) \<and> (\<forall>ad \<in> set (ld_appenders d). valid_appender ad)"

lemma LogFormatter_valid:
  assumes "checkValid p = Inr True"
  shows "\<exists>z. LogFormatter p = Inr z \<and> m_pattern z = p"
  using assms by (auto simp: LogFormatter_def checkValid_def case_prod_beta)

lemma add_defined_step:
  assumes m: "managed t w" and x: "lgs w l = Some x" and ad: "valid_appender ad"
  shows "\<exists>w' x'. add_defined E t l ad w = Inr w' \<and> managed t w' \<and> lgs w' l = Some x' \<and> lg_level x' = lg_level x
    \<and> map (ap_conf w') (lg_appenders x') = map (ap_conf w) (lg_appenders x) @ [Some (appender_define_conf E ad)]
    \<and> leaves l {} w w'"
proof -
  let ?a = "next_obj w"
  let ?w1 = "snd (new_appender (class_of E ad) w)"
  let ?y1 = "\<lparr>ap_class = class_of E ad, ap_rwmutex = rw_free\<lparr>writer := Some t\<rparr>, ap_mutex = None, ap_level = ad_level ad, ap_formatter = None\<rparr>"
  let ?w2 = "put_ap ?a ?y1 ?w1"
  have none: "lgs w ?a = None" "aps w ?a = None" "fmts w (Suc ?a) = None" "fmts w ?a = None"
    using log_wf_none [OF managedD(1) [OF m]] by auto
  have made: "(case ad_type ad of STDOUT_LOG_APPENDER \<Rightarrow> Inr (StdoutLogAppender_new w)
       | FILE_LOG_APPENDER \<Rightarrow> Inr (FileLogAppender_new (le_can_open E) (ad_file ad) w)
       | UNKNOW_APPENDER \<Rightarrow> Inl (UB ''null appender'')) = Inr (?a, ?w1)"
    using ad by (cases "ad_type ad")
      (auto simp: valid_appender_def StdoutLogAppender_new_def FileLogAppender_new_def class_of_def new_appender_def)
  have m1: "managed t ?w1" by (rule managed_new_ap [OF m])
  have l1: "lgs ?w1 = lgs w" "aps ?w1 ?a = Some \<lparr>ap_class = class_of E ad, ap_rwmutex = rw_free, ap_mutex = None, ap_level = DEBUG, ap_formatter = None\<rparr>"
    by (simp_all add: new_appender_def)
  have set2: "Appender_setLevel t ?a (ad_level ad) ?w1 = Inr ?w2"
    using l1 by (simp add: Appender_setLevel_def guarded_usable)
  have m2: "managed t ?w2" by (rule managed_put_ap [OF m1 l1(2)]) simp_all
  have lv2: "leaves l {?a} w ?w2"
    by (rule leaves_trans [OF _ leaves_put_ap], unfold new_appender_def snd_conv)
      (rule leaves_trans [OF leaves_next(1) leaves_put_ap], simp_all)
  define F where "F = (if ad_formatter ad = [] then None else Some (next_obj ?w2))"
  have "\<exists>w4 y4. (if ad_formatter ad \<noteq> [] then and_then (Formatter_new (ad_formatter ad) ?w2) (\<lambda>(f, w3). Appender_setFormatter t ?a (Some f) w3)
       else Inr ?w2) = Inr w4 \<and> managed t w4 \<and> lgs w4 = lgs w \<and> aps w4 ?a = Some y4 \<and> ap_class y4 = class_of E ad \<and> ap_level y4 = ad_level ad
     \<and> ap_formatter y4 = F \<and> (\<forall>f. F = Some f \<longrightarrow> (\<exists>z. fmts w4 f = Some z \<and> m_pattern z = ad_formatter ad)) \<and> leaves l {?a} w w4"
  proof (cases "ad_formatter ad = []")
    case True
    then show ?thesis using m2 lv2 l1 by (intro exI [of _ ?w2] exI [of _ ?y1]) (simp add: F_def)
  next
    case False
    then obtain z where z: "LogFormatter (ad_formatter ad) = Inr z" "m_pattern z = ad_formatter ad"
      using ad LogFormatter_valid by (auto simp: valid_appender_def)
    let ?w3 = "put_fmt (next_obj ?w2) z (?w2\<lparr>next_obj := next_obj ?w2 + 1\<rparr>)"
    have m3: "managed t ?w3" by (rule managed_new_fmt [OF m2 z(1)])
    have y3: "aps ?w3 ?a = Some ?y1" by simp
    let ?y4 = "?y1\<lparr>ap_formatter := Some (next_obj ?w2)\<rparr>"
    have "Appender_setFormatter t ?a (Some (next_obj ?w2)) ?w3 = Inr (put_ap ?a ?y4 ?w3)"
      unfolding Appender_setFormatter_def by (subst guarded_usable(3) [OF y3]) simp_all
    moreover have "managed t (put_ap ?a ?y4 ?w3)" by (rule managed_put_ap [OF m3 y3]) simp_all
    moreover have "leaves l {?a} w (put_ap ?a ?y4 ?w3)"
    proof (rule leaves_trans [OF lv2], rule leaves_trans [OF leaves_next(1)], rule leaves_trans [OF leaves_new_fmt leaves_put_ap])
      show "log_wf (?w2\<lparr>next_obj := next_obj ?w2 + 1\<rparr>)"
        using managedD(1) [OF m2] by (auto simp: log_wf_def lg_ok_def can_print_def)
      show "fmts (?w2\<lparr>next_obj := next_obj ?w2 + 1\<rparr>) (next_obj ?w2) = None"
        using none by (simp add: new_appender_def)
    qed simp
    ultimately show ?thesis using False z l1
      by (intro exI [of _ "put_ap ?a ?y4 ?w3"] exI [of _ ?y4]) (simp add: F_def Formatter_new_def)
  qed
  then obtain w4 y4 where w4: "(if ad_formatter ad \<noteq> [] then and_then (Formatter_new (ad_formatter ad) ?w2) (\<lambda>(f, w3). Appender_setFormatter t ?a (Some f) w3)
       else Inr ?w2) = Inr w4"
    and m4: "managed t w4" and l4: "lgs w4 = lgs w" and y4: "aps w4 ?a = Some y4" "ap_class y4 = class_of E ad" "ap_level y4 = ad_level ad"
      "ap_formatter y4 = F" "\<forall>f. F = Some f \<longrightarrow> (\<exists>z. fmts w4 f = Some z \<and> m_pattern z = ad_formatter ad)" and lv4: "leaves l {?a} w w4"
    by blast
  have fresh: "?a \<notin> set (lg_appenders z)" if "lgs w k = Some z" for k z
    using log_wf_lgD [OF managedD(1) [OF m] that] none(2) by (auto simp: lg_ok_def can_print_def)
  obtain w' x' where w': "addAppender t l ?a w4 = Inr w'" "managed t w'" "lgs w' l = Some x'" "lg_level x' = lg_level x"
      "lg_appenders x' = lg_appenders x @ [?a]" "leaves l {?a} w4 w'"
      "ap_conf w' ?a = Some (ap_class y4, ap_level y4, Some (case ap_formatter y4 of None \<Rightarrow> default_pattern | Some f \<Rightarrow> m_pattern (the (fmts w4 f))))"
    using addAppender_step [OF m4 _ y4(1), of l x] l4 x fresh by auto
  have lv: "leaves l {} w w'" by (rule leaves_fresh [OF leaves_trans [OF lv4 w'(6)] none(2)])
  have "map (ap_conf w') (lg_appenders x) = map (ap_conf w) (lg_appenders x)"
    using lv log_wf_lgD [OF managedD(1) [OF m] x] by (intro map_cong) (auto simp: leaves_def lg_ok_def can_print_def)
  moreover have "ap_conf w' ?a = Some (appender_define_conf E ad)"
    using w'(7) y4 by (auto simp: F_def appender_define_conf_def)
  moreover have "add_defined E t l ad w = Inr w'"
    unfolding add_defined_def made using set2 w4 w'(1) by (simp del: at_Inr)
  ultimately show ?thesis using w' lv by (intro exI [of _ w'] exI [of _ x']) simp
qed

lemma add_all_defined_step:
  assumes "managed t w" and "lgs w l = Some x" and "\<forall>ad \<in> set ads. valid_appender ad"
  shows "\<exists>w' x'. add_all_defined E t l ads w = Inr w' \<and> managed t w' \<and> lgs w' l = Some x' \<and> lg_level x' = lg_level x
    \<and> map (ap_conf w') (lg_appenders x') = map (ap_conf w) (lg_appenders x) @ map (\<lambda>ad. Some (appender_define_conf E ad)) ads
    \<and> leaves l {} w w'"
  using assms
proof (induction ads arbitrary: w x)
  case (Cons ad ads)
  obtain w1 x1 where 1: "add_defined E t l ad w = Inr w1" "managed t w1" "lgs w1 l = Some x1" "lg_level x1 = lg_level x"
      "map (ap_conf w1) (lg_appenders x1) = map (ap_conf w) (lg_appenders x) @ [Some (appender_define_conf E ad)]" "leaves l {} w w1"
    using add_defined_step [OF Cons.prems(1,2), of ad E] Cons.prems(3) by auto
  obtain w2 x2 where 2: "add_all_defined E t l ads w1 = Inr w2" "managed t w2" "lgs w2 l = Some x2" "lg_level x2 = lg_level x1"
      "map (ap_conf w2) (lg_appenders x2) = map (ap_conf w1) (lg_appenders x1) @ map (\<lambda>ad. Some (appender_define_conf E ad)) ads" "leaves l {} w1 w2"
    using Cons.IH [OF 1(2,3)] Cons.prems(3) by auto
  show ?case
    using 1 2 leaves_trans [OF 1(6) 2(6)] by (intro exI [of _ w2] exI [of _ x2]) simp
qed auto

lemma leaves_mono: "leaves l A w w' \<Longrightarrow> A \<subseteq> B \<Longrightarrow> leaves l B w w'"
  by (auto simp: leaves_def)

lemma set_formatters_step:
  assumes "managed t w" and "\<forall>a \<in> set as. aps w a \<noteq> None" and "fmts w g \<noteq> None" and "set as \<subseteq> A"
  shows "\<exists>w'. set_formatters t (Some g) as w = Inr w' \<and> managed t w' \<and> lgs w' = lgs w \<and> leaves l A w w'"
  using assms
proof (induction "as" arbitrary: w)
  case (Cons a "as")
  then obtain y where y: "aps w a = Some y" by auto
  have u: "usable t (ap_rwmutex y)" by (rule managedD(6) [OF Cons.prems(1) y])
  let ?y = "y\<lparr>ap_rwmutex := (ap_rwmutex y)\<lparr>writer := Some t\<rparr>, ap_formatter := Some g\<rparr>"
  have s: "Appender_setFormatter t a (Some g) w = Inr (put_ap a ?y w)"
    by (simp add: Appender_setFormatter_def guarded_usable(3) [OF y u])
  have m: "managed t (put_ap a ?y w)"
    by (rule managed_put_ap [OF Cons.prems(1) y]) (use u managedD(7) [OF Cons.prems(1) y] Cons.prems(3) in auto)
  obtain w' where w': "set_formatters t (Some g) as (put_ap a ?y w) = Inr w'" "managed t w'" "lgs w' = lgs w" "leaves l A (put_ap a ?y w) w'"
  proof -
    have "\<forall>b \<in> set as. aps (put_ap a ?y w) b \<noteq> None" "fmts (put_ap a ?y w) g \<noteq> None" "set as \<subseteq> A"
      using Cons.prems by auto
    from Cons.IH [OF m this] show ?thesis using that by auto
  qed
  have "leaves l A w (put_ap a ?y w)" using Cons.prems(4) by (intro leaves_put_ap) simp
  then show ?case using s w' leaves_trans by fastforce
qed simp

lemma managed_add_lg:
  assumes m: "managed t w" and l: "next_obj w \<le> l" "lgs w l = None" "aps w l = None" "fmts w l = None"
    and x: "lg_ok w x" "usable t (lg_rwmutex x)" "lg_appenders x = []"
      "\<exists>f z. lg_formatter x = Some f \<and> fmts w f = Some z \<and> m_pattern z = default_pattern"
  shows "managed t (put_lg l x (w\<lparr>next_obj := l + 1\<rparr>))"
proof -
  have "log_wf (put_lg l x (w\<lparr>next_obj := l + 1\<rparr>))"
    by (rule log_wf_fresh [OF managedD(1) [OF m], where k = "l + 1 - next_obj w"])
      (use l x(1) log_wf_none [OF managedD(1) [OF m]] in \<open>auto simp: lg_ok_def can_print_def split: if_splits\<close>)
  moreover have "unshared (put_lg l x (w\<lparr>next_obj := l + 1\<rparr>))"
    using managedD(2) [OF m] x(3) by (auto simp: unshared_def)
  moreover have "logger_managed t (put_lg l x (w\<lparr>next_obj := l + 1\<rparr>)) y" if "lgs w k = Some y" for k y
    using managedD(4,5) [OF m that] by (simp add: logger_managed_def)
  moreover have "n = lg_name y" if "mgr_loggers w n = Some k" "lgs w k = Some y" for n k y
    using managedD(9) [OF m that(1)] that(2) by auto
  moreover have "mgr_loggers w n \<noteq> Some l" for n
    using managedD(9) [OF m, of n l] l(2) by auto
  ultimately show ?thesis using m x l(2) by (auto simp: managed_def logger_managed_def)
qed

lemma managed_mgr:
  "managed t w \<Longrightarrow> usable t m \<Longrightarrow> managed t (w\<lparr>mgr_rwmutex := m\<rparr>)"
  "managed t w \<Longrightarrow> lgs w l = Some x \<Longrightarrow> lg_name x = n \<Longrightarrow> managed t (w\<lparr>mgr_loggers := (mgr_loggers w)(n \<mapsto> l)\<rparr>)"
  "managed t w \<Longrightarrow> managed t (w\<lparr>mgr_loggers := (mgr_loggers w)(n := None)\<rparr>)"
  "managed t w \<Longrightarrow> managed t (w\<lparr>outs := os\<rparr>)"
  by (auto simp: managed_def logger_managed_def unshared_def log_wf_def lg_ok_def can_print_def)

lemma conf_frame:
  assumes "lgs w' = lgs w" "aps w' = aps w" "fmts w' = fmts w" "mgr_loggers w' n = mgr_loggers w n"
  shows "conf w' n = conf w n"
proof -
  have "ap_conf w' = ap_conf w" by (rule ext) (simp add: ap_conf_def assms)
  then have "logger_conf w' = logger_conf w" by (intro ext) (simp add: logger_conf_def)
  then show ?thesis by (simp add: conf_def assms)
qed

lemma getLogger_new_step:
  assumes m: "managed t w" and name: "mgr_loggers w name = None"
  shows "\<exists>w' x. getLogger t name w = Inr (Suc (next_obj w), w') \<and> managed t w' \<and> lgs w' (Suc (next_obj w)) = Some x
    \<and> lg_name x = name \<and> lg_level x = DEBUG \<and> lg_appenders x = [] \<and> lg_root x = mgr_root w
    \<and> mgr_loggers w' = (mgr_loggers w)(name \<mapsto> Suc (next_obj w)) \<and> mgr_root w' = mgr_root w
    \<and> mgr_rwmutex w' = (mgr_rwmutex w)\<lparr>writer := Some t\<rparr>
    \<and> (\<forall>k. k \<noteq> Suc (next_obj w) \<longrightarrow> lgs w' k = lgs w k) \<and> (\<forall>b. aps w b \<noteq> None \<longrightarrow> ap_conf w' b = ap_conf w b)"
proof -
  let ?f = "next_obj w" and ?l = "Suc (next_obj w)"
  let ?w1 = "w\<lparr>mgr_rwmutex := (mgr_rwmutex w)\<lparr>writer := Some t\<rparr>\<rparr>"
  let ?x = "\<lparr>lg_rwmutex = rw_free, lg_name = name, lg_level = DEBUG, lg_appenders = [], lg_formatter = Some ?f, lg_root = None\<rparr>"
  let ?x' = "?x\<lparr>lg_rwmutex := rw_free\<lparr>writer := Some t\<rparr>, lg_root := mgr_root w\<rparr>"
  let ?w2 = "put_fmt ?f default_formatter (?w1\<lparr>next_obj := ?f + 1\<rparr>)"
  let ?w3 = "put_lg ?l ?x (?w2\<lparr>next_obj := ?l + 1\<rparr>)"
  have u: "usable t (mgr_rwmutex w)" by (rule managedD(3) [OF m])
  have m1: "managed t ?w1" by (rule managed_mgr(1) [OF m]) (simp add: u)
  have m2: "managed t ?w2" using managed_new_fmt [OF m1 LogFormatter_default] by simp
  have none: "lgs w ?l = None" "aps w ?l = None" "fmts w ?l = None" "fmts w ?f = None"
    using log_wf_none [OF managedD(1) [OF m]] by auto
  have m3: "managed t ?w3"
    by (rule managed_add_lg [OF m2]) (use none in \<open>auto simp: lg_ok_def default_formatter_def\<close>)
  have m4: "managed t (put_lg ?l ?x' ?w3)"
  proof (rule managed_put_lg [OF m3])
    show "lgs ?w3 ?l = Some ?x" by simp
    obtain r where "mgr_root w = Some r" "lgs w r \<noteq> None" using m by (auto simp: managed_def)
    then show "lg_ok ?w3 ?x'" by (auto simp: lg_ok_def)
  qed simp_all
  have wf: "log_wf ?w1" by (rule managedD(1) [OF m1])
  have lv: "\<forall>b. aps w b \<noteq> None \<longrightarrow> ap_conf ?w3 b = ap_conf w b"
  proof -
    have "log_wf (?w1\<lparr>next_obj := ?f + 1\<rparr>)" using wf by (auto simp: log_wf_def lg_ok_def can_print_def)
    then have "leaves ?l {} (?w1\<lparr>next_obj := ?f + 1\<rparr>) ?w2" by (rule leaves_new_fmt) (simp add: none)
    then show ?thesis by (simp add: leaves_def ap_conf_def)
  qed
  let ?w' = "(put_lg ?l ?x' ?w3)\<lparr>mgr_loggers := (mgr_loggers w)(name \<mapsto> ?l)\<rparr>"
  have w3: "?w3 = put_lg ?l ?x (put_fmt ?f default_formatter (?w1\<lparr>next_obj := ?f + 2\<rparr>))"
    by (simp add: put_lg_def put_fmt_def)
  have "getLogger t name w = Inr (?l, ?w')"
  proof -
    have "Logger_new name ?w1 = Inr (?l, ?w3)" unfolding w3 by (simp add: Logger_new_def LogFormatter_default Let_def)
    moreover have "Logger_setRoot t ?l (mgr_root w) ?w3 = Inr (put_lg ?l ?x' ?w3)"
      unfolding Logger_setRoot_def by (subst guarded_usable(1) [of _ _ ?x]) (simp_all add: put_lg_def)
    ultimately show ?thesis using name u by (simp add: getLogger_def usable_scopes Let_def del: at_Inr put_put)
  qed
  moreover have "managed t ?w'" using managed_mgr(2) [OF m4, of ?l ?x' name] by simp
  moreover have "ap_conf ?w' b = ap_conf ?w3 b" for b by (simp add: ap_conf_def)
  ultimately show ?thesis using lv none(1) by (intro exI [of _ ?w'] exI [of _ ?x']) simp
qed

lemma getLogger_old_step:
  assumes m: "managed t w" and name: "mgr_loggers w name = Some l"
  shows "getLogger t name w = Inr (l, w\<lparr>mgr_rwmutex := (mgr_rwmutex w)\<lparr>writer := Some t\<rparr>\<rparr>)"
    and "managed t (w\<lparr>mgr_rwmutex := (mgr_rwmutex w)\<lparr>writer := Some t\<rparr>\<rparr>)"
  using name managedD(3) [OF m] by (simp_all add: getLogger_def usable_scopes managed_mgr(1) [OF m])

lemma getLogger_step:
  assumes m: "managed t w"
  shows "\<exists>l w' x. getLogger t name w = Inr (l, w') \<and> managed t w' \<and> lgs w' l = Some x \<and> lg_name x = name
    \<and> mgr_loggers w' = (mgr_loggers w)(name \<mapsto> l) \<and> mgr_root w' = mgr_root w \<and> (\<forall>n. n \<noteq> name \<longrightarrow> conf w' n = conf w n)"
proof (cases "mgr_loggers w name")
  case None
  let ?l = "Suc (next_obj w)"
  obtain w' x where w': "getLogger t name w = Inr (?l, w')" "managed t w'" "lgs w' ?l = Some x" "lg_name x = name"
      "mgr_loggers w' = (mgr_loggers w)(name \<mapsto> ?l)" "mgr_root w' = mgr_root w" "\<forall>k. k \<noteq> ?l \<longrightarrow> lgs w' k = lgs w k"
      "\<forall>b. aps w b \<noteq> None \<longrightarrow> ap_conf w' b = ap_conf w b"
    using getLogger_new_step [OF m None] by blast
  have "conf w' n = conf w n" if n: "n \<noteq> name" for n
  proof (cases "mgr_loggers w n")
    case (Some k)
    then obtain y where y: "lgs w k = Some y" using managedD(9) [OF m] by blast
    then have "k \<noteq> ?l" using log_wf_none [OF managedD(1) [OF m], of k] by auto
    moreover have "map (ap_conf w') (lg_appenders y) = map (ap_conf w) (lg_appenders y)"
      using log_wf_lgD [OF managedD(1) [OF m] y] w'(8) by (intro map_cong) (auto simp: lg_ok_def can_print_def)
    ultimately show ?thesis using n Some y w'(5,7) by (simp add: conf_def logger_conf_def)
  qed (use n w'(5) in \<open>simp add: conf_def\<close>)
  then show ?thesis using w' by blast
next
  case (Some l)
  obtain x where "lgs w l = Some x" "lg_name x = name" using managedD(9) [OF m Some] by blast
  moreover have "conf (w\<lparr>mgr_rwmutex := k\<rparr>) n = conf w n" for k n
    by (rule conf_frame) simp_all
  ultimately show ?thesis
    using getLogger_old_step [OF m Some] Some by (intro exI [of _ l] exI [of _ "w\<lparr>mgr_rwmutex := (mgr_rwmutex w)\<lparr>writer := Some t\<rparr>\<rparr>"] exI [of _ x]) auto
qed


lemma apply_define_step:
  assumes m: "managed t w" and d: "valid_define d"
  shows "\<exists>w'. apply_define E t d w = Inr w' \<and> managed t w' \<and> mgr_root w' = mgr_root w
    \<and> (\<forall>n. conf w' n = (if n = ld_name d then Some (define_conf E d) else conf w n))"
proof -
  obtain l w1 x where 1: "getLogger t (ld_name d) w = Inr (l, w1)" "managed t w1" "lgs w1 l = Some x" "lg_name x = ld_name d"
      "mgr_loggers w1 = (mgr_loggers w)(ld_name d \<mapsto> l)" "mgr_root w1 = mgr_root w" "\<forall>n. n \<noteq> ld_name d \<longrightarrow> conf w1 n = conf w n"
    using getLogger_step [OF m] by blast
  let ?A = "set (lg_appenders x)"
  let ?x2 = "x\<lparr>lg_rwmutex := (lg_rwmutex x)\<lparr>writer := Some t\<rparr>, lg_level := ld_level d\<rparr>"
  let ?w2 = "put_lg l ?x2 w1"
  have u: "usable t (lg_rwmutex x)" by (rule managedD(4) [OF 1(2,3)])
  have ok: "lg_ok w1 x" by (rule log_wf_lgD [OF managedD(1) [OF 1(2)] 1(3)])
  have s2: "Logger_setLevel t l (ld_level d) w1 = Inr ?w2"
    by (simp add: Logger_setLevel_def guarded_usable(1) [OF 1(3) u])
  have m2: "managed t ?w2" by (rule managed_put_lg [OF 1(2,3)]) (use ok u in \<open>auto simp: lg_ok_def\<close>)
  have "\<exists>w3. (if ld_formatter d \<noteq> [] then Logger_setPattern t l (ld_formatter d) ?w2 else Inr ?w2) = Inr w3
    \<and> managed t w3 \<and> lgs w3 = lgs ?w2 \<and> leaves l ?A ?w2 w3"
  proof (cases "ld_formatter d = []")
    case False
    then obtain z where z: "LogFormatter (ld_formatter d) = Inr z" using d LogFormatter_valid by (auto simp: valid_define_def)
    obtain g where g: "lg_formatter x = Some g" "fmts w1 g \<noteq> None" using ok by (auto simp: lg_ok_def)
    have "\<forall>a \<in> ?A. aps w1 a \<noteq> None" using ok by (auto simp: lg_ok_def can_print_def)
    then obtain w3 where "set_formatters t (Some g) (lg_appenders x) ?w2 = Inr w3" "managed t w3" "lgs w3 = lgs ?w2" "leaves l ?A ?w2 w3"
      using set_formatters_step [OF m2, of "lg_appenders x" g ?A l] g by auto
    then show ?thesis using False z g by (simp add: Logger_setPattern_own Logger_setFormatter_def)
  qed (use m2 in simp)
  then obtain w3 where 3: "(if ld_formatter d \<noteq> [] then Logger_setPattern t l (ld_formatter d) ?w2 else Inr ?w2) = Inr w3"
    "managed t w3" "lgs w3 = lgs ?w2" "leaves l ?A ?w2 w3" by blast
  let ?x4 = "?x2\<lparr>lg_appenders := []\<rparr>"
  let ?w4 = "put_lg l ?x4 w3"
  have x3: "lgs w3 l = Some ?x2" using 3(3) by simp
  have s4: "clearAppender t l w3 = Inr ?w4"
    unfolding clearAppender_def by (subst guarded_usable(1) [OF x3]) (use u in \<open>cases x; simp\<close>)+
  have m4: "managed t ?w4"
    by (rule managed_put_lg [OF 3(2) x3])
      (use u log_wf_lgD [OF managedD(1) [OF 3(2)] x3] in \<open>auto simp: lg_ok_def\<close>)
  obtain w5 x5 where 5: "add_all_defined E t l (ld_appenders d) ?w4 = Inr w5" "managed t w5" "lgs w5 l = Some x5" "lg_level x5 = ld_level d"
      "map (ap_conf w5) (lg_appenders x5) = map (\<lambda>ad. Some (appender_define_conf E ad)) (ld_appenders d)" "leaves l {} ?w4 w5"
    using add_all_defined_step [OF m4, of l ?x4 "ld_appenders d" E] d by (auto simp: valid_define_def)
  have lv: "leaves l ?A w1 w5"
    by (rule leaves_trans [OF leaves_put_lg leaves_trans [OF 3(4) leaves_trans [OF leaves_put_lg leaves_mono [OF 5(6)]]]]) simp
  have apart: "set (lg_appenders y) \<inter> ?A = {}" if "k \<noteq> l" "lgs w1 k = Some y" for k y
    using managedD(2) [OF 1(2)] that 1(3) by (auto simp: unshared_def)
  have "conf w5 n = (if n = ld_name d then Some (define_conf E d) else conf w n)" for n
  proof -
    have "mgr_loggers w1 n = Some l \<longleftrightarrow> n = ld_name d"
      using managedD(9) [OF 1(2), of n l] 1(3,4,5) by auto
    then show ?thesis
      using conf_leaves [OF 1(2) lv 1(3) apart, where n = n] 5 1(7) by (simp add: logger_conf_def define_conf_def)
  qed
  moreover have "apply_define E t d w = Inr w5"
    unfolding apply_define_def using 1(1) s2 3(1) s4 5(1) by simp
  moreover have "mgr_root w5 = mgr_root w" using lv 1(6) by (simp add: leaves_def)
  ultimately show ?thesis using 5(2) by blast
qed

lemma remove_define_step:
  assumes m: "managed t w"
  shows "\<exists>w'. remove_define t d w = Inr w' \<and> managed t w' \<and> mgr_root w' = mgr_root w
    \<and> (\<forall>n. conf w' n = (if n = ld_name d then None else conf w n))"
proof -
  obtain l w1 x where 1: "getLogger t (ld_name d) w = Inr (l, w1)" "managed t w1" "lgs w1 l = Some x" "lg_name x = ld_name d"
      "mgr_loggers w1 = (mgr_loggers w)(ld_name d \<mapsto> l)" "mgr_root w1 = mgr_root w" "\<forall>n. n \<noteq> ld_name d \<longrightarrow> conf w1 n = conf w n"
    using getLogger_step [OF m] by blast
  have u: "usable t (lg_rwmutex x)" by (rule managedD(4) [OF 1(2,3)])
  have ok: "lg_ok w1 x" by (rule log_wf_lgD [OF managedD(1) [OF 1(2)] 1(3)])
  let ?x2 = "x\<lparr>lg_rwmutex := (lg_rwmutex x)\<lparr>writer := Some t\<rparr>, lg_level := 100\<rparr>"
  let ?w2 = "put_lg l ?x2 w1"
  let ?w3 = "put_lg l (?x2\<lparr>lg_appenders := []\<rparr>) w1"
  have s2: "Logger_setLevel t l 100 w1 = Inr ?w2" by (simp add: Logger_setLevel_def guarded_usable(1) [OF 1(3) u])
  have s3: "clearAppender t l ?w2 = Inr ?w3"
    unfolding clearAppender_def by (subst guarded_usable(1) [of _ _ ?x2]) (use u in \<open>cases x; simp\<close>)+
  have m3: "managed t ?w3" by (rule managed_put_lg [OF 1(2,3)]) (use ok u in \<open>auto simp: lg_ok_def\<close>)
  let ?w4 = "?w3\<lparr>mgr_rwmutex := (mgr_rwmutex w1)\<lparr>writer := Some t\<rparr>, mgr_loggers := (mgr_loggers w1)(ld_name d := None)\<rparr>"
  have s4: "delLogger t (ld_name d) ?w3 = Inr ?w4"
    using managedD(3) [OF 1(2)] 1(5) by (simp add: delLogger_def usable_scopes Let_def)
  have m4: "managed t ?w4"
    using managed_mgr(3) [OF managed_mgr(1) [OF m3, of "(mgr_rwmutex w1)\<lparr>writer := Some t\<rparr>"], of "ld_name d"] managedD(3) [OF 1(2)] by simp
  have apart: "set (lg_appenders y) \<inter> {} = {}" for y by simp
  have "conf ?w4 n = (if n = ld_name d then None else conf w n)" for n
  proof (cases "n = ld_name d")
    case False
    have "mgr_loggers w1 n \<noteq> Some l" using managedD(9) [OF 1(2), of n l] 1(3,4) False by auto
    then have "conf ?w3 n = conf w1 n"
      by (subst conf_leaves [OF 1(2) leaves_put_lg 1(3) apart]) simp
    moreover have "conf ?w4 n = conf ?w3 n" by (rule conf_frame) (use False in simp_all)
    ultimately show ?thesis using False 1(7) by simp
  qed (simp add: conf_def)
  moreover have "remove_define t d w = Inr ?w4" unfolding remove_define_def using 1(1) s2 s3 s4 by simp
  moreover have "mgr_root ?w4 = mgr_root w" using 1(6) by simp
  ultimately show ?thesis using m4 by blast
qed

end
