(* ===== verification/LogsChanged.thy ===== *)
theory LogsChanged
  imports LoggerManager
begin

text \<open>
  The effect of the listener of \<open>LoggerManager::init\<close> (\<open>ddg/log.cc\<close>) on the configurations of the
  loggers, as a function on the abstract configurations; the manager after its construction; and the
  properties of the manager.
\<close>

section \<open>The listener refines an update of the configurations\<close>

lemma string_less_antisym: "\<not> string_less a b \<Longrightarrow> \<not> string_less b a \<Longrightarrow> a = b"
  by (induction a b rule: string_less.induct) (auto simp: nat_neq_iff)

lemma string_less_irrefl [simp]: "\<not> string_less a a"
  by (induction a) auto

lemma find_define_name: "find_define d ds = List.find (\<lambda>e. ld_name e = ld_name d) ds"
  unfolding find_define_def log_define_less_def
  by (rule arg_cong2 [where f = List.find]) (use string_less_antisym in \<open>auto simp: fun_eq_iff\<close>)

text \<open>The root takes a message of a level: it is above it, or it has appenders of its own.\<close>

definition root_logs :: "level \<Rightarrow> log_manager \<Rightarrow> bool" where
  "root_logs level w \<longleftrightarrow> (\<exists>r x. mgr_root w = Some r \<and> lgs w r = Some x \<and> (level < lg_level x \<or> lg_appenders x \<noteq> []))"

lemma LOG_AT_step:
  assumes m: "managed t w" and r: "mgr_root w = Some r" and l: "root_logs level w"
  shows "\<exists>w'. LOG_AT E (Suc n) t r level line txt w = Inr w' \<and> managed t w' \<and> mgr_root w' = mgr_root w \<and> conf w' = conf w"
proof -
  obtain x where x: "lgs w r = Some x" "level < lg_level x \<or> lg_appenders x \<noteq> []"
    using r l by (auto simp: root_logs_def)
  let ?x = "x\<lparr>lg_rwmutex := (lg_rwmutex x)\<lparr>writer := None\<rparr>\<rparr>"
  let ?w = "put_lg r ?x w"
  let ?ev = "ss_put txt (LogEvent r level (le_file E) line 0 t (le_fiber E) (le_time E))"
  have u: "usable t (lg_rwmutex x)" by (rule managedD(4) [OF m x(1)])
  have ok: "lg_ok w x" by (rule log_wf_lgD [OF managedD(1) [OF m] x(1)])
  have got: "Logger_getLevel t r w = Inr (lg_level x, ?w)"
    by (simp add: Logger_getLevel_def guarded_usable(2) [OF x(1) u])
  have q: "quiet {r} ?w" using managedD(7,8) [OF m] by (auto simp: quiet_def ran_def)
  have ev: "ev_logger ?ev = r" "ev_level ?ev = level" by (simp_all add: ss_put_def LogEvent_def)
  have m1: "managed t ?w" by (rule managed_put_lg [OF m x(1)]) (use ok u in simp_all)
  have c1: "conf ?w = conf w"
  proof (rule ext)
    fix k
    have "conf ?w k = (if mgr_loggers w k = Some r then map_option (logger_conf ?w) (lgs ?w r) else conf w k)"
      by (rule conf_leaves [OF m leaves_put_lg [of r "{}"] x(1)]) simp
    moreover have "ap_conf ?w = ap_conf w" by (rule ext) (simp add: ap_conf_def)
    ultimately show "conf ?w k = conf w k" using x(1) by (simp add: conf_def logger_conf_def)
  qed
  have "\<exists>os. LOG_AT E (Suc n) t r level line txt w = Inr (?w\<lparr>outs := os\<rparr>)"
  proof (cases "lg_level x \<le> level")
    case True
    define os where "os = outs ?w @ concat (map (prints (le_strftime E) level ?ev ?w) (lg_appenders ?x))"
    have "Logger_log (le_strftime E) (Suc n) t r level ?ev ?w = Inr (?w\<lparr>outs := os\<rparr>)"
      unfolding os_def using True x(2) ok ev(1) q by (intro Logger_log_own) (auto simp: lg_ok_def)
    then have "LOG_AT E (Suc n) t r level line txt w = Inr (?w\<lparr>outs := os\<rparr>)"
      using True got ev by (simp add: LOG_AT_def DDG_LOG_LEVEL_def LogEventWrap_dtor_def del: Logger_log.simps at_Inr)
    then show ?thesis by blast
  next
    case False
    then have "LOG_AT E (Suc n) t r level line txt w = Inr (?w\<lparr>outs := outs ?w\<rparr>)"
      using got by (simp add: LOG_AT_def DDG_LOG_LEVEL_def del: at_Inr)
    then show ?thesis by blast
  qed
  then obtain os where os: "LOG_AT E (Suc n) t r level line txt w = Inr (?w\<lparr>outs := os\<rparr>)" by blast
  moreover have "conf (?w\<lparr>outs := os\<rparr>) = conf ?w" by (rule ext, rule conf_frame) simp_all
  ultimately show ?thesis using managed_mgr(4) [OF m1, of os] c1 by (intro exI [of _ "?w\<lparr>outs := os\<rparr>"]) simp
qed

text \<open>
  The abstract listener: the configuration of a name of the new set is the described one, unless the
  old set has the same; a name of the old set only loses its logger; the others keep theirs.
\<close>

definition named :: "string \<Rightarrow> log_define list \<Rightarrow> log_define option" where
  "named n ds = List.find (\<lambda>e. ld_name e = n) ds"

definition same_define :: "log_define list \<Rightarrow> log_define \<Rightarrow> bool" where
  "same_define old d = (case named (ld_name d) old of None \<Rightarrow> False | Some e \<Rightarrow> log_define_eq d e)"

definition defines_update ::
  "log_env \<Rightarrow> log_define list \<Rightarrow> log_define list \<Rightarrow> (string \<Rightarrow> conf option) \<Rightarrow> string \<Rightarrow> conf option" where
  "defines_update E old new c n = (case named n new of
       Some d \<Rightarrow> if same_define old d then c n else Some (define_conf E d)
     | None \<Rightarrow> c n)"

definition logs_update ::
  "log_env \<Rightarrow> log_define list \<Rightarrow> log_define list \<Rightarrow> (string \<Rightarrow> conf option) \<Rightarrow> string \<Rightarrow> conf option" where
  "logs_update E old new c n =
     (if named n new = None \<and> named n old \<noteq> None then None else defines_update E old new c n)"

lemma named_Cons [simp]: "named n [] = None" "named n (d # ds) = (if ld_name d = n then Some d else named n ds)"
  by (simp_all add: named_def)

lemma named_None: "named n ds = None \<longleftrightarrow> n \<notin> ld_name ` set ds"
  by (induction ds) auto

lemma apply_defines_step:
  assumes "managed t w" and "\<forall>d \<in> set ds. valid_define d" and "distinct (map ld_name ds)"
  shows "\<exists>w'. apply_defines E t old ds w = Inr w' \<and> managed t w' \<and> mgr_root w' = mgr_root w
    \<and> conf w' = defines_update E old ds (conf w)"
  using assms
proof (induction ds arbitrary: w)
  case (Cons d ds)
  have "\<exists>w1. (case find_define d old of None \<Rightarrow> apply_define E t d w
       | Some e \<Rightarrow> if \<not> log_define_eq d e then apply_define E t d w else Inr w) = Inr w1
    \<and> managed t w1 \<and> mgr_root w1 = mgr_root w
    \<and> conf w1 = (if same_define old d then conf w else (conf w)(ld_name d \<mapsto> define_conf E d))"
  proof (cases "same_define old d")
    case True
    then show ?thesis using Cons.prems(1)
      by (intro exI [of _ w]) (auto simp: same_define_def named_def find_define_name split: option.splits)
  next
    case False
    obtain w1 where "apply_define E t d w = Inr w1" "managed t w1" "mgr_root w1 = mgr_root w"
        "\<forall>n. conf w1 n = (if n = ld_name d then Some (define_conf E d) else conf w n)"
      using apply_define_step [OF Cons.prems(1), of d E] Cons.prems(2) by auto
    then show ?thesis using False
      by (intro exI [of _ w1]) (auto simp: same_define_def named_def find_define_name fun_eq_iff split: option.splits)
  qed
  then obtain w1 where 1: "(case find_define d old of None \<Rightarrow> apply_define E t d w
       | Some e \<Rightarrow> if \<not> log_define_eq d e then apply_define E t d w else Inr w) = Inr w1"
    "managed t w1" "mgr_root w1 = mgr_root w"
    "conf w1 = (if same_define old d then conf w else (conf w)(ld_name d \<mapsto> define_conf E d))" by blast
  obtain w2 where 2: "apply_defines E t old ds w1 = Inr w2" "managed t w2" "mgr_root w2 = mgr_root w1"
      "conf w2 = defines_update E old ds (conf w1)"
    using Cons.IH [OF 1(2)] Cons.prems(2,3) by auto
  have "named (ld_name d) ds = None" using Cons.prems(3) by (simp add: named_None)
  then have "conf w2 = defines_update E old (d # ds) (conf w)"
    using 1(4) 2(4) by (auto simp: defines_update_def fun_eq_iff split: option.splits)
  then show ?case using 1 2 by simp
qed (simp add: defines_update_def fun_eq_iff)

lemma remove_defines_step:
  assumes "managed t w"
  shows "\<exists>w'. remove_defines t new ds w = Inr w' \<and> managed t w' \<and> mgr_root w' = mgr_root w
    \<and> (\<forall>n. conf w' n = (if named n new = None \<and> named n ds \<noteq> None then None else conf w n))"
  using assms
proof (induction ds arbitrary: w)
  case (Cons d ds)
  have "\<exists>w1. (if find_define d new = None then remove_define t d w else Inr w) = Inr w1 \<and> managed t w1 \<and> mgr_root w1 = mgr_root w
    \<and> (\<forall>n. conf w1 n = (if n = ld_name d \<and> named n new = None then None else conf w n))"
    using remove_define_step [OF Cons.prems, of d] Cons.prems
    by (cases "named (ld_name d) new = None") (auto simp: named_def find_define_name)
  then obtain w1 where 1: "(if find_define d new = None then remove_define t d w else Inr w) = Inr w1" "managed t w1"
      "mgr_root w1 = mgr_root w" "\<forall>n. conf w1 n = (if n = ld_name d \<and> named n new = None then None else conf w n)" by blast
  obtain w2 where 2: "remove_defines t new ds w1 = Inr w2" "managed t w2" "mgr_root w2 = mgr_root w1"
      "\<forall>n. conf w2 n = (if named n new = None \<and> named n ds \<noteq> None then None else conf w1 n)"
    using Cons.IH [OF 1(2)] by blast
  show ?case using 1 2 by (intro exI [of _ w2]) auto
qed simp

section \<open>The manager after its construction\<close>

definition root_world :: "tid \<Rightarrow> log_manager" where
  "root_world t = \<lparr>fmts = [0 \<mapsto> default_formatter],
     aps = [2 \<mapsto> \<lparr>ap_class = StdoutLogAppender, ap_rwmutex = rw_free\<lparr>writer := Some t\<rparr>, ap_mutex = None, ap_level = DEBUG, ap_formatter = Some 0\<rparr>],
     lgs = [1 \<mapsto> \<lparr>lg_rwmutex = rw_free, lg_name = ''root'', lg_level = DEBUG, lg_appenders = [2], lg_formatter = Some 0, lg_root = None\<rparr>],
     next_obj = 3, outs = [], mgr_rwmutex = rw_free, mgr_root = Some 1, mgr_loggers = [''root'' \<mapsto> 1]\<rparr>"

lemma root_world_managed: "managed t (root_world t)"
  by (auto simp: managed_def logger_managed_def unshared_def root_world_def log_wf_def lg_ok_def can_print_def
      default_formatter_def rw_free_def usable_def split: if_splits)

lemma root_world_conf: "conf (root_world t) = [''root'' \<mapsto> (DEBUG, [Some (StdoutLogAppender, DEBUG, Some default_pattern)])]"
  by (rule ext) (simp add: conf_def root_world_def logger_conf_def ap_conf_def default_formatter_def)

lemma root_world_logs: "root_logs level (root_world t)"
  by (simp add: root_logs_def root_world_def)

lemma new_lookup:
  assumes "usable t (cfg_mutex cfg)" and "s_datas cfg name = None" and "valid_name name"
  shows "Lookup t ty name v d cfg = (Inr (next_cvar cfg), cfg\<lparr>s_datas := (s_datas cfg)(name \<mapsto> next_cvar cfg),
      cfg_mutex := (cfg_mutex cfg)\<lparr>writer := Some t\<rparr>, cvars := (cvars cfg)(next_cvar cfg \<mapsto> ConfigVar ty name v d),
      next_cvar := next_cvar cfg + 1\<rparr>)"
  using assms by (cases cfg) (simp add: Lookup_def Config_insert_def usable_scopes Let_def)

lemma valid_logs: "valid_name ''logs''"
  by (simp add: valid_name_def kValidSet_def)

lemma Manager_new_root:
  "Manager_new E n t v cb cfg = Manager_init E n t v cb cfg (root_world t)"
  by (simp add: Manager_new_def no_loggers_def root_world_def StdoutLogAppender_new_def new_appender_def Logger_new_def LogFormatter_default
      Let_def put_lg_def put_fmt_def put_ap_def Appender_setLevel_def Logger_setLevel_def
      addAppender_def Appender_getFormatter_def Appender_setFormatter_def ap_read_def ap_write_def lg_write_def lg_at_def ap_at_def
      read_scope_free write_scope_free read_scope_own write_scope_own rw_free_def Logger_getName_def lg_read_def numeral_2_eq_2 numeral_3_eq_3)

text \<open>What the constructor does when the configuration has no variable \<open>logs\<close>.\<close>

lemma Manager_new_run:
  assumes "usable t (cfg_mutex cfg)" and "s_datas cfg ''logs'' = None"
  shows "\<exists>w cv. Manager_new E (Suc n) t v cb cfg = Inr (cfg\<lparr>s_datas := (s_datas cfg)(''logs'' \<mapsto> next_cvar cfg),
        cfg_mutex := (cfg_mutex cfg)\<lparr>writer := Some t\<rparr>, cvars := (cvars cfg)(next_cvar cfg \<mapsto> cv), next_cvar := next_cvar cfg + 1\<rparr>, w)
    \<and> m_val cv = v \<and> m_cbs cv = [(0, cb)] \<and> cv_type cv = ''std::set<LogDefine>'' \<and> managed t w
    \<and> conf w = [''root'' \<mapsto> (DEBUG, [Some (StdoutLogAppender, DEBUG, Some default_pattern)])]"
proof -
  have r: "mgr_root (root_world t) = Some 1" by (simp add: root_world_def)
  obtain w where w: "LOG_AT E (Suc n) t 1 DEBUG 725 ''LoggerManager init finish!'' (root_world t) = Inr w" "managed t w" "conf w = conf (root_world t)"
    using LOG_AT_step [OF root_world_managed r root_world_logs, where level = DEBUG] by blast
  have "\<exists>cv. addListener t cb (ConfigVar ''std::set<LogDefine>'' ''logs'' v ''logs config'') = Inr (0, cv) \<and> m_val cv = v \<and> m_cbs cv = [(0, cb)]
      \<and> cv_type cv = ''std::set<LogDefine>''"
    by (simp add: addListener_def ConfigVar_def write_scope_free rw_free_def find_key_def)
  then obtain cv where cv: "addListener t cb (ConfigVar ''std::set<LogDefine>'' ''logs'' v ''logs config'') = Inr (0, cv)"
      "m_val cv = v" "m_cbs cv = [(0, cb)]" "cv_type cv = ''std::set<LogDefine>''" by blast
  have "Manager_new E (Suc n) t v cb cfg = Inr (cfg\<lparr>s_datas := (s_datas cfg)(''logs'' \<mapsto> next_cvar cfg),
        cfg_mutex := (cfg_mutex cfg)\<lparr>writer := Some t\<rparr>, cvars := (cvars cfg)(next_cvar cfg \<mapsto> cv), next_cvar := next_cvar cfg + 1\<rparr>, w)"
    by (simp add: Manager_new_root Manager_init_def new_lookup [OF assms valid_logs] non_null_def cv(1) r w(1) del: at_Inr One_nat_def)
  then show ?thesis using w(2,3) cv(2-4) root_world_conf by metis
qed

text \<open>
  The construction. With a configuration that has no variable \<open>logs\<close>, the constructor registers the
  variable with the listener, and leaves one logger, \<open>root\<close>, that prints all levels to the standard
  output with the default pattern.
\<close>

theorem Manager_new_outcome:
  assumes "cfg_mutex cfg = rw_free" and "s_datas cfg ''logs'' = None"
  shows "\<exists>cfg' w p cv. Manager_new E (Suc n) t v cb cfg = Inr (cfg', w) \<and> s_datas cfg' = (s_datas cfg)(''logs'' \<mapsto> p)
    \<and> cvars cfg' p = Some cv \<and> m_val cv = v \<and> m_cbs cv = [(0, cb)] \<and> managed t w
    \<and> conf w = [''root'' \<mapsto> (DEBUG, [Some (StdoutLogAppender, DEBUG, Some default_pattern)])]"
  using Manager_new_run [of t cfg E n v cb] assms by fastforce

theorem Manager_new_outcome_witness:
  "\<exists>cfg' w. Manager_new \<lparr>le_strftime = \<lambda>f s. ''now'', le_can_open = \<lambda>f. True, le_file = ''log.cc'', le_fiber = 0, le_time = 0\<rparr> 1 7 (0 :: nat) ''f''
      no_config = Inr (cfg', w) \<and> map_option m_cbs (cvars cfg' (the (s_datas cfg' ''logs''))) = Some [(0, ''f'')] \<and> managed 7 w"
  using Manager_new_outcome [of "no_config :: (nat, string) config"
      "\<lparr>le_strftime = \<lambda>f s. ''now'', le_can_open = \<lambda>f. True, le_file = ''log.cc'', le_fiber = 0, le_time = 0\<rparr>" 0 7 0 "''f''"]
  by (auto simp: no_config_def)

section \<open>Properties\<close>

lemma on_logs_changed_starts:
  assumes m: "managed t w" and l: "root_logs INFO w"
  shows "\<exists>w1. on_logs_changed E (Suc n) t old new w = and_then (apply_defines E t old new w1) (remove_defines t new old)
    \<and> managed t w1 \<and> conf w1 = conf w"
proof -
  obtain r where r: "mgr_root w = Some r" using m by (auto simp: managed_def)
  let ?w0 = "w\<lparr>mgr_rwmutex := (mgr_rwmutex w)\<lparr>writer := None\<rparr>\<rparr>"
  have u: "usable t (mgr_rwmutex w)" by (rule managedD(3) [OF m])
  have m0: "managed t ?w0" by (rule managed_mgr(1) [OF m]) (simp add: u)
  have c0: "conf ?w0 = conf w" by (rule ext, rule conf_frame) simp_all
  have r0: "mgr_root ?w0 = Some r" and l0: "root_logs INFO ?w0" using r l by (simp_all add: root_logs_def)
  obtain w1 where "LOG_AT E (Suc n) t r INFO 669 ''on_logger_conf_changed'' ?w0 = Inr w1" "managed t w1" "conf w1 = conf ?w0"
    using LOG_AT_step [OF m0 r0 l0] by blast
  then show ?thesis
    using r u c0 by (intro exI [of _ w1]) (simp add: on_logs_changed_def Manager_getRoot_def usable_scopes non_null_def del: at_Inr)
qed

lemma on_logs_changed_effect:
  assumes "managed t w" and "root_logs INFO w" and "\<forall>d \<in> set new. valid_define d" and "distinct (map ld_name new)"
  shows "\<exists>w'. on_logs_changed E (Suc n) t old new w = Inr w' \<and> managed t w' \<and> conf w' = logs_update E old new (conf w)"
proof -
  obtain w1 where 1: "on_logs_changed E (Suc n) t old new w = and_then (apply_defines E t old new w1) (remove_defines t new old)"
      "managed t w1" "conf w1 = conf w" using on_logs_changed_starts [OF assms(1,2)] by blast
  obtain w2 where 2: "apply_defines E t old new w1 = Inr w2" "managed t w2" "conf w2 = defines_update E old new (conf w)"
    using apply_defines_step [OF 1(2) assms(3,4)] 1(3) by auto
  obtain w3 where 3: "remove_defines t new old w2 = Inr w3" "managed t w3"
      "\<forall>n. conf w3 n = (if named n new = None \<and> named n old \<noteq> None then None else conf w2 n)"
    using remove_defines_step [OF 2(2)] by blast
  have "conf w3 = logs_update E old new (conf w)" using 3(3) 2(3) by (auto simp: logs_update_def fun_eq_iff)
  then show ?thesis using 1(1) 2(1) 3(1,2) by simp
qed

text \<open>
  C3: the listener. When the variable \<open>logs\<close> changes, the loggers of the new set that are new or
  described otherwise than before get the level and the appenders described, in their order; those
  that are no more described are removed, all others keep their configuration; and the state stays
  one in which the thread can go on.
\<close>

theorem on_logs_changed_refines:
  assumes "managed t w" and "root_logs INFO w" and "\<forall>d \<in> set new. valid_define d" and "distinct (map ld_name new)"
  shows "\<exists>w'. on_logs_changed E (Suc n) t old new w = Inr w' \<and> managed t w' \<and> conf w' = logs_update E old new (conf w)"
  by (rule on_logs_changed_effect [OF assms])

definition env0 :: log_env where
  "env0 = \<lparr>le_strftime = \<lambda>f s. ''now'', le_can_open = \<lambda>f. True, le_file = ''log.cc'', le_fiber = 0, le_time = 0\<rparr>"

definition file_define :: "string \<Rightarrow> log_define" where
  "file_define f = \<lparr>ld_name = ''a'', ld_level = WARN, ld_formatter = [],
     ld_appenders = [\<lparr>ad_type = FILE_LOG_APPENDER, ad_level = ERROR, ad_formatter = [], ad_file = f\<rparr>]\<rparr>"

theorem on_logs_changed_refines_witness:
  "\<exists>w'. on_logs_changed env0 1 7 [] [file_define ''a.txt''] (root_world 7) = Inr w'
    \<and> conf w' ''a'' = Some (WARN, [Some (FileLogAppender ''a.txt'' True, ERROR, Some default_pattern)])
    \<and> conf w' ''root'' = Some (DEBUG, [Some (StdoutLogAppender, DEBUG, Some default_pattern)])"
proof -
  have v: "\<forall>d \<in> set [file_define ''a.txt'']. valid_define d" "distinct (map ld_name [file_define ''a.txt''])"
    by (simp_all add: valid_define_def valid_appender_def file_define_def)
  show ?thesis
    using on_logs_changed_refines [OF root_world_managed root_world_logs v, where t = 7 and E = env0 and n = 0 and old = "[]"]
    by (auto simp: logs_update_def defines_update_def same_define_def root_world_conf file_define_def define_conf_def
        appender_define_conf_def class_of_def env0_def)
qed

text \<open>Another file for every appender.\<close>

definition with_files :: "(appender_define \<Rightarrow> string) \<Rightarrow> log_define \<Rightarrow> log_define" where
  "with_files h d = d\<lparr>ld_appenders := map (\<lambda>a. a\<lparr>ad_file := h a\<rparr>) (ld_appenders d)\<rparr>"

lemma with_files_eq: "log_define_eq (with_files h d) d" "ld_name (with_files h d) = ld_name d"
  by (simp_all add: log_define_eq_def with_files_def appender_define_eq_def)

lemma find_define_unique:
  "distinct (map ld_name ds) \<Longrightarrow> d \<in> set ds \<Longrightarrow> ld_name e = ld_name d \<Longrightarrow> find_define e ds = Some d"
  unfolding find_define_name by (induction ds) (auto simp: image_iff)

lemma apply_defines_same:
  "(\<And>d. d \<in> set ds \<Longrightarrow> \<exists>e. find_define d old = Some e \<and> log_define_eq d e) \<Longrightarrow> apply_defines E t old ds w = Inr w"
proof (induction ds)
  case (Cons d ds)
  then obtain e where "find_define d old = Some e" "log_define_eq d e" by auto
  then show ?case using Cons by simp
qed simp

lemma remove_defines_same:
  "(\<And>d. d \<in> set ds \<Longrightarrow> find_define d new \<noteq> None) \<Longrightarrow> remove_defines t new ds w = Inr w"
proof (induction ds)
  case (Cons d ds)
  then obtain e where "find_define d new = Some e" by auto
  then show ?case using Cons by simp
qed simp

text \<open>
  The files of the appenders. A change of the variable that only gives other files to the appenders
  of the loggers changes nothing: the comparison of two appenders does not look at their files.
\<close>

theorem file_change_has_no_effect:
  assumes "managed t w" and "root_logs INFO w" and "distinct (map ld_name old)"
  shows "\<exists>w'. on_logs_changed E (Suc n) t old (map (with_files h) old) w = Inr w' \<and> managed t w' \<and> conf w' = conf w"
proof -
  obtain w1 where 1: "on_logs_changed E (Suc n) t old (map (with_files h) old) w
      = and_then (apply_defines E t old (map (with_files h) old) w1) (remove_defines t (map (with_files h) old) old)"
      "managed t w1" "conf w1 = conf w" using on_logs_changed_starts [OF assms(1,2)] by blast
  have "apply_defines E t old (map (with_files h) old) w1 = Inr w1"
  proof (rule apply_defines_same)
    fix e
    assume "e \<in> set (map (with_files h) old)"
    then obtain d where "d \<in> set old" "e = with_files h d" by auto
    then show "\<exists>d. find_define e old = Some d \<and> log_define_eq e d"
      using find_define_unique [OF assms(3), of d e] with_files_eq by blast
  qed
  moreover have "remove_defines t (map (with_files h) old) old w1 = Inr w1"
  proof (rule remove_defines_same)
    fix d
    assume d: "d \<in> set old"
    have "find_define d (map (with_files h) old) = Some (with_files h d)"
      by (rule find_define_unique) (use d assms(3) in \<open>simp_all add: comp_def with_files_eq\<close>)
    then show "find_define d (map (with_files h) old) \<noteq> None" by simp
  qed
  ultimately show ?thesis using 1 by simp
qed

theorem file_change_has_no_effect_witness:
  "\<exists>w'. on_logs_changed env0 1 7 [file_define ''a.txt''] [file_define ''b.txt''] (root_world 7) = Inr w' \<and> conf w' = conf (root_world 7)"
proof -
  have "map (with_files (\<lambda>a. ''b.txt'')) [file_define ''a.txt''] = [file_define ''b.txt'']"
    by (simp add: with_files_def file_define_def)
  then show ?thesis
    using file_change_has_no_effect [OF root_world_managed root_world_logs, where t = 7 and E = env0 and n = 0 and old = "[file_define ''a.txt'']" and h = "\<lambda>a. ''b.txt''"] by auto
qed

text \<open>
  A root without appenders. When the root has lost its appenders and takes a message of the level,
  the first statement that logs through it uses the null pointer of its own root; so the next change of
  the configuration crashes.
\<close>

theorem root_without_appenders_crashes:
  assumes "managed t w" and "mgr_root w = Some r" and "lgs w r = Some x"
    and "lg_appenders x = []" and "lg_root x = None" and "lg_level x \<le> INFO"
  shows "on_logs_changed E (Suc n) t old new w = Inl (UB ''null m_root'')"
proof -
  let ?w0 = "w\<lparr>mgr_rwmutex := (mgr_rwmutex w)\<lparr>writer := None\<rparr>\<rparr>"
  have u: "usable t (mgr_rwmutex w)" "usable t (lg_rwmutex x)"
    using managedD(3,4) [OF assms(1)] assms(3) by auto
  have x: "lgs ?w0 r = Some x" using assms(3) by simp
  let ?w1 = "put_lg r (x\<lparr>lg_rwmutex := (lg_rwmutex x)\<lparr>writer := None\<rparr>\<rparr>) ?w0"
  have "Logger_getLevel t r ?w0 = Inr (lg_level x, ?w1)"
    by (simp add: Logger_getLevel_def guarded_usable(2) [OF x u(2)])
  then have "LOG_AT E (Suc n) t r INFO 669 ''on_logger_conf_changed'' ?w0 = Inl (UB ''null m_root'')"
    using assms(4-6) by (simp add: LOG_AT_def DDG_LOG_LEVEL_def LogEventWrap_dtor_def ss_put_def LogEvent_def rdlock_in non_null_def)
  then show ?thesis using assms(2) u(1) by (simp add: on_logs_changed_def Manager_getRoot_def usable_scopes non_null_def del: at_Inr)
qed

text \<open>The listener itself brings this about: a description of \<open>root\<close> without appenders.\<close>

definition bare_root :: log_manager where
  "bare_root = projr (apply_define env0 7 \<lparr>ld_name = ''root'', ld_level = INFO, ld_formatter = [], ld_appenders = []\<rparr> (root_world 7))"

theorem root_without_appenders_crashes_witness:
  "on_logs_changed env0 1 7 [] [] bare_root = Inl (UB ''null m_root'')"
proof -
  let ?d = "\<lparr>ld_name = ''root'', ld_level = INFO, ld_formatter = [], ld_appenders = []\<rparr>"
  have "valid_define ?d" by (simp add: valid_define_def)
  then have m: "managed 7 bare_root" using apply_define_step [OF root_world_managed, of ?d env0 7] by (auto simp: bare_root_def)
  have "mgr_root bare_root = Some 1 \<and> lgs bare_root 1 = Some \<lparr>lg_rwmutex = rw_free\<lparr>writer := Some 7\<rparr>, lg_name = ''root'', lg_level = INFO,
      lg_appenders = [], lg_formatter = Some 0, lg_root = None\<rparr>"
    by (simp add: bare_root_def apply_define_def getLogger_def root_world_def write_scope_free write_scope_own rw_free_def
        Logger_setLevel_def clearAppender_def lg_write_def lg_at_def put_lg_def Let_def)
  with root_without_appenders_crashes [OF m, where E = env0 and n = 0 and old = "[]" and new = "[]"] show ?thesis by simp
qed

text \<open>
  \<open>getLogger\<close>. A registered logger is returned as it is. An unknown name gets a new logger of that
  name with level \<open>DEBUG\<close>, without appenders and with the manager's root, which is registered; asking
  again gives the same logger.
\<close>

theorem getLogger_outcome:
  assumes "managed t w"
  shows "case mgr_loggers w name of
      Some l \<Rightarrow> getLogger t name w = Inr (l, w\<lparr>mgr_rwmutex := (mgr_rwmutex w)\<lparr>writer := Some t\<rparr>\<rparr>)
    | None \<Rightarrow> \<exists>l w' x. getLogger t name w = Inr (l, w') \<and> managed t w' \<and> lgs w l = None \<and> lgs w' l = Some x \<and> lg_name x = name
        \<and> lg_level x = DEBUG \<and> lg_appenders x = [] \<and> lg_root x = mgr_root w
        \<and> mgr_loggers w' = (mgr_loggers w)(name \<mapsto> l) \<and> getLogger t name w' = Inr (l, w')"
proof (cases "mgr_loggers w name")
  case (Some l)
  then show ?thesis using getLogger_old_step(1) [OF assms] by simp
next
  case None
  let ?l = "Suc (next_obj w)"
  obtain w' x where w': "getLogger t name w = Inr (?l, w')" "managed t w'" "lgs w' ?l = Some x" "lg_name x = name" "lg_level x = DEBUG"
      "lg_appenders x = []" "lg_root x = mgr_root w" "mgr_loggers w' = (mgr_loggers w)(name \<mapsto> ?l)"
      "mgr_rwmutex w' = (mgr_rwmutex w)\<lparr>writer := Some t\<rparr>"
    using getLogger_new_step [OF assms None] by blast
  have "lgs w ?l = None" using log_wf_none [OF managedD(1) [OF assms], of ?l] by simp
  moreover have "getLogger t name w' = Inr (?l, w')"
    using getLogger_old_step(1) [OF w'(2), of name ?l] w'(8,9) by simp
  ultimately show ?thesis using None w' by auto
qed

theorem getLogger_outcome_witness:
  "\<exists>l w'. getLogger 7 ''a'' (root_world 7) = Inr (l, w') \<and> mgr_loggers w' = [''root'' \<mapsto> 1, ''a'' \<mapsto> l] \<and> getLogger 7 ''a'' w' = Inr (l, w')"
  using getLogger_outcome [OF root_world_managed [of 7], of "''a''"] by (auto simp: root_world_def)

text \<open>
  \<open>getLogger\<close> keeps the manager's write lock: from the first call of a thread on, the calls of every
  other thread that ask the manager for a logger or for the root, or remove a logger, block.
\<close>

theorem getLogger_keeps_the_lock:
  assumes "managed t w" and "u \<noteq> t"
  shows "\<exists>l w'. getLogger t name w = Inr (l, w') \<and> getLogger u name' w' = Inl Blocked
    \<and> delLogger u name' w' = Inl Blocked \<and> Manager_getRoot u w' = Inl Blocked"
proof -
  have "\<exists>l w'. getLogger t name w = Inr (l, w') \<and> mgr_rwmutex w' = (mgr_rwmutex w)\<lparr>writer := Some t\<rparr>"
    using getLogger_new_step [OF assms(1)] getLogger_old_step(1) [OF assms(1)] by (cases "mgr_loggers w name") fastforce+
  then obtain l w' where w': "getLogger t name w = Inr (l, w')" "mgr_rwmutex w' = (mgr_rwmutex w)\<lparr>writer := Some t\<rparr>" by blast
  have "write_scope u (mgr_rwmutex w') = Inl Blocked" "read_scope u (mgr_rwmutex w') = Inl Blocked"
    using w'(2) assms(2) by (simp_all add: lock_simps)
  then have "getLogger u name' w' = Inl Blocked \<and> delLogger u name' w' = Inl Blocked \<and> Manager_getRoot u w' = Inl Blocked"
    by (simp add: getLogger_def delLogger_def Manager_getRoot_def)
  then show ?thesis using w'(1) by blast
qed

theorem getLogger_keeps_the_lock_witness:
  "\<exists>l w'. getLogger 7 ''a'' (root_world 7) = Inr (l, w') \<and> getLogger 8 ''root'' w' = Inl Blocked"
  using getLogger_keeps_the_lock [OF root_world_managed [of 7], of 8 "''a''" "''root''"] by auto

end
