(* ===== verification/LogsConfig.thy ===== *)
theory LogsConfig
  imports LogsChanged
begin

text \<open>
  The variable \<open>logs\<close> of \<open>ddg/config.h\<close> with its listener of \<open>ddg/log.cc\<close>: what a text that is loaded
  into the variable does to the loggers. The type of the variable is \<open>std::set<LogDefine>\<close>, the list of
  its elements in their order; its conversions are the instances of \<open>ddg/lexicalcast.h\<close> for sets, over
  those of \<open>LogDefine\<close>.
\<close>

section \<open>The type of the variable\<close>

text \<open>\<open>insert\<close> into a \<open>std::set\<close>: an element that is neither less nor greater stays.\<close>

fun define_insert :: "log_define \<Rightarrow> log_define list \<Rightarrow> log_define list" where
  "define_insert d [] = [d]"
| "define_insert d (e # es) =
     (if log_define_less d e then d # e # es
      else if log_define_less e d then e # define_insert d es
      else e # es)"

text \<open>\<open>operator==\<close> of a \<open>std::set\<close>, by the \<open>operator==\<close> of its elements.\<close>

definition defines_eq :: "log_define list \<Rightarrow> log_define list \<Rightarrow> bool" where
  "defines_eq a b \<longleftrightarrow> length a = length b \<and> list_all2 log_define_eq a b"

definition logs_from_string :: "yaml_api \<Rightarrow> string \<Rightarrow> log_define list result" where
  "logs_from_string Y v =
     and_then (y_load Y v) (\<lambda>node. read_loop (\<lambda>st d. define_insert d st) Y (log_define_from_string Y) node 0 [])"

definition logs_to_string :: "yaml_api \<Rightarrow> log_define list \<Rightarrow> string result" where
  "logs_to_string Y v = and_then (print_loop Y (log_define_to_string Y) v (YSeq [])) (\<lambda>node. Inr (y_emit Y node))"

definition logs_casts :: "yaml_api \<Rightarrow> log_define list casts" where
  "logs_casts Y ty = (logs_to_string Y, logs_from_string Y, defines_eq)"

section \<open>Loading a text\<close>

text \<open>
  The variable has the manager's listener only. \<open>fromString\<close> of \<open>Config\<close> says which calls of it are made;
  they are run on the state of the logging system. When a call throws, it has done a part of its
  work, and the state it leaves is not given (\<open>None\<close>).
\<close>

definition listener_throws :: "log_env \<Rightarrow> nat \<Rightarrow> tid \<Rightarrow> log_manager \<Rightarrow> 'cb \<Rightarrow> log_define list \<Rightarrow> log_define list \<Rightarrow> bool" where
  "listener_throws E n t w cb old new = (case on_logs_changed E n t old new w of Inl (Exn e) \<Rightarrow> True | _ \<Rightarrow> False)"

fun run_calls :: "log_env \<Rightarrow> nat \<Rightarrow> tid \<Rightarrow> (log_define list, 'cb) call list \<Rightarrow> log_manager \<Rightarrow> log_manager result" where
  "run_calls E n t [] w = Inr w"
| "run_calls E n t ((cb, old, new) # cs) w = and_then (on_logs_changed E n t old new w) (run_calls E n t cs)"

definition logs_fromString ::
  "yaml_api \<Rightarrow> log_env \<Rightarrow> nat \<Rightarrow> tid \<Rightarrow> string \<Rightarrow> (log_define list, 'cb) config_var \<Rightarrow> log_manager \<Rightarrow>
   (bool \<times> (log_define list, 'cb) config_var \<times> log_manager option) result" where
  "logs_fromString Y E n t s cv w =
     (case fromString (logs_casts Y) (listener_throws E n t w) t s cv of
        (Inl e, calls, cv1) \<Rightarrow> Inl e
      | (Inr b, calls, cv1) \<Rightarrow>
          if b then and_then (run_calls E n t calls w) (\<lambda>w1. Inr (b, cv1, Some w1))
          else Inr (b, cv1, if calls = [] then Some w else None))"

section \<open>Sets of definitions\<close>

lemma string_less_trans: "string_less a b \<Longrightarrow> string_less b c \<Longrightarrow> string_less a c"
proof (induction a b arbitrary: c rule: string_less.induct)
  case (2 x xs)
  then show ?case by (cases c) auto
next
  case (4 x xs y ys)
  then show ?case by (cases c) auto
qed auto

lemma define_insert_set: "set (define_insert d ds) \<subseteq> insert d (set ds)"
  by (induction ds) auto

lemma define_insert_sorted: "sorted_wrt log_define_less ds \<Longrightarrow> sorted_wrt log_define_less (define_insert d ds)"
proof (induction ds)
  case (Cons e es)
  have "log_define_less e x" if "x \<in> set (define_insert d es)" "log_define_less e d" for x
    using define_insert_set [of d es] that Cons.prems by auto
  moreover have "log_define_less d x" if "x \<in> set es" "log_define_less d e" for x
    using Cons.prems that string_less_trans unfolding log_define_less_def by auto
  ultimately show ?case using Cons by auto
qed simp

lemma foldl_define_insert_sorted:
  "sorted_wrt log_define_less ds \<Longrightarrow> sorted_wrt log_define_less (foldl (\<lambda>st d. define_insert d st) ds xs)"
  by (induction xs arbitrary: ds) (simp_all add: define_insert_sorted)

lemma sorted_names: "sorted_wrt log_define_less ds \<Longrightarrow> distinct (map ld_name ds)"
  by (induction ds) (auto simp: log_define_less_def)

lemma logs_from_string_sorted: "logs_from_string Y s = Inr ds \<Longrightarrow> sorted_wrt log_define_less ds"
  by (auto simp: logs_from_string_def read_loop_map foldl_define_insert_sorted simp del: read_loop.simps)

lemma foldl_define_insert_id:
  "sorted_wrt log_define_less (ds @ xs) \<Longrightarrow> foldl (\<lambda>st d. define_insert d st) ds xs = ds @ xs"
proof (induction xs arbitrary: ds)
  case (Cons x xs)
  have "define_insert x es = es @ [x]" if "\<forall>e \<in> set es. log_define_less e x" for es
    using that
  proof (induction es)
    case (Cons e es)
    then have "\<not> log_define_less x e" unfolding log_define_less_def by (metis list.set_intros(1) string_less_irrefl string_less_trans)
    then show ?case using Cons by simp
  qed simp
  then have "define_insert x ds = ds @ [x]" using Cons.prems by (auto simp: sorted_wrt_append)
  then show ?case using Cons.IH [of "ds @ [x]"] Cons.prems by simp
qed simp

lemma logs_nodes_back:
  assumes ds: "sorted_wrt log_define_less ds" "\<forall>d \<in> set ds. expressible d \<and> readable Y d"
      "\<forall>d \<in> set ds. \<forall>a \<in> set (ld_appenders d). ad_formatter a \<noteq> [] \<and> ad_level a \<noteq> UNKNOW"
    and Y: "yaml_indexes Y" "yaml_reads_back Y (YSeq (map log_define_node ds))"
  shows "logs_to_string Y ds = Inr (y_emit Y (YSeq (map log_define_node ds)))"
    and "logs_from_string Y (y_emit Y (YSeq (map log_define_node ds))) = Inr ds"
proof -
  have own: "inherit d = d" if "d \<in> set ds" for d
  proof -
    have "map (inherit_appender d) (ld_appenders d) = ld_appenders d"
      using ds(3) that by (intro map_idI) (auto simp: inherit_appender_def Let_def)
    then show ?thesis by (simp add: inherit_def)
  qed
  have b: "converts_back Y (log_define_to_string Y) (log_define_from_string Y) log_define_node d" if "d \<in> set ds" for d
    using log_define_to_node [of d Y] log_define_from_node [of d Y] ds(2) that own [OF that]
    by (auto simp: converts_back_def readable_def yaml_reads_back_def)
  show "logs_to_string Y ds = Inr (y_emit Y (YSeq (map log_define_node ds)))"
    using seq_to_string_nodes [of ds Y, OF b] by (simp add: logs_to_string_def seq_to_string_def print_loop_map and_then_assoc)
  show "logs_from_string Y (y_emit Y (YSeq (map log_define_node ds))) = Inr ds"
    using Y seq_elements_back [of ds Y, OF b Y(1)] foldl_define_insert_id [of "[]" ds] ds(1)
    by (simp add: logs_from_string_def read_loop_map yaml_reads_back_def del: read_loop.simps)
qed

definition message_define :: "string \<Rightarrow> log_define" where
  "message_define f = \<lparr>ld_name = ''a'', ld_level = WARN, ld_formatter = [],
     ld_appenders = [\<lparr>ad_type = FILE_LOG_APPENDER, ad_level = ERROR, ad_formatter = ''%m'', ad_file = f\<rparr>]\<rparr>"

definition message_yaml :: yaml_api where
  "message_yaml = table_yaml [(log_define_node (message_define ''f''), ''name: a''),
     (appender_define_node (hd (ld_appenders (message_define ''f''))), ''file: f''),
     (YSeq [log_define_node (message_define ''f'')], ''- name: a'')]"

lemma message_back:
  "logs_to_string message_yaml [message_define ''f''] = Inr ''- name: a''"
  "logs_from_string message_yaml ''- name: a'' = Inr [message_define ''f'']"
proof -
  have e: "y_emit message_yaml (YSeq (map log_define_node [message_define ''f''])) = ''- name: a''"
    by (simp add: message_yaml_def table_yaml_def log_define_node_def appender_define_node_def message_define_def entry_def level_defs)
  note b = logs_nodes_back [of "[message_define ''f'']" message_yaml, unfolded e]
  have "readable message_yaml (message_define ''f'')" "expressible (message_define ''f'')"
    by (simp_all add: readable_def yaml_reads_back_def message_yaml_def table_yaml_def message_define_def log_define_node_def
      appender_define_node_def entry_def level_defs expressible_def named_level_def)
  moreover have "yaml_indexes message_yaml" by (simp add: message_yaml_def)
  moreover have "yaml_reads_back message_yaml (YSeq (map log_define_node [message_define ''f'']))"
    by (simp add: readable_def yaml_reads_back_def message_yaml_def table_yaml_def message_define_def log_define_node_def
      appender_define_node_def entry_def level_defs)
  ultimately show "logs_to_string message_yaml [message_define ''f''] = Inr ''- name: a''"
    "logs_from_string message_yaml ''- name: a'' = Inr [message_define ''f'']"
    using b by (simp_all add: message_define_def level_defs)
qed

section \<open>Properties\<close>

text \<open>
  C4: loading the variable \<open>logs\<close>. A text that denotes a set of definitions which can be made is accepted.
  When the set is the variable's own up to the files of appenders, nothing changes; otherwise the
  variable gets the set, and the configurations of the loggers are updated from the old set to the
  new one.
\<close>

theorem load_logs_updates_loggers:
  assumes w: "managed t w" "root_logs INFO w" and cv: "m_rwmutex cv = rw_free" "m_cbs cv = [(k, cb)]"
    and s: "logs_from_string Y s = Inr new" and new: "\<forall>d \<in> set new. valid_define d"
  shows "if defines_eq (m_val cv) new
    then logs_fromString Y E (Suc n) t s cv w = Inr (True, cv\<lparr>m_rwmutex := rw_free\<lparr>writer := Some t\<rparr>\<rparr>, Some w)
    else \<exists>w'. logs_fromString Y E (Suc n) t s cv w =
        Inr (True, cv\<lparr>m_rwmutex := rw_free\<lparr>writer := Some t\<rparr>, m_val := new\<rparr>, Some w')
      \<and> managed t w' \<and> conf w' = logs_update E (m_val cv) new (conf w)"
proof -
  have "\<exists>w'. on_logs_changed E (Suc n) t (m_val cv) new w = Inr w' \<and> managed t w' \<and> conf w' = logs_update E (m_val cv) new (conf w)"
    using on_logs_changed_effect [OF w new sorted_names [OF logs_from_string_sorted [OF s]]] by blast
  then obtain w' where w': "on_logs_changed E (Suc n) t (m_val cv) new w = Inr w'" "managed t w'"
    "conf w' = logs_update E (m_val cv) new (conf w)" by blast
  have l: "write_scope t (m_rwmutex cv) = Inr (rw_free\<lparr>writer := Some t\<rparr>)"
    using cv(1) by (simp add: lock_simps rw_free_def)
  show ?thesis
    using w' l s cv(2) by (simp add: logs_fromString_def fromString_def logs_casts_def setValue_def listener_throws_def Let_def)
qed

theorem load_logs_updates_loggers_witness:
  "\<exists>w' cv'. logs_fromString message_yaml env0 1 7 ''- name: a'' ((ConfigVar ''set'' ''logs'' [] [])\<lparr>m_cbs := [(0, ''f'')]\<rparr>) (root_world 7)
      = Inr (True, cv', Some w')
    \<and> m_val cv' = [message_define ''f''] \<and> conf w' ''a'' = Some (WARN, [Some (FileLogAppender ''f'' True, ERROR, Some ''%m'')])"
proof -
  let ?cv = "(ConfigVar ''set'' ''logs'' [] [])\<lparr>m_cbs := [(0, ''f'')]\<rparr>"
  have cv: "m_rwmutex ?cv = rw_free" "m_cbs ?cv = [(0, ''f'')]" by (simp_all add: ConfigVar_def)
  have "\<forall>d \<in> set [message_define ''f'']. valid_define d"
    by (simp add: valid_define_def valid_appender_def message_define_def message_pattern_valid)
  from load_logs_updates_loggers [OF root_world_managed root_world_logs cv message_back(2) this, where t = 7 and E = env0 and n = 0]
  show ?thesis
    by (auto simp: defines_eq_def ConfigVar_def logs_update_def defines_update_def same_define_def root_world_conf message_define_def
        define_conf_def appender_define_conf_def class_of_def env0_def)
qed

text \<open>
  The text of the variable. A set of definitions whose appenders have a formatter and a level of their
  own is read back from the text that the variable prints.
\<close>

theorem logs_round_trip:
  assumes ds: "sorted_wrt log_define_less ds" "\<forall>d \<in> set ds. expressible d \<and> readable Y d"
      "\<forall>d \<in> set ds. \<forall>a \<in> set (ld_appenders d). ad_formatter a \<noteq> [] \<and> ad_level a \<noteq> UNKNOW"
    and Y: "yaml_indexes Y" "yaml_reads_back Y (YSeq (map log_define_node ds))"
  shows "and_then (logs_to_string Y ds) (logs_from_string Y) = Inr ds"
  using logs_nodes_back [OF assms] by simp

theorem logs_round_trip_witness:
  "and_then (logs_to_string message_yaml [message_define ''f'']) (logs_from_string message_yaml) = Inr [message_define ''f'']"
proof (rule logs_round_trip)
  show "\<forall>d \<in> set [message_define ''f'']. expressible d \<and> readable message_yaml d"
    by (simp add: readable_def yaml_reads_back_def message_yaml_def table_yaml_def message_define_def log_define_node_def
      appender_define_node_def entry_def level_defs expressible_def named_level_def)
  show "yaml_reads_back message_yaml (YSeq (map log_define_node [message_define ''f'']))"
    by (simp add: yaml_reads_back_def message_yaml_def table_yaml_def message_define_def log_define_node_def
      appender_define_node_def entry_def level_defs)
qed (simp_all add: message_yaml_def message_define_def level_defs)

end
