(* ===== verification/Utils.thy ===== *)
theory Utils
  imports Prelude
begin

text \<open>
  \<open>ddg/utils.h\<close> and \<open>utils.cc\<close>: the text of a backtrace and the clocks. What \<open>::backtrace\<close>,
  \<open>backtrace_symbols\<close> and \<open>gettimeofday\<close> return are arguments.
\<close>

section \<open>Backtraces\<close>

text \<open>
  \<open>std::vector<std::string>::max_size()\<close> of a 64-bit libstdc++: beyond it \<open>resize\<close> throws.
\<close>

definition bt_max_size :: nat where "bt_max_size = (2 ^ 63 - 1) div 32"

text \<open>
  \<open>BackTrace\<close>: \<open>array\<close> are the names of the \<open>size\<close> entries of the array, of which the call of
  \<open>backtrace\<close> filled the first \<open>nptrs\<close>. \<open>nptrs - skip + 1\<close> is computed in \<open>size_t\<close>; the
  vector's elements that the loop does not reach stay empty. Without memory \<open>backtrace_symbols\<close> returns
  null (\<open>None\<close>); the \<open>std::system_error\<close> constructed then is not thrown, and the loop reads through the
  null pointer.
\<close>

fun bt_copy :: "string list \<Rightarrow> nat \<Rightarrow> nat \<Rightarrow> nat \<Rightarrow> string list \<Rightarrow> string list" where
  "bt_copy strings skip j 0 bt = bt"
| "bt_copy strings skip j (Suc m) bt = bt_copy strings skip (Suc j) m (bt[j - skip := strings ! j])"

definition BackTrace :: "string list option \<Rightarrow> u64 \<Rightarrow> u64 \<Rightarrow> string list result" where
  "BackTrace strings nptrs skip =
     (let n = unat (nptrs - skip + 1)
      in if n > bt_max_size then Inl (Exn ''length_error'')
         else case strings of
             None \<Rightarrow> if skip < nptrs then Inl (UB ''strings[j]'') else Inr (replicate n [])
           | Some names \<Rightarrow> Inr (bt_copy names (unat skip) (unat skip) (unat nptrs - unat skip) (replicate n [])))"

definition BacktraceToString :: "string list option \<Rightarrow> u64 \<Rightarrow> u64 \<Rightarrow> string \<Rightarrow> string result" where
  "BacktraceToString strings nptrs skip prefix =
     and_then (BackTrace strings nptrs skip) (\<lambda>bt. Inr (concat (map (\<lambda>s. prefix @ s @ [CHR 0x0A]) bt)))"

text \<open>
  \<open>ScopedMalloc\<close>, next to the set of the allocated blocks: \<open>malloc\<close> gives a fresh block or null, the
  destructor frees it; freeing what is not allocated is undefined.
\<close>

definition ScopedMalloc :: "(u64 \<Rightarrow> 'p set \<Rightarrow> 'p option) \<Rightarrow> u64 \<Rightarrow> 'p set \<Rightarrow> 'p option \<times> 'p set" where
  "ScopedMalloc malloc sz blocks = (case malloc sz blocks of None \<Rightarrow> (None, blocks) | Some p \<Rightarrow> (Some p, insert p blocks))"

definition ScopedMalloc_dtor :: "'p option \<Rightarrow> 'p set \<Rightarrow> 'p set result" where
  "ScopedMalloc_dtor vptr blocks = (case vptr of
     None \<Rightarrow> Inr blocks | Some p \<Rightarrow> if p \<in> blocks then Inr (blocks - {p}) else Inl (UB ''free''))"

definition getRawPointer :: "'p option \<Rightarrow> 'p option" where
  "getRawPointer vptr = vptr"

lemma ScopedMalloc_scope:
  assumes "\<And>p. malloc sz blocks = Some p \<Longrightarrow> p \<notin> blocks" and "ScopedMalloc malloc sz blocks = (vptr, blocks1)"
    and "case vptr of None \<Rightarrow> True | Some p \<Rightarrow> p \<notin> others" and "others \<inter> blocks = {}"
  shows "ScopedMalloc_dtor (getRawPointer vptr) (blocks1 \<union> others) = Inr (blocks \<union> others)"
  using assms by (auto simp: ScopedMalloc_def ScopedMalloc_dtor_def getRawPointer_def split: option.splits)

section \<open>The clocks\<close>

text \<open>
  \<open>gettimeofday\<close> gives \<open>(ret, tv_sec, tv_usec)\<close>, the latter two signed 64-bit numbers. The product
  with \<open>1000ul\<close> is unsigned.
\<close>

definition GetCurrentMicroSecond :: "int \<times> u64 \<times> u64 \<Rightarrow> u64 result" where
  "GetCurrentMicroSecond r = (case r of (ret, sec, usec) \<Rightarrow>
     if ret = 0 then Inl (Exn ''system_error'') else Inr (sec * 1000 * 1000 + usec))"

definition GetCurrentMilliSecond :: "int \<times> u64 \<times> u64 \<Rightarrow> u64 result" where
  "GetCurrentMilliSecond r = (case r of (ret, sec, usec) \<Rightarrow>
     if ret \<noteq> 0 then Inl (Exn ''system_error'') else Inr (sec * 1000 + usec div 1000))"

section \<open>Properties\<close>

lemma bt_copy_length [simp]: "length (bt_copy strings skip j m bt) = length bt"
  by (induction m arbitrary: j bt) simp_all

lemma bt_copy_nth:
  "skip \<le> j \<Longrightarrow> j - skip + m \<le> length bt \<Longrightarrow> i < length bt \<Longrightarrow>
    bt_copy strings skip j m bt ! i = (if j - skip \<le> i \<and> i < j - skip + m then strings ! (i + skip) else bt ! i)"
proof (induction m arbitrary: j bt)
  case (Suc m)
  then show ?case by (auto simp: nth_list_update Suc_diff_le)
qed auto

lemma bt_copy_all:
  assumes "skip \<le> n" and "n \<le> length strings"
  shows "bt_copy strings skip skip (n - skip) (replicate (Suc (n - skip)) []) = drop skip (take n strings) @ [[]]"
  by (rule nth_equalityI) (use assms in \<open>auto simp: bt_copy_nth nth_append add.commute simp del: replicate_Suc\<close>)

text \<open>
  The text of a backtrace. It has a line with the prefix for each frame after the skipped ones, and
  one line more, with the prefix only: the vector is made one element too long. When more frames are
  skipped than there are, all but one, the length wraps around and the call throws. When the names could
  not be allocated, the null pointer is read.
\<close>

theorem BacktraceToString_lines:
  assumes "unat nptrs \<le> length strings" and "length strings < 2 ^ 31" and "unat skip < 2 ^ 31"
  shows "(skip \<le> nptrs \<longrightarrow> BacktraceToString (Some strings) nptrs skip prefix =
        Inr (concat (map (\<lambda>s. prefix @ s @ [CHR 0x0A]) (drop (unat skip) (take (unat nptrs) strings))) @ prefix @ [CHR 0x0A]))
    \<and> (skip > nptrs + 1 \<longrightarrow> BacktraceToString (Some strings) nptrs skip prefix = Inl (Exn ''length_error''))
    \<and> (skip < nptrs \<longrightarrow> BacktraceToString None nptrs skip prefix = Inl (UB ''strings[j]''))"
proof (intro conjI impI)
  assume le: "skip \<le> nptrs"
  then have d: "unat (nptrs - skip) = unat nptrs - unat skip" by (simp add: unat_sub)
  have "unat (nptrs - skip + 1) = Suc (unat nptrs - unat skip)"
    using d assms by (subst unat_plus_simple [THEN iffD1]) (simp_all add: word_le_nat_alt unat_word_ariths)
  then show "BacktraceToString (Some strings) nptrs skip prefix =
        Inr (concat (map (\<lambda>s. prefix @ s @ [CHR 0x0A]) (drop (unat skip) (take (unat nptrs) strings))) @ prefix @ [CHR 0x0A])"
    using assms le bt_copy_all [of "unat skip" "unat nptrs" strings]
    by (simp add: BacktraceToString_def BackTrace_def bt_max_size_def word_le_nat_alt)
next
  assume lt: "skip < nptrs"
  then have "unat (nptrs - skip) = unat nptrs - unat skip" by (simp add: unat_sub)
  moreover have "unat (nptrs - skip + 1) \<le> unat (nptrs - skip) + 1"
    unfolding unat_word_ariths by (rule order_trans [OF mod_less_eq_dividend]) simp
  ultimately have "unat (nptrs - skip + 1) \<le> bt_max_size"
    using assms by (simp add: bt_max_size_def)
  then show "BacktraceToString None nptrs skip prefix = Inl (UB ''strings[j]'')"
    using lt by (simp add: BacktraceToString_def BackTrace_def)
next
  assume gt: "skip > nptrs + 1"
  have lt: "unat (nptrs + 1) < unat skip" using gt by (simp add: word_less_nat_alt)
  have "nptrs - skip + 1 = nptrs + 1 - skip" by simp
  also have "unat (nptrs + 1 - skip) = unat (nptrs + 1) + 2 ^ 64 - unat skip"
    using lt unat_sub_if' [of "nptrs + 1" skip] by simp
  finally have "unat (nptrs - skip + 1) > bt_max_size" using assms(3) by (simp add: bt_max_size_def)
  then show "BacktraceToString (Some strings) nptrs skip prefix = Inl (Exn ''length_error'')"
    by (simp add: BacktraceToString_def BackTrace_def)
qed

theorem BacktraceToString_lines_witness:
  "BacktraceToString (Some [''f'', ''g'']) 2 1 ''> '' = Inr (''> g'' @ [CHR 0x0A] @ ''> '' @ [CHR 0x0A])
    \<and> BacktraceToString (Some [''f'', ''g'']) 2 100 ''> '' = Inl (Exn ''length_error'')"
  using BacktraceToString_lines [of 2 "[''f'', ''g'']" 1 "''> ''"] BacktraceToString_lines [of 2 "[''f'', ''g'']" 100 "''> ''"]
  by simp

text \<open>
  The clocks. The clock of milliseconds throws when the call fails; the clock of microseconds
  throws when it succeeds, and returns a number when it fails. A time of at most \<open>2^54\<close> seconds is
  converted without overflow.
\<close>

theorem clocks_outcome:
  "GetCurrentMicroSecond (0, sec, usec) = Inl (Exn ''system_error'')
    \<and> GetCurrentMicroSecond (-1, sec, usec) = Inr (sec * 1000000 + usec)
    \<and> GetCurrentMilliSecond (-1, sec, usec) = Inl (Exn ''system_error'')
    \<and> (unat sec < 2 ^ 54 \<and> unat usec < 1000000 \<longrightarrow>
        (\<exists>ms. GetCurrentMilliSecond (0, sec, usec) = Inr ms \<and> unat ms = unat sec * 1000 + unat usec div 1000))"
proof -
  have "unat (sec * 1000 + usec div 1000) = unat sec * 1000 + unat usec div 1000" if "unat sec < 2 ^ 54" "unat usec < 1000000"
  proof -
    have "unat (sec * 1000) = unat sec * 1000" using that(1) by (simp add: unat_word_ariths)
    then show ?thesis using that by (simp add: unat_word_ariths unat_div)
  qed
  then show ?thesis by (auto simp: GetCurrentMicroSecond_def GetCurrentMilliSecond_def)
qed

theorem clocks_outcome_witness:
  "\<exists>ms. GetCurrentMilliSecond (0, 5, 7000) = Inr ms \<and> unat ms = 5007"
  using clocks_outcome [of 5 7000] by auto

end
