(* ===== verification/Macros.thy ===== *)
theory Macros
  imports LogsConfig Utils
begin

text \<open>
  \<open>ddg/macro.h\<close> and the macros of \<open>ddg/log.h\<close>: the logging statements as the macros expand them, and
  the assertions, which log through the logger \<open>system\<close> and abort.
\<close>

section \<open>The statements of the logging macros\<close>

text \<open>
  A logger expression is evaluated twice: for its level, and for the event. \<open>fill\<close> is what the rest of
  the statement does to the event before the wrapper's destructor logs it.
\<close>

type_synonym logger_expr = "log_manager \<Rightarrow> (lid \<times> log_manager) result"

definition DDG_LOG_ROOT :: "tid \<Rightarrow> logger_expr" where
  "DDG_LOG_ROOT t w = and_then (Manager_getRoot t w) (\<lambda>(r, w1). and_then (non_null ''null root'' r) (\<lambda>l. Inr (l, w1)))"

definition DDG_LOG_NAME :: "tid \<Rightarrow> string \<Rightarrow> logger_expr" where
  "DDG_LOG_NAME t name w = getLogger t name w"

definition DDG_LOG_REMOVE :: "tid \<Rightarrow> string \<Rightarrow> log_manager \<Rightarrow> log_manager result" where
  "DDG_LOG_REMOVE t name w = delLogger t name w"

definition log_statement ::
  "log_env \<Rightarrow> nat \<Rightarrow> tid \<Rightarrow> logger_expr \<Rightarrow> level \<Rightarrow> int \<Rightarrow> (log_event \<Rightarrow> log_event result) \<Rightarrow> log_manager \<Rightarrow> log_manager result" where
  "log_statement E n t logger level line fill w =
     and_then (logger w) (\<lambda>(l, w1).
     and_then (Logger_getLevel t l w1) (\<lambda>(lvl, w2).
     if lvl \<le> level
     then and_then (logger w2) (\<lambda>(l', w3).
          and_then (fill (LogEvent l' level (le_file E) line 0 t (le_fiber E) (le_time E))) (\<lambda>ev.
          LogEventWrap_dtor (le_strftime E) n t ev w3))
     else Inr w2))"

text \<open>
  \<open>DDG_LOG_LEVEL(logger, level) << txt\<close>; the text is computed only when the level admits it, and an
  exception of the computation leaves the statement before the event is made.
\<close>

definition put_text :: "string result \<Rightarrow> log_event \<Rightarrow> log_event result" where
  "put_text txt ev = and_then txt (\<lambda>s. Inr (ss_put s ev))"

definition DDG_LOG_DEBUG where "DDG_LOG_DEBUG E n t logger line txt = log_statement E n t logger DEBUG line (put_text txt)"
definition DDG_LOG_INFO where "DDG_LOG_INFO E n t logger line txt = log_statement E n t logger INFO line (put_text txt)"
definition DDG_LOG_WARN where "DDG_LOG_WARN E n t logger line txt = log_statement E n t logger WARN line (put_text txt)"
definition DDG_LOG_ERROR where "DDG_LOG_ERROR E n t logger line txt = log_statement E n t logger ERROR line (put_text txt)"
definition DDG_LOG_FATAL where "DDG_LOG_FATAL E n t logger line txt = log_statement E n t logger FATAL line (put_text txt)"

text \<open>\<open>getEvent()->format(fmt, \<dots>)\<close>, with what \<open>vasprintf\<close> gives.\<close>

definition DDG_LOG_FMT_LEVEL ::
  "log_env \<Rightarrow> nat \<Rightarrow> tid \<Rightarrow> logger_expr \<Rightarrow> level \<Rightarrow> int \<Rightarrow> string option \<Rightarrow> log_manager \<Rightarrow> log_manager result" where
  "DDG_LOG_FMT_LEVEL E n t logger level line printed =
     log_statement E n t logger level line (\<lambda>ev. Inr (LogEvent_format printed ev))"

definition DDG_LOG_FMT_DEBUG where "DDG_LOG_FMT_DEBUG E n t logger = DDG_LOG_FMT_LEVEL E n t logger DEBUG"
definition DDG_LOG_FMT_INFO where "DDG_LOG_FMT_INFO E n t logger = DDG_LOG_FMT_LEVEL E n t logger INFO"
definition DDG_LOG_FMT_WARN where "DDG_LOG_FMT_WARN E n t logger = DDG_LOG_FMT_LEVEL E n t logger WARN"
definition DDG_LOG_FMT_ERROR where "DDG_LOG_FMT_ERROR E n t logger = DDG_LOG_FMT_LEVEL E n t logger ERROR"
definition DDG_LOG_FMT_FATAL where "DDG_LOG_FMT_FATAL E n t logger = DDG_LOG_FMT_LEVEL E n t logger FATAL"

section \<open>Assertions\<close>

text \<open>
  \<open>DDG_ASSERT(x)\<close> and \<open>DDG_ASSERT_MSG(x, msg)\<close>: whether the program goes on, and the logging system
  afterwards. \<open>expr\<close> is the text of \<open>x\<close>, \<open>bt\<close> what \<open>BacktraceToString(100, 2, \<dots>)\<close> does.
\<close>

definition assertion_text :: "string \<Rightarrow> string \<Rightarrow> string \<Rightarrow> string" where
  "assertion_text expr msg b = ''ASSERTION: '' @ expr @ [CHR 0x0A] @ msg @ ''backtrace:'' @ [CHR 0x0A] @ b"

definition DDG_ASSERT ::
  "log_env \<Rightarrow> nat \<Rightarrow> tid \<Rightarrow> string \<Rightarrow> int \<Rightarrow> string result \<Rightarrow> bool \<Rightarrow> log_manager \<Rightarrow> unit result \<times> log_manager" where
  "DDG_ASSERT E n t expr line bt x w =
     (if \<not> x
      then (case DDG_LOG_ERROR E n t (DDG_LOG_NAME t ''system'') line (and_then bt (\<lambda>b. Inr (assertion_text expr [] b))) w of
              Inl e \<Rightarrow> (Inl e, w)
            | Inr w1 \<Rightarrow> (ddg_assert expr x, w1))
      else (Inr (), w))"

definition DDG_ASSERT_MSG ::
  "log_env \<Rightarrow> nat \<Rightarrow> tid \<Rightarrow> string \<Rightarrow> string \<Rightarrow> int \<Rightarrow> string result \<Rightarrow> bool \<Rightarrow> log_manager \<Rightarrow> unit result \<times> log_manager" where
  "DDG_ASSERT_MSG E n t expr msg line bt x w =
     (if \<not> x
      then (case DDG_LOG_ERROR E n t (DDG_LOG_NAME t ''system'') line
                (and_then bt (\<lambda>b. Inr (assertion_text expr (msg @ [CHR 0x0A]) b))) w of
              Inl e \<Rightarrow> (Inl e, w)
            | Inr w1 \<Rightarrow> (ddg_assert expr x, w1))
      else (Inr (), w))"

section \<open>Statements in a managed state\<close>

lemma DDG_LOG_ROOT_step:
  assumes "managed t w"
  shows "\<exists>r. mgr_root w = Some r \<and> DDG_LOG_ROOT t w = Inr (r, w\<lparr>mgr_rwmutex := (mgr_rwmutex w)\<lparr>writer := None\<rparr>\<rparr>)"
  using assms managedD(3) [OF assms] by (auto simp: managed_def DDG_LOG_ROOT_def Manager_getRoot_def usable_scopes)

text \<open>
  A statement on the root logger evaluates \<open>DDG_LOG_ROOT()\<close> twice, which does what evaluating it once does.
\<close>

lemma log_statement_root:
  assumes m: "managed t w"
  shows "log_statement E n t (DDG_LOG_ROOT t) level line (put_text (Inr txt)) w
    = and_then (DDG_LOG_ROOT t w) (\<lambda>(r, w1). LOG_AT E n t r level line txt w1)"
proof -
  let ?w1 = "w\<lparr>mgr_rwmutex := (mgr_rwmutex w)\<lparr>writer := None\<rparr>\<rparr>"
  obtain r where r: "mgr_root w = Some r" "DDG_LOG_ROOT t w = Inr (r, ?w1)" using DDG_LOG_ROOT_step [OF m] by blast
  obtain x where x: "lgs w r = Some x" using m r(1) by (auto simp: managed_def)
  let ?x = "x\<lparr>lg_rwmutex := (lg_rwmutex x)\<lparr>writer := None\<rparr>\<rparr>"
  have got: "Logger_getLevel t r ?w1 = Inr (lg_level x, put_lg r ?x ?w1)"
    unfolding Logger_getLevel_def by (rule guarded_usable(2)) (simp_all add: x managedD(4) [OF m x])
  have "mgr_rwmutex (put_lg r ?x ?w1) = (mgr_rwmutex w)\<lparr>writer := None\<rparr>" by simp
  then have "DDG_LOG_ROOT t (put_lg r ?x ?w1) = Inr (r, put_lg r ?x ?w1)"
    using r(1) managedD(3) [OF m] usable_scopes(2) [OF usable_upd(2) [OF managedD(3) [OF m]]]
    by (simp add: DDG_LOG_ROOT_def Manager_getRoot_def put_lg_def)
  then show ?thesis
    using r(2) got by (simp add: log_statement_def LOG_AT_def DDG_LOG_LEVEL_def put_text_def)
qed

text \<open>What \<open>getLogger\<close> leaves alone, and on what a text depends.\<close>

lemma getLogger_frame:
  "getLogger t name w = Inr (l, w') \<Longrightarrow> outs w' = outs w \<and> aps w' = aps w \<and> (\<forall>f. f \<noteq> next_obj w \<longrightarrow> fmts w' f = fmts w f)"
  by (auto simp: getLogger_def Logger_new_def Logger_setRoot_def lg_write_def put_lg_def put_fmt_def Let_def split: option.splits)

lemma prints_same:
  assumes "aps w' a = aps w a" and "\<And>x f. aps w a = Some x \<Longrightarrow> ap_formatter x = Some f \<Longrightarrow> fmts w' f = fmts w f"
    and "map_option lg_name (lgs w' (ev_logger ev)) = map_option lg_name (lgs w (ev_logger ev))"
  shows "prints tf level ev w' a = prints tf level ev w a"
proof -
  have "event_text tf level ev w' f = event_text tf level ev w f" if "aps w a = Some x" "ap_formatter x = Some f" for x f
    using assms(2) [OF that] assms(3) by (auto simp: event_text_def split: option.splits)
  then show ?thesis using assms(1) by (auto simp: prints_def split: option.splits appender_class.splits)
qed

text \<open>An error of the logger \<open>system\<close>, when it is not registered, is written by the root's appenders.\<close>

lemma system_error:
  fixes E :: log_env and line :: int and s :: string
  assumes m: "managed t w" and none: "mgr_loggers w ''system'' = None"
    and r: "mgr_root w = Some r" "lgs w r = Some y" "writer (lg_rwmutex y) = None" "lg_level y \<le> ERROR" "lg_appenders y \<noteq> []"
    and z: "lg_name z = ''system''"
  defines "ev \<equiv> ss_put s (LogEvent (Suc (next_obj w)) ERROR (le_file E) line 0 t (le_fiber E) (le_time E))"
  shows "\<exists>w'. DDG_LOG_ERROR E (Suc (Suc n)) t (DDG_LOG_NAME t ''system'') line (Inr s) w = Inr w' \<and> managed t w'
    \<and> outs w' = outs w @ concat (map (prints (le_strftime E) ERROR ev (put_lg (Suc (next_obj w)) z w)) (lg_appenders y))
    \<and> conf w' = (conf w)(''system'' \<mapsto> (DEBUG, []))"
proof -
  let ?l = "Suc (next_obj w)"
  obtain w1 x where 1: "getLogger t ''system'' w = Inr (?l, w1)" "managed t w1" "lgs w1 ?l = Some x" "lg_name x = ''system''"
      "lg_level x = DEBUG" "lg_appenders x = []" "lg_root x = mgr_root w" "mgr_loggers w1 = (mgr_loggers w)(''system'' \<mapsto> ?l)"
      "mgr_root w1 = mgr_root w" "\<forall>k. k \<noteq> ?l \<longrightarrow> lgs w1 k = lgs w k"
    using getLogger_new_step [OF m none] by blast
  have other: "conf w1 k = conf w k" if "k \<noteq> ''system''" for k
    using getLogger_step [OF m, of "''system''"] 1(1) that by auto
  let ?x = "x\<lparr>lg_rwmutex := (lg_rwmutex x)\<lparr>writer := None\<rparr>\<rparr>"
  let ?w2 = "put_lg ?l ?x w1"
  let ?w3 = "?w2\<lparr>mgr_rwmutex := (mgr_rwmutex w1)\<lparr>writer := Some t\<rparr>\<rparr>"
  have u: "usable t (lg_rwmutex x)" by (rule managedD(4) [OF 1(2,3)])
  have ok: "lg_ok w1 x" by (rule log_wf_lgD [OF managedD(1) [OF 1(2)] 1(3)])
  have got: "Logger_getLevel t ?l w1 = Inr (DEBUG, ?w2)"
    using guarded_usable(2) [OF 1(3) u, of lg_level] 1(5) by (simp add: Logger_getLevel_def)
  have m2: "managed t ?w2" by (rule managed_put_lg [OF 1(2,3)]) (use ok u in simp_all)
  have again: "getLogger t ''system'' ?w2 = Inr (?l, ?w3)" and m3: "managed t ?w3"
    using getLogger_old_step [OF m2, of "''system''" ?l] 1(8) by simp_all
  have ne: "r \<noteq> ?l" using log_wf_none [OF managedD(1) [OF m], of ?l] r(2) by auto
  have y: "lgs ?w3 r = Some y" using r(2) ne 1(10) by simp
  have q: "quiet {?l, r, ev_logger ev} ?w3"
    using y r(3) managedD(7,8) [OF m3] by (auto simp: quiet_def ran_def ev_def ss_put_def LogEvent_def)
  have can: "\<forall>a \<in> set (lg_appenders y). can_print ?w3 a"
    using log_wf_lgD [OF managedD(1) [OF m3] y] by (simp add: lg_ok_def)
  have l3: "lgs ?w3 ?l = Some ?x" by simp
  define os where "os = outs ?w3 @ concat (map (prints (le_strftime E) ERROR ev ?w3) (lg_appenders y))"
  have "Logger_log (le_strftime E) (Suc (Suc n)) t ?l ERROR ev ?w3 = Inr (?w3\<lparr>outs := os\<rparr>)"
    unfolding os_def
    by (rule Logger_log_root [OF q l3]) (use 1 y r can in \<open>simp_all add: ev_def ss_put_def LogEvent_def level_defs\<close>)
  moreover have "LogEventWrap_dtor (le_strftime E) (Suc (Suc n)) t ev ?w3 = Logger_log (le_strftime E) (Suc (Suc n)) t ?l ERROR ev ?w3"
    by (simp add: LogEventWrap_dtor_def ev_def ss_put_def LogEvent_def del: Logger_log.simps)
  ultimately have run: "DDG_LOG_ERROR E (Suc (Suc n)) t (DDG_LOG_NAME t ''system'') line (Inr s) w = Inr (?w3\<lparr>outs := os\<rparr>)"
    using 1(1) got again
    by (simp add: DDG_LOG_ERROR_def log_statement_def DDG_LOG_NAME_def put_text_def ev_def level_defs del: Logger_log.simps)
  have "conf (?w3\<lparr>outs := os\<rparr>) k = ((conf w)(''system'' \<mapsto> (DEBUG, []))) k" for k
  proof (cases "k = ''system''")
    case True
    then show ?thesis using 1(5,6,8) by (simp add: conf_def logger_conf_def)
  next
    case False
    have "conf ?w2 k = conf w1 k"
      using conf_leaves [OF 1(2) leaves_put_lg [of ?l "{}" w1 ?x] 1(3), where n = k] managedD(9) [OF 1(2), of k ?l] 1(3,4) False by auto
    moreover have "conf (?w3\<lparr>outs := os\<rparr>) k = conf ?w2 k" by (rule conf_frame) simp_all
    ultimately show ?thesis using other [OF False] False by simp
  qed
  then have c: "conf (?w3\<lparr>outs := os\<rparr>) = (conf w)(''system'' \<mapsto> (DEBUG, []))" by (rule ext)
  have "prints (le_strftime E) ERROR ev ?w3 a = prints (le_strftime E) ERROR ev (put_lg ?l z w) a" for a
  proof (rule prints_same)
    show "fmts ?w3 f = fmts (put_lg ?l z w) f" if "aps (put_lg ?l z w) a = Some x" "ap_formatter x = Some f" for x f
    proof -
      have "f \<noteq> next_obj w"
        using managed_fmt_exists [OF m, of a x f] log_wf_none [OF managedD(1) [OF m], of f] that by auto
      then show ?thesis using getLogger_frame [OF 1(1)] by simp
    qed
  qed (use getLogger_frame [OF 1(1)] 1(4) z in \<open>simp_all add: ev_def ss_put_def LogEvent_def\<close>)
  then have "map (prints (le_strftime E) ERROR ev ?w3) (lg_appenders y) = map (prints (le_strftime E) ERROR ev (put_lg ?l z w)) (lg_appenders y)"
    by (intro map_cong refl)
  moreover have "outs ?w3 = outs w" using getLogger_frame [OF 1(1)] by simp
  ultimately have "os = outs w @ concat (map (prints (le_strftime E) ERROR ev (put_lg ?l z w)) (lg_appenders y))"
    unfolding os_def by (rule arg_cong2 [where f = "\<lambda>o1 m. o1 @ concat m", OF _ _, rotated])
  then show ?thesis using run managed_mgr(4) [OF m3, of os] c by auto
qed

text \<open>The frames after the first two, each on a line with ten blanks, and a last line without a frame.\<close>

definition frame_lines :: "string list \<Rightarrow> string" where
  "frame_lines frames = concat (map (\<lambda>s. replicate 10 CHR '' '' @ s @ [CHR 0x0A]) (drop 2 frames @ [[]]))"

lemma frame_lines_backtrace:
  assumes "2 \<le> nptrs" "unat nptrs \<le> length strings" "length strings < 2 ^ 31"
  shows "BacktraceToString (Some strings) nptrs 2 (replicate 10 CHR '' '') = Inr (frame_lines (take (unat nptrs) strings))"
  using BacktraceToString_lines [of nptrs strings 2 "replicate 10 CHR '' ''"] assms by (simp add: frame_lines_def)

definition assertion_event :: "log_env \<Rightarrow> tid \<Rightarrow> string \<Rightarrow> int \<Rightarrow> string list \<Rightarrow> log_manager \<Rightarrow> log_event" where
  "assertion_event E t expr line frames w =
     ss_put (assertion_text expr [] (frame_lines frames))
       (LogEvent (Suc (next_obj w)) ERROR (le_file E) line 0 t (le_fiber E) (le_time E))"

section \<open>Properties\<close>

text \<open>
  C34: a failed assertion. With a logging system in which \<open>system\<close> is not registered yet, the text of the
  expression and one line for each frame of the backtrace but the first two (and a last line that is
  empty) are written to every appender of the root that takes errors, and then the process aborts.
  An assertion that holds does nothing at all.
\<close>

theorem DDG_ASSERT_outcome:
  assumes m: "managed t w" and none: "mgr_loggers w ''system'' = None"
    and r: "mgr_root w = Some r" "lgs w r = Some y" "writer (lg_rwmutex y) = None" "lg_level y \<le> ERROR" "lg_appenders y \<noteq> []"
    and z: "lg_name z = ''system''" and bt: "2 \<le> nptrs" "unat nptrs \<le> length strings" "length strings < 2 ^ 31"
  shows "DDG_ASSERT E n t expr line b True w = (Inr (), w)
    \<and> (\<exists>w'. DDG_ASSERT E (Suc (Suc n)) t expr line (BacktraceToString (Some strings) nptrs 2 (replicate 10 CHR '' '')) False w
          = (Inl (AssertFail expr), w')
      \<and> outs w' = outs w @ concat (map (prints (le_strftime E) ERROR
            (assertion_event E t expr line (take (unat nptrs) strings) w) (put_lg (Suc (next_obj w)) z w)) (lg_appenders y)))"
proof (intro conjI)
  obtain w' where "DDG_LOG_ERROR E (Suc (Suc n)) t (DDG_LOG_NAME t ''system'') line
        (Inr (assertion_text expr [] (frame_lines (take (unat nptrs) strings)))) w = Inr w'"
      "outs w' = outs w @ concat (map (prints (le_strftime E) ERROR (assertion_event E t expr line (take (unat nptrs) strings) w) (put_lg (Suc (next_obj w)) z w)) (lg_appenders y))"
    unfolding assertion_event_def using system_error [OF m none r z] by blast
  then show "\<exists>w'. DDG_ASSERT E (Suc (Suc n)) t expr line (BacktraceToString (Some strings) nptrs 2 (replicate 10 CHR '' '')) False w
        = (Inl (AssertFail expr), w')
      \<and> outs w' = outs w @ concat (map (prints (le_strftime E) ERROR
          (assertion_event E t expr line (take (unat nptrs) strings) w) (put_lg (Suc (next_obj w)) z w)) (lg_appenders y))"
    unfolding DDG_ASSERT_def frame_lines_backtrace [OF bt] by simp
qed (simp add: DDG_ASSERT_def)

theorem DDG_ASSERT_outcome_witness:
  "\<exists>w'. DDG_ASSERT env0 2 7 ''n > 0'' 17 (BacktraceToString (Some [''f'', ''g'', ''h'']) 3 2 (replicate 10 CHR '' '')) False (root_world 7)
      = (Inl (AssertFail ''n > 0''), w') \<and> outs w' = [(ToStdout, ''now'' @ [CHR 0x09] @ ''7'' @ [CHR 0x09] @ ''0'' @ [CHR 0x09] @ ''[ERROR]'' @ [CHR 0x09]
        @ ''<log.cc:17>'' @ [CHR 0x09] @ ''ASSERTION: n > 0'' @ [CHR 0x0A] @ ''backtrace:'' @ [CHR 0x0A]
        @ ''          h'' @ [CHR 0x0A] @ ''          '' @ [CHR 0x0A] @ [CHR 0x0A])]"
proof -
  let ?y = "\<lparr>lg_rwmutex = rw_free, lg_name = ''root'', lg_level = DEBUG, lg_appenders = [2], lg_formatter = Some 0, lg_root = None\<rparr>"
  let ?z = "?y\<lparr>lg_name := ''system''\<rparr>"
  have r: "mgr_loggers (root_world 7) ''system'' = None" "mgr_root (root_world 7) = Some 1" "lgs (root_world 7) 1 = Some ?y"
    "writer (lg_rwmutex ?y) = None" "lg_level ?y \<le> ERROR" "lg_appenders ?y \<noteq> []" "lg_name ?z = ''system''"
    by (simp_all add: root_world_def rw_free_def level_defs)
  have n: "2 \<le> (3 :: u64)" "unat (3 :: u64) \<le> length [''f'', ''g'', ''h'']" "length [''f'', ''g'', ''h''] < 2 ^ 31" by simp_all
  have frames: "take (unat (3 :: u64)) [''f'', ''g'', ''h''] = [''f'', ''g'', ''h'']" by simp
  have lines: "frame_lines [''f'', ''g'', ''h''] = ''          h'' @ [CHR 0x0A] @ ''          '' @ [CHR 0x0A]"
    by (simp add: frame_lines_def numeral_2_eq_2 eval_nat_numeral)
  have ev: "assertion_event env0 7 ''n > 0'' 17 [''f'', ''g'', ''h''] (root_world 7) = \<lparr>ev_logger = 4, ev_level = ERROR, ev_file = ''log.cc'', ev_line = 17,
      ev_elapse = 0, ev_threadId = 7, ev_fiberId = 0, ev_time = 0, ev_ss = assertion_text ''n > 0'' [] (frame_lines [''f'', ''g'', ''h''])\<rparr>"
    by (simp add: assertion_event_def ss_put_def LogEvent_def env0_def root_world_def)
  have "prints (le_strftime env0) ERROR (assertion_event env0 7 ''n > 0'' 17 [''f'', ''g'', ''h''] (root_world 7))
      (put_lg (Suc (next_obj (root_world 7))) ?z (root_world 7)) 2
    = [(ToStdout, ''now'' @ [CHR 0x09] @ ''7'' @ [CHR 0x09] @ ''0'' @ [CHR 0x09] @ ''[ERROR]'' @ [CHR 0x09]
        @ ''<log.cc:17>'' @ [CHR 0x09] @ assertion_text ''n > 0'' [] (frame_lines [''f'', ''g'', ''h'']) @ [CHR 0x0A])]"
    unfolding ev
    by (simp add: prints_def event_text_def root_world_def env0_def default_formatter_def default_tokens_def s_format_items_def
      level_defs LogLevel_ToString_def dec_int_def dec.simps char_of_def bit_Suc_0_iff)
  moreover have "outs (root_world 7) = []" "lg_appenders ?y = [2]" by (simp_all add: root_world_def)
  moreover obtain w' where w': "DDG_ASSERT env0 (Suc (Suc 0)) 7 ''n > 0'' 17 (BacktraceToString (Some [''f'', ''g'', ''h'']) 3 2 (replicate 10 CHR '' '')) False (root_world 7)
        = (Inl (AssertFail ''n > 0''), w')"
      "outs w' = outs (root_world 7) @ concat (map (prints (le_strftime env0) ERROR (assertion_event env0 7 ''n > 0'' 17 [''f'', ''g'', ''h''] (root_world 7))
        (put_lg (Suc (next_obj (root_world 7))) ?z (root_world 7))) (lg_appenders ?y))"
    using DDG_ASSERT_outcome [OF root_world_managed r n, of env0 0 "''n > 0''" 17 "Inr []", unfolded frames] by blast
  ultimately have "outs w' = [(ToStdout, ''now'' @ [CHR 0x09] @ ''7'' @ [CHR 0x09] @ ''0'' @ [CHR 0x09] @ ''[ERROR]'' @ [CHR 0x09]
        @ ''<log.cc:17>'' @ [CHR 0x09] @ assertion_text ''n > 0'' [] (frame_lines [''f'', ''g'', ''h'']) @ [CHR 0x0A])]"
    by simp
  then show ?thesis
    using w'(1) by (intro exI [of _ w']) (simp add: numeral_2_eq_2 assertion_text_def lines del: replicate.simps)
qed

end
