(* ===== verification/Startup.thy ===== *)
theory Startup
  imports Macros
begin

text \<open>
  \<open>ddg/singleton.h\<close>, the instance \<open>LoggerMgr\<close> of \<open>ddg/log.h\<close>, the diagnostics of \<open>Config::Lookup\<close>, and
  the static initialisers of the library (\<open>g_logger\<close> in \<open>mutex.cc\<close>, \<open>fiber.cc\<close>, \<open>scheduler.cc\<close>, \<open>iomanager.cc\<close>,
  \<open>thread.cc\<close>, and \<open>g_fiber_stack_size\<close> in \<open>fiber.cc\<close>), which run before \<open>main\<close> in an order
  that the link decides.
\<close>

section \<open>Singletons\<close>

text \<open>
  The static local variable of \<open>Singleton::GetInstance\<close>, next to the rest of the program's state. It is
  made by the first call; a constructor that throws leaves it unmade; a call while it is being made
  is undefined. \<open>SingletonPtr::GetInstance\<close> returns a copy of the pointer to such an object.
\<close>

datatype 'a static = NotMade | Making | Made 'a

definition Singleton_GetInstance :: "('a static \<Rightarrow> 's \<Rightarrow> ('a \<times> 's) result) \<Rightarrow> 'a static \<Rightarrow> 's \<Rightarrow> ('a \<times> 's) result \<times> 'a static" where
  "Singleton_GetInstance mk v s = (case v of
     Made x \<Rightarrow> (Inr (x, s), v)
   | Making \<Rightarrow> (Inl (UB ''recursive initialization''), v)
   | NotMade \<Rightarrow> (case mk Making s of Inl e \<Rightarrow> (Inl e, NotMade) | Inr (x, s') \<Rightarrow> (Inr (x, s'), Made x)))"

definition SingletonPtr_GetInstance :: "('a static \<Rightarrow> 's \<Rightarrow> ('a \<times> 's) result) \<Rightarrow> 'a static \<Rightarrow> 's \<Rightarrow> ('a \<times> 's) result \<times> 'a static" where
  "SingletonPtr_GetInstance make_shared v s = Singleton_GetInstance make_shared v s"

section \<open>The diagnostics of lookups\<close>

text \<open>The messages that \<open>Lookup\<close> logs with \<open>DDG_LOG_ROOT()\<close>, with level and line, once it has the registry's lock.\<close>

definition Lookup_messages :: "'v casts \<Rightarrow> string \<Rightarrow> string \<Rightarrow> ('v, 'cb) config \<Rightarrow> (level \<times> int \<times> string result) list" where
  "Lookup_messages casts ty name cfg =
     (let invalid = (if valid_name name then [] else [(ERROR, 202, Inr (''Config invalid name: '' @ name))])
      in case Option.bind (s_datas cfg name) (cvars cfg) of
           None \<Rightarrow> invalid
         | Some cv \<Rightarrow>
             if cv_type cv = ty then [(INFO, 191, Inr (''Lookup name: '' @ name @ '' exists''))]
             else (ERROR, 194, and_then (toString casts cv) (\<lambda>s. Inr (''Lookup name = '' @ name @ '' exists but type not '' @ ty
                    @ '' real_type = '' @ cv_type cv @ '' '' @ s))) # invalid)"

text \<open>The state of the program: the registry and the manager. \<open>inst\<close> is \<open>LoggerMgr::GetInstance\<close>.\<close>

type_synonym ('v, 'cb) instance_call =
  "log_manager static \<Rightarrow> ('v, 'cb) config \<Rightarrow> (log_manager \<times> ('v, 'cb) config) result \<times> log_manager static"
type_synonym ('v, 'cb) program = "log_manager static \<times> ('v, 'cb) config"

fun log_messages ::
  "('v, 'cb) instance_call \<Rightarrow> log_env \<Rightarrow> nat \<Rightarrow> tid \<Rightarrow> (level \<times> int \<times> string result) list \<Rightarrow> ('v, 'cb) program \<Rightarrow> ('v, 'cb) program result" where
  "log_messages inst E n t [] st = Inr st"
| "log_messages inst E n t ((level, line, s) # ms) st =
     and_then (fst (inst (fst st) (snd st))) (\<lambda>(w, cfg).
     and_then (log_statement E n t (DDG_LOG_ROOT t) level line (put_text s) w) (\<lambda>w1.
     log_messages inst E n t ms (Made w1, cfg)))"

definition Lookup_logged ::
  "('v, 'cb) instance_call \<Rightarrow> log_env \<Rightarrow> nat \<Rightarrow> tid \<Rightarrow> 'v casts \<Rightarrow> string \<Rightarrow> string \<Rightarrow> 'v \<Rightarrow> string \<Rightarrow> ('v, 'cb) program \<Rightarrow>
   (nat result \<times> ('v, 'cb) program) result" where
  "Lookup_logged inst E n t casts ty name default_value description st =
     and_then (write_scope t (cfg_mutex (snd st))) (\<lambda>l.
     and_then (log_messages inst E n t (Lookup_messages casts ty name (snd st)) (fst st, (snd st)\<lparr>cfg_mutex := l\<rparr>)) (\<lambda>(v1, cfg1).
     case Lookup t ty name default_value description cfg1 of (r, cfg2) \<Rightarrow> Inr (r, (v1, cfg2))))"

section \<open>The instance of the manager\<close>

text \<open>
  The constructor of the manager as \<open>LoggerMgr::GetInstance\<close> runs it, with the state of the static
  variable: what the constructor's lookup of \<open>logs\<close> has to log asks for the instance again.
\<close>

definition LoggerMgr_make ::
  "log_env \<Rightarrow> nat \<Rightarrow> tid \<Rightarrow> 'v casts \<Rightarrow> 'v \<Rightarrow> 'cb \<Rightarrow> log_manager static \<Rightarrow> ('v, 'cb) config \<Rightarrow> (log_manager \<times> ('v, 'cb) config) result" where
  "LoggerMgr_make E n t casts no_defines func v cfg =
     and_then (write_scope t (cfg_mutex cfg)) (\<lambda>l.
     and_then (log_messages (Singleton_GetInstance (\<lambda>v cfg. Inl OutOfFuel)) E n t
         (Lookup_messages casts ''std::set<LogDefine>'' ''logs'' cfg) (v, cfg\<lparr>cfg_mutex := l\<rparr>)) (\<lambda>(v1, cfg1).
     and_then (Manager_new E n t no_defines func cfg1) (\<lambda>(cfg2, w). Inr (w, cfg2))))"

definition LoggerMgr :: "log_env \<Rightarrow> nat \<Rightarrow> tid \<Rightarrow> 'v casts \<Rightarrow> 'v \<Rightarrow> 'cb \<Rightarrow> ('v, 'cb) instance_call" where
  "LoggerMgr E n t casts no_defines func = Singleton_GetInstance (LoggerMgr_make E n t casts no_defines func)"

section \<open>The static initialisers\<close>

text \<open>\<open>static Logger::ptr g_logger = DDG_LOG_ROOT()\<close>.\<close>

definition init_logger ::
  "log_env \<Rightarrow> nat \<Rightarrow> tid \<Rightarrow> 'v casts \<Rightarrow> 'v \<Rightarrow> 'cb \<Rightarrow> ('v, 'cb) program \<Rightarrow> (lid \<times> ('v, 'cb) program) result" where
  "init_logger E n t casts no_defines func st =
     and_then (fst (LoggerMgr E n t casts no_defines func (fst st) (snd st))) (\<lambda>(w, cfg).
     and_then (DDG_LOG_ROOT t w) (\<lambda>(r, w1). Inr (r, (Made w1, cfg))))"

text \<open>\<open>g_fiber_stack_size\<close>, a variable with the default of 128 KiB; \<open>num\<close> makes it a value.\<close>

definition init_stack_size ::
  "log_env \<Rightarrow> nat \<Rightarrow> tid \<Rightarrow> 'v casts \<Rightarrow> 'v \<Rightarrow> 'cb \<Rightarrow> (u32 \<Rightarrow> 'v) \<Rightarrow> ('v, 'cb) program \<Rightarrow> (nat \<times> ('v, 'cb) program) result" where
  "init_stack_size E n t casts no_defines func num st =
     and_then (Lookup_logged (LoggerMgr E n t casts no_defines func) E n t casts ''unsigned int'' ''fiber.stack_size''
         (num (128 * 1024)) ''fiber stack size'' st) (\<lambda>(r, st1).
     and_then r (\<lambda>p. Inr (p, st1)))"

datatype initialiser = InitLogger | InitStackSize

fun run_initialisers ::
  "log_env \<Rightarrow> nat \<Rightarrow> tid \<Rightarrow> 'v casts \<Rightarrow> 'v \<Rightarrow> 'cb \<Rightarrow> (u32 \<Rightarrow> 'v) \<Rightarrow> initialiser list \<Rightarrow> ('v, 'cb) program \<Rightarrow> ('v, 'cb) program result" where
  "run_initialisers E n t casts no_defines func num [] st = Inr st"
| "run_initialisers E n t casts no_defines func num (InitLogger # is) st =
     and_then (init_logger E n t casts no_defines func st) (\<lambda>(l, st1). run_initialisers E n t casts no_defines func num is st1)"
| "run_initialisers E n t casts no_defines func num (InitStackSize # is) st =
     and_then (init_stack_size E n t casts no_defines func num st) (\<lambda>(p, st1). run_initialisers E n t casts no_defines func num is st1)"

section \<open>What the initialisers establish\<close>

text \<open>
  The states the initialisers go through: \<open>made\<close> and \<open>stk\<close> say whether some initialiser of each kind has run.
\<close>

definition new_var :: "tid \<Rightarrow> string \<Rightarrow> ('v, 'cb) config_var \<Rightarrow> ('v, 'cb) config \<Rightarrow> ('v, 'cb) config" where
  "new_var t name cv cfg = cfg\<lparr>s_datas := (s_datas cfg)(name \<mapsto> next_cvar cfg), cfg_mutex := (cfg_mutex cfg)\<lparr>writer := Some t\<rparr>,
     cvars := (cvars cfg)(next_cvar cfg \<mapsto> cv), next_cvar := next_cvar cfg + 1\<rparr>"

definition names_point :: "('v, 'cb) config \<Rightarrow> bool" where
  "names_point cfg \<longleftrightarrow> (\<forall>n p. s_datas cfg n = Some p \<longrightarrow> p < next_cvar cfg)"

definition logs_registered :: "'v \<Rightarrow> 'cb \<Rightarrow> ('v, 'cb) config \<Rightarrow> bool" where
  "logs_registered no_defines func cfg \<longleftrightarrow>
     (\<exists>p cv. s_datas cfg ''logs'' = Some p \<and> cvars cfg p = Some cv \<and> m_val cv = no_defines \<and> m_cbs cv = [(0, func)])"

definition stack_size_registered :: "'v \<Rightarrow> ('v, 'cb) config \<Rightarrow> bool" where
  "stack_size_registered sz cfg \<longleftrightarrow>
     (\<exists>p cv. s_datas cfg ''fiber.stack_size'' = Some p \<and> cvars cfg p = Some cv \<and> m_val cv = sz)"

definition initial_loggers :: "tid \<Rightarrow> log_manager \<Rightarrow> bool" where
  "initial_loggers t w \<longleftrightarrow> managed t w \<and> conf w = [''root'' \<mapsto> (DEBUG, [Some (StdoutLogAppender, DEBUG, Some default_pattern)])]"

definition started :: "tid \<Rightarrow> 'v \<Rightarrow> 'cb \<Rightarrow> 'v \<Rightarrow> bool \<Rightarrow> bool \<Rightarrow> ('v, 'cb) program \<Rightarrow> bool" where
  "started t no_defines func sz made stk st \<longleftrightarrow>
     usable t (cfg_mutex (snd st)) \<and> (made \<or> stk \<longrightarrow> writer (cfg_mutex (snd st)) = Some t)
   \<and> names_point (snd st)
   \<and> dom (s_datas (snd st)) = (if made then {''logs''} else {}) \<union> (if stk then {''fiber.stack_size''} else {})
   \<and> (if made then logs_registered no_defines func (snd st) \<and> (\<exists>w. fst st = Made w \<and> initial_loggers t w) else fst st = NotMade)
   \<and> (stk \<longrightarrow> stack_size_registered sz (snd st))"

lemma new_var_simps [simp]:
  "s_datas (new_var t name cv cfg) = (s_datas cfg)(name \<mapsto> next_cvar cfg)" "cfg_mutex (new_var t name cv cfg) = (cfg_mutex cfg)\<lparr>writer := Some t\<rparr>"
  "cvars (new_var t name cv cfg) = (cvars cfg)(next_cvar cfg \<mapsto> cv)"
  by (simp_all add: new_var_def)

lemma names_point_new: "names_point cfg \<Longrightarrow> names_point (new_var t name cv cfg)"
  by (auto simp: names_point_def new_var_def less_Suc_eq)

lemma logs_registered_new:
  "logs_registered nd func cfg \<Longrightarrow> names_point cfg \<Longrightarrow> name \<noteq> ''logs'' \<Longrightarrow> logs_registered nd func (new_var t name cv cfg)"
  unfolding logs_registered_def names_point_def by fastforce

lemma stack_size_registered_new:
  "stack_size_registered sz cfg \<Longrightarrow> names_point cfg \<Longrightarrow> name \<noteq> ''fiber.stack_size'' \<Longrightarrow> stack_size_registered sz (new_var t name cv cfg)"
  unfolding stack_size_registered_def names_point_def by fastforce

lemma startedD:
  assumes "started t nd func sz made stk st"
  shows "usable t (cfg_mutex (snd st))" "names_point (snd st)" "s_datas (snd st) ''logs'' = None \<longleftrightarrow> \<not> made"
    "s_datas (snd st) ''fiber.stack_size'' = None \<longleftrightarrow> \<not> stk"
    "dom (s_datas (snd st)) = (if made then {''logs''} else {}) \<union> (if stk then {''fiber.stack_size''} else {})"
    "made \<Longrightarrow> logs_registered nd func (snd st)" "made \<Longrightarrow> \<exists>w. fst st = Made w \<and> initial_loggers t w" "\<not> made \<Longrightarrow> fst st = NotMade"
    "stk \<Longrightarrow> stack_size_registered sz (snd st)"
proof -
  show d: "dom (s_datas (snd st)) = (if made then {''logs''} else {}) \<union> (if stk then {''fiber.stack_size''} else {})"
    using assms by (simp add: started_def)
  have "s_datas (snd st) n = None \<longleftrightarrow> n \<notin> dom (s_datas (snd st))" for n by blast
  then show "s_datas (snd st) ''logs'' = None \<longleftrightarrow> \<not> made" "s_datas (snd st) ''fiber.stack_size'' = None \<longleftrightarrow> \<not> stk"
    unfolding d by simp_all
qed (use assms in \<open>simp_all add: started_def\<close>)

lemma no_messages: "s_datas cfg name = None \<Longrightarrow> valid_name name \<Longrightarrow> Lookup_messages casts ty name cfg = []"
  by (simp add: Lookup_messages_def)

lemma valid_stack_size: "valid_name ''fiber.stack_size''"
  by (simp add: valid_name_def kValidSet_def)

lemma DDG_LOG_ROOT_initial:
  assumes "initial_loggers t w"
  shows "\<exists>r w'. DDG_LOG_ROOT t w = Inr (r, w') \<and> initial_loggers t w'"
proof -
  have m: "managed t w" using assms by (simp add: initial_loggers_def)
  let ?w = "w\<lparr>mgr_rwmutex := (mgr_rwmutex w)\<lparr>writer := None\<rparr>\<rparr>"
  have "managed t ?w" by (rule managed_mgr(1) [OF m]) (simp add: managedD(3) [OF m])
  moreover have "conf ?w = conf w" by (rule ext, rule conf_frame) simp_all
  ultimately show ?thesis using DDG_LOG_ROOT_step [OF m] assms by (auto simp: initial_loggers_def)
qed

text \<open>The first call of \<open>GetInstance\<close> with a configuration in which \<open>logs\<close> is not registered.\<close>

lemma LoggerMgr_first:
  assumes u: "usable t (cfg_mutex cfg)" and none: "s_datas cfg ''logs'' = None"
  shows "\<exists>w cv. LoggerMgr E (Suc n) t casts nd func NotMade cfg = (Inr (w, new_var t ''logs'' cv cfg), Made w)
    \<and> m_val cv = nd \<and> m_cbs cv = [(0, func)] \<and> initial_loggers t w"
proof -
  let ?cfg = "cfg\<lparr>cfg_mutex := (cfg_mutex cfg)\<lparr>writer := Some t\<rparr>\<rparr>"
  have u': "usable t (cfg_mutex ?cfg)" using u by simp
  have none': "s_datas ?cfg ''logs'' = None" using none by simp
  obtain w cv where w: "Manager_new E (Suc n) t nd func ?cfg = Inr (new_var t ''logs'' cv ?cfg, w)"
      "m_val cv = nd" "m_cbs cv = [(0, func)]" "initial_loggers t w"
    using Manager_new_run [OF u' none', of E n nd func] unfolding initial_loggers_def new_var_def by blast
  have "LoggerMgr_make E (Suc n) t casts nd func Making cfg = and_then (Manager_new E (Suc n) t nd func ?cfg) (\<lambda>(cfg2, w). Inr (w, cfg2))"
    using u by (simp add: LoggerMgr_make_def usable_scopes no_messages [OF none valid_logs])
  then show ?thesis
    using w by (intro exI [of _ w] exI [of _ cv]) (simp add: LoggerMgr_def Singleton_GetInstance_def new_var_def)
qed

lemma init_logger_step:
  assumes st: "started t nd func sz made stk st"
  shows "\<exists>l st'. init_logger E (Suc n) t casts nd func st = Inr (l, st') \<and> started t nd func sz True stk st'"
proof (cases made)
  case True
  then obtain w where w: "fst st = Made w" "initial_loggers t w" using st by (auto simp: started_def)
  obtain r w' where "DDG_LOG_ROOT t w = Inr (r, w')" "initial_loggers t w'" using DDG_LOG_ROOT_initial [OF w(2)] by blast
  moreover have "started t nd func sz True stk (Made w', snd st)"
    using st True calculation(2) by (simp add: started_def)
  ultimately show ?thesis
    using w(1) by (intro exI [of _ r] exI [of _ "(Made w', snd st)"]) (simp add: init_logger_def LoggerMgr_def Singleton_GetInstance_def)
next
  case False
  let ?cfg = "snd st"
  have none: "s_datas ?cfg ''logs'' = None" and v: "fst st = NotMade" and u: "usable t (cfg_mutex ?cfg)"
    using startedD [OF st] False by simp_all
  obtain w cv where w: "LoggerMgr E (Suc n) t casts nd func NotMade ?cfg = (Inr (w, new_var t ''logs'' cv ?cfg), Made w)"
      "m_val cv = nd" "m_cbs cv = [(0, func)]" "initial_loggers t w"
    using LoggerMgr_first [OF u none] by blast
  obtain r w' where r: "DDG_LOG_ROOT t w = Inr (r, w')" "initial_loggers t w'" using DDG_LOG_ROOT_initial [OF w(4)] by blast
  have "logs_registered nd func (new_var t ''logs'' cv ?cfg)" using w(2,3) by (simp add: logs_registered_def)
  moreover have "stk \<longrightarrow> stack_size_registered sz (new_var t ''logs'' cv ?cfg)"
    using startedD(9,2) [OF st] stack_size_registered_new [of sz ?cfg "''logs''"] by simp
  moreover have "dom (s_datas (new_var t ''logs'' cv ?cfg)) = {''logs''} \<union> (if stk then {''fiber.stack_size''} else {})"
    using startedD(5) [OF st] False by (simp add: new_var_def)
  ultimately have "started t nd func sz True stk (Made w', new_var t ''logs'' cv ?cfg)"
    using u r(2) names_point_new [OF startedD(2) [OF st]] unfolding started_def by simp
  then show ?thesis
    using v w(1) r(1) by (intro exI [of _ r] exI [of _ "(Made w', new_var t ''logs'' cv ?cfg)"]) (simp add: init_logger_def)
qed

lemma init_stack_size_step:
  assumes st: "started t nd func (num (128 * 1024)) made False st"
  shows "\<exists>p st'. init_stack_size E n t casts nd func num st = Inr (p, st') \<and> started t nd func (num (128 * 1024)) made True st'"
proof -
  let ?cfg = "snd st" and ?sz = "num (128 * 1024)"
  let ?cv = "ConfigVar ''unsigned int'' ''fiber.stack_size'' ?sz ''fiber stack size''"
  let ?cfg' = "new_var t ''fiber.stack_size'' ?cv ?cfg"
  have none: "s_datas ?cfg ''fiber.stack_size'' = None" and u: "usable t (cfg_mutex ?cfg)"
    using startedD [OF st] by simp_all
  have run: "init_stack_size E n t casts nd func num st = Inr (next_cvar ?cfg, (fst st, ?cfg'))"
    using u none new_lookup [of t "?cfg\<lparr>cfg_mutex := (cfg_mutex ?cfg)\<lparr>writer := Some t\<rparr>\<rparr>" "''fiber.stack_size''"
        "''unsigned int''" ?sz "''fiber stack size''", OF _ _ valid_stack_size]
    by (simp add: init_stack_size_def Lookup_logged_def usable_scopes no_messages [OF none valid_stack_size] new_var_def)
  have "stack_size_registered ?sz ?cfg'" by (simp add: stack_size_registered_def ConfigVar_def)
  moreover have "made \<longrightarrow> logs_registered nd func ?cfg'"
    using startedD(6,2) [OF st] logs_registered_new [of nd func ?cfg "''fiber.stack_size''"] by simp
  moreover have "dom (s_datas ?cfg') = (if made then {''logs''} else {}) \<union> {''fiber.stack_size''}"
    using startedD(5) [OF st] by (auto simp: new_var_def)
  moreover have "if made then \<exists>w. fst st = Made w \<and> initial_loggers t w else fst st = NotMade"
    using startedD(7,8) [OF st] by simp
  ultimately have "started t nd func ?sz made True (fst st, ?cfg')"
    using u names_point_new [OF startedD(2) [OF st]] unfolding started_def by (cases made) simp_all
  then show ?thesis using run by blast
qed

lemma run_initialisers_step:
  assumes "started t nd func (num (128 * 1024)) made stk st" and "count_list is InitStackSize \<le> (if stk then 0 else 1)"
  shows "\<exists>st'. run_initialisers E (Suc n) t casts nd func num is st = Inr st'
    \<and> started t nd func (num (128 * 1024)) (made \<or> InitLogger \<in> set is) (stk \<or> InitStackSize \<in> set is) st'"
  using assms
proof (induction "is" arbitrary: st made stk)
  case (Cons i "is")
  show ?case
  proof (cases i)
    case InitLogger
    obtain l st1 where 1: "init_logger E (Suc n) t casts nd func st = Inr (l, st1)" "started t nd func (num (128 * 1024)) True stk st1"
      using init_logger_step [OF Cons.prems(1)] by blast
    show ?thesis using Cons.IH [OF 1(2)] Cons.prems(2) 1(1) InitLogger by auto
  next
    case InitStackSize
    then have stk: "\<not> stk" and rest: "count_list is InitStackSize \<le> 0" using Cons.prems(2) by (simp_all split: if_splits)
    obtain p st1 where 1: "init_stack_size E (Suc n) t casts nd func num st = Inr (p, st1)" "started t nd func (num (128 * 1024)) made True st1"
      using init_stack_size_step [of t nd func num made st E "Suc n" casts] Cons.prems(1) stk by auto
    show ?thesis using Cons.IH [OF 1(2)] rest 1(1) InitStackSize by auto
  qed
qed simp

lemma initialised:
  assumes "InitLogger \<in> set is" and "count_list is InitStackSize = 1"
  shows "\<exists>w cfg. run_initialisers E (Suc n) t casts nd func num is (NotMade, no_config) = Inr (Made w, cfg) \<and> initial_loggers t w
    \<and> dom (s_datas cfg) = {''logs'', ''fiber.stack_size''} \<and> logs_registered nd func cfg
    \<and> stack_size_registered (num (128 * 1024)) cfg \<and> cfg_mutex cfg = rw_free\<lparr>writer := Some t\<rparr>"
proof -
  let ?sz = "num (128 * 1024)"
  have "started t nd func ?sz False False (NotMade, no_config)"
    by (simp add: started_def no_config_def names_point_def)
  then obtain st where run: "run_initialisers E (Suc n) t casts nd func num is (NotMade, no_config) = Inr st"
      and st: "started t nd func ?sz (False \<or> InitLogger \<in> set is) (False \<or> InitStackSize \<in> set is) st"
    using run_initialisers_step [of t nd func num False False "(NotMade, no_config)" "is" E n casts] assms(2) by auto
  have "InitStackSize \<in> set is" using assms(2) by (metis count_notin zero_neq_one)
  then have st': "started t nd func ?sz True True st" using st assms(1) by simp
  obtain v cfg where vc: "st = (v, cfg)" by (cases st)
  obtain w where w: "v = Made w" "initial_loggers t w" using startedD(7) [OF st'] vc by auto
  have "cfg_mutex cfg = rw_free\<lparr>writer := Some t\<rparr>"
    using st' vc by (cases "cfg_mutex cfg") (simp add: started_def usable_def rw_free_def)
  then show ?thesis
    using run vc w startedD(5,6,9) [OF st'] by (intro exI [of _ w] exI [of _ cfg]) auto
qed

section \<open>Properties\<close>

text \<open>
  The first use of the logging system. When no variable \<open>logs\<close> is registered, the first use makes the
  manager, with one logger that prints to the standard output, and every later use gets the object that
  was made. When the program has registered \<open>logs\<close> before, with this or another type, the
  constructor's own lookup logs a message, which asks for the instance that is being made: the
  first use is undefined.
\<close>

theorem LoggerMgr_first_use:
  "(usable t (cfg_mutex cfg) \<and> s_datas cfg ''logs'' = None \<longrightarrow>
      (\<exists>cfg' w. LoggerMgr E (Suc n) t casts nd func NotMade cfg = (Inr (w, cfg'), Made w) \<and> managed t w
        \<and> conf w = [''root'' \<mapsto> (DEBUG, [Some (StdoutLogAppender, DEBUG, Some default_pattern)])]
        \<and> (\<forall>n' u w' cfg2. LoggerMgr E n' u casts nd func (Made w') cfg2 = (Inr (w', cfg2), Made w'))))
    \<and> (\<forall>p cv. usable t (cfg_mutex cfg) \<and> s_datas cfg ''logs'' = Some p \<and> cvars cfg p = Some cv \<longrightarrow>
        LoggerMgr E (Suc n) t casts nd func NotMade cfg = (Inl (UB ''recursive initialization''), NotMade))"
proof (intro conjI allI impI)
  assume "usable t (cfg_mutex cfg) \<and> s_datas cfg ''logs'' = None"
  then obtain w cv where "LoggerMgr E (Suc n) t casts nd func NotMade cfg = (Inr (w, new_var t ''logs'' cv cfg), Made w)" "initial_loggers t w"
    using LoggerMgr_first [of t cfg E n casts nd func] by blast
  then show "\<exists>cfg' w. LoggerMgr E (Suc n) t casts nd func NotMade cfg = (Inr (w, cfg'), Made w) \<and> managed t w
        \<and> conf w = [''root'' \<mapsto> (DEBUG, [Some (StdoutLogAppender, DEBUG, Some default_pattern)])]
        \<and> (\<forall>n' u w' cfg2. LoggerMgr E n' u casts nd func (Made w') cfg2 = (Inr (w', cfg2), Made w'))"
    unfolding initial_loggers_def by (simp add: LoggerMgr_def Singleton_GetInstance_def)
next
  fix p cv
  assume "usable t (cfg_mutex cfg) \<and> s_datas cfg ''logs'' = Some p \<and> cvars cfg p = Some cv"
  then show "LoggerMgr E (Suc n) t casts nd func NotMade cfg = (Inl (UB ''recursive initialization''), NotMade)"
    by (simp add: LoggerMgr_def Singleton_GetInstance_def LoggerMgr_make_def Lookup_messages_def Let_def usable_scopes)
qed

theorem LoggerMgr_first_use_witness:
  "fst (LoggerMgr env0 1 7 nat_casts 0 () NotMade ((no_config :: (nat, unit) config)\<lparr>s_datas := [''logs'' \<mapsto> 0],
      cvars := [0 \<mapsto> ConfigVar ''int'' ''logs'' 5 []]\<rparr>)) = Inl (UB ''recursive initialization'')
    \<and> (\<exists>cfg w. LoggerMgr env0 1 7 nat_casts 0 () NotMade no_config = (Inr (w, cfg), Made w))"
  using LoggerMgr_first_use [of 7 "(no_config :: (nat, unit) config)\<lparr>s_datas := [''logs'' \<mapsto> 0], cvars := [0 \<mapsto> ConfigVar ''int'' ''logs'' 5 []]\<rparr>"
      env0 0 nat_casts 0 "()"]
    LoggerMgr_first_use [of 7 "no_config :: (nat, unit) config" env0 0 nat_casts 0 "()"]
  by (auto simp: no_config_def)

text \<open>
  C33: the program after its static initialisers, in whatever order the link puts them. There is one manager
  with the root logger only, the variables \<open>logs\<close> (empty, with the manager's listener) and
  \<open>fiber.stack_size\<close> (128 KiB) are the registered ones, and the registry's write lock is still with
  the thread that ran the initialisers. So no thread can load a document with a member any more:
  the load blocks in every other thread, and in this one a guard unlocks a lock that is not held.
\<close>

theorem static_initialisation:
  assumes "InitLogger \<in> set is" and "count_list is InitStackSize = 1"
  shows "\<exists>w cfg. run_initialisers E (Suc n) t casts nd func num is (NotMade, no_config) = Inr (Made w, cfg)
    \<and> managed t w \<and> conf w = [''root'' \<mapsto> (DEBUG, [Some (StdoutLogAppender, DEBUG, Some default_pattern)])]
    \<and> dom (s_datas cfg) = {''logs'', ''fiber.stack_size''} \<and> logs_registered nd func cfg \<and> stack_size_registered (num (128 * 1024)) cfg
    \<and> (\<forall>u Y throws kv kvs. LoadFromYaml Y casts throws u (YMap (kv # kvs)) cfg
        = Inl (if u = t then UB ''unlock of a read-write lock not held'' else Blocked))"
proof -
  obtain w cfg where i: "run_initialisers E (Suc n) t casts nd func num is (NotMade, no_config) = Inr (Made w, cfg)" "initial_loggers t w"
      "dom (s_datas cfg) = {''logs'', ''fiber.stack_size''}" "logs_registered nd func cfg" "stack_size_registered (num (128 * 1024)) cfg"
      "cfg_mutex cfg = rw_free\<lparr>writer := Some t\<rparr>"
    using initialised [OF assms, where E = E and n = n and t = t and casts = casts and nd = nd and func = func and num = num]
    by (elim exE conjE) (rule that)
  have "LoadFromYaml Y casts throws u (YMap (kv # kvs)) cfg = Inl (if u = t then UB ''unlock of a read-write lock not held'' else Blocked)"
    for u Y throws kv kvs
  proof (cases "u = t")
    case True
    then show ?thesis by (simp add: LoadFromYaml_def i(6) ListAllMember_own valid_name_def)
  next
    case False
    then have "ReadScopedLockImpl (RWMutex_rdlock u) (rw_free\<lparr>writer := Some t\<rparr>) = Inl Blocked"
      by (simp add: ReadScopedLockImpl_def lock_defs)
    then show ?thesis using False by (simp add: LoadFromYaml_def i(6) ListAllMember.simps)
  qed
  then have "\<forall>u Y throws kv kvs. LoadFromYaml Y casts throws u (YMap (kv # kvs)) cfg
      = Inl (if u = t then UB ''unlock of a read-write lock not held'' else Blocked)" by simp
  with i show ?thesis unfolding initial_loggers_def by (intro exI [of _ w] exI [of _ cfg] conjI) simp_all
qed

theorem static_initialisation_witness:
  "\<exists>w cfg. run_initialisers env0 1 7 nat_casts 0 () unat [InitLogger, InitLogger, InitStackSize, InitLogger] (NotMade, no_config) = Inr (Made w, cfg)
    \<and> dom (s_datas cfg) = {''logs'', ''fiber.stack_size''}
    \<and> LoadFromYaml (table_yaml []) nat_casts (\<lambda>cb x y. False) 7 (YMap [(YScalar ''a'', YScalar ''1'')]) cfg
        = Inl (UB ''unlock of a read-write lock not held'')"
  using static_initialisation [of "[InitLogger, InitLogger, InitStackSize, InitLogger]" env0 0 7 nat_casts 0 "()" unat]
  by auto

end
