(* ===== verification/ConfigTypes.thy ===== *)
theory ConfigTypes
  imports Config "HOL-Library.FSet"
begin

text \<open>
  The types of configuration variables. \<open>ddg/config.h\<close> erases the type of a variable when it enters
  the registry and gets it back with \<open>dynamic_pointer_cast\<close>; \<open>ddg/lexicalcast.h\<close> selects a
  conversion by the structure of the type. Here a type is a value of \<open>cty\<close>, the conversions of a
  type are composed by recursion on it as the templates are, and the operations of clients are steps
  on the registry and the typed pointers that clients hold.
\<close>

section \<open>Types, values and their conversions\<close>

datatype cty =
    TPrim string
  | TVector cty
  | TList cty
  | TSet cty
  | TUSet cty
  | TUMap cty

text \<open>A value remembers the container it is.\<close>

datatype 'b cval =
    VPrim 'b
  | VVector "'b cval list"
  | VList "'b cval list"
  | VSet "'b cval fset"
  | VUSet "'b cval fset"
  | VUMap "string \<Rightarrow> 'b cval option"

text \<open>
  What the conversions use: yaml-cpp, \<open>boost::lexical_cast\<close> (or the program's own instance for a
  type that is no container) from and to strings, and the orders in which sets and maps are traversed.
\<close>

record 'b lexical =
  lx_yaml :: yaml_api
  lx_from :: "string \<Rightarrow> string \<Rightarrow> 'b result"
  lx_to :: "string \<Rightarrow> 'b \<Rightarrow> string result"
  lx_set_order :: "'b cval set \<Rightarrow> 'b cval list"
  lx_uset_order :: "'b cval set \<Rightarrow> 'b cval list"
  lx_umap_order :: "(string \<Rightarrow> 'b cval option) \<Rightarrow> (string \<times> 'b cval) list"

text \<open>
  \<open>LexicalCast<std::string, T>\<close> and \<open>LexicalCast<T, std::string>\<close>: the instance for a container uses
  the one for its elements; the primary template is \<open>boost::lexical_cast\<close>.
\<close>

fun cast_from_string :: "'b lexical \<Rightarrow> cty \<Rightarrow> string \<Rightarrow> 'b cval result" where
  "cast_from_string L (TPrim n) s = and_then (lx_from L n s) (\<lambda>b. Inr (VPrim b))"
| "cast_from_string L (TVector T) s =
     and_then (seq_from_string (lx_yaml L) (cast_from_string L T) s) (\<lambda>xs. Inr (VVector xs))"
| "cast_from_string L (TList T) s =
     and_then (list_from_string (lx_yaml L) (cast_from_string L T) s) (\<lambda>xs. Inr (VList xs))"
| "cast_from_string L (TSet T) s =
     and_then (set_from_string (lx_yaml L) (cast_from_string L T) s) (\<lambda>A. Inr (VSet (Abs_fset A)))"
| "cast_from_string L (TUSet T) s =
     and_then (uset_from_string (lx_yaml L) (cast_from_string L T) s) (\<lambda>A. Inr (VUSet (Abs_fset A)))"
| "cast_from_string L (TUMap T) s =
     and_then (map_from_string (lx_yaml L) (cast_from_string L T) s) (\<lambda>m. Inr (VUMap m))"

fun cast_to_string :: "'b lexical \<Rightarrow> cty \<Rightarrow> 'b cval \<Rightarrow> string result" where
  "cast_to_string L (TPrim n) (VPrim b) = lx_to L n b"
| "cast_to_string L (TVector T) (VVector xs) = seq_to_string (lx_yaml L) (cast_to_string L T) xs"
| "cast_to_string L (TList T) (VList xs) = list_to_string (lx_yaml L) (cast_to_string L T) xs"
| "cast_to_string L (TSet T) (VSet A) = set_to_string (lx_yaml L) (lx_set_order L) (cast_to_string L T) (fset A)"
| "cast_to_string L (TUSet T) (VUSet A) = uset_to_string (lx_yaml L) (lx_uset_order L) (cast_to_string L T) (fset A)"
| "cast_to_string L (TUMap T) (VUMap m) = map_to_string (lx_yaml L) (lx_umap_order L) (cast_to_string L T) m"
| "cast_to_string L _ _ = Inl (UB ''an object of another type'')"

text \<open>
  \<open>types\<close> gives the structure of the type that a name stands for (\<open>TypeToName\<close>), \<open>eqs\<close> its
  \<open>operator==\<close>. Only types the program uses have variables.
\<close>

definition typed_casts ::
  "'b lexical \<Rightarrow> (string \<Rightarrow> cty option) \<Rightarrow> (cty \<Rightarrow> 'b cval \<Rightarrow> 'b cval \<Rightarrow> bool) \<Rightarrow> 'b cval casts" where
  "typed_casts L types eqs ty = (case types ty of
     None \<Rightarrow> (\<lambda>v. Inl (UB ''no such type''), \<lambda>s. Inl (UB ''no such type''), \<lambda>v w. False)
   | Some T \<Rightarrow> (cast_to_string L T, cast_from_string L T, eqs T))"

section \<open>Well-typed values\<close>

text \<open>\<open>prim n b\<close> says that \<open>b\<close> is a value of the elementary type \<open>n\<close>.\<close>

fun has_type :: "(string \<Rightarrow> 'b \<Rightarrow> bool) \<Rightarrow> cty \<Rightarrow> 'b cval \<Rightarrow> bool" where
  "has_type prim (TPrim n) (VPrim b) = prim n b"
| "has_type prim (TVector T) (VVector xs) = (\<forall>x \<in> set xs. has_type prim T x)"
| "has_type prim (TList T) (VList xs) = (\<forall>x \<in> set xs. has_type prim T x)"
| "has_type prim (TSet T) (VSet A) = (\<forall>x \<in> fset A. has_type prim T x)"
| "has_type prim (TUSet T) (VUSet A) = (\<forall>x \<in> fset A. has_type prim T x)"
| "has_type prim (TUMap T) (VUMap m) = (\<forall>x \<in> ran m. has_type prim T x)"
| "has_type prim _ _ = False"

text \<open>A call of a library function either returns or throws.\<close>

fun returns_or_throws :: "'a result \<Rightarrow> bool" where
  "returns_or_throws (Inr a) = True"
| "returns_or_throws (Inl (Exn e)) = True"
| "returns_or_throws _ = False"

text \<open>
  What is asked of the libraries: \<open>lexical_cast<T>\<close> gives a \<open>T\<close>; it and yaml-cpp return or throw; a
  traversal visits elements of the container only.
\<close>

definition lexical_ok :: "(string \<Rightarrow> 'b \<Rightarrow> bool) \<Rightarrow> 'b lexical \<Rightarrow> bool" where
  "lexical_ok prim L \<longleftrightarrow>
     (\<forall>n s b. lx_from L n s = Inr b \<longrightarrow> prim n b) \<and> (\<forall>n s. returns_or_throws (lx_from L n s))
   \<and> (\<forall>n b. prim n b \<longrightarrow> returns_or_throws (lx_to L n b)) \<and> (\<forall>s. returns_or_throws (y_load (lx_yaml L) s))
   \<and> (\<forall>A. set (lx_set_order L A) \<subseteq> A) \<and> (\<forall>A. set (lx_uset_order L A) \<subseteq> A)
   \<and> (\<forall>m. \<forall>(k, x) \<in> set (lx_umap_order L m). m k = Some x)"

lemma returns_or_throws_iff: "returns_or_throws x \<longleftrightarrow> (\<exists>a. x = Inr a) \<or> (\<exists>e. x = Inl (Exn e))"
  by (cases x rule: returns_or_throws.cases) auto

lemma returns_or_throws_and_then [intro]:
  "returns_or_throws x \<Longrightarrow> (\<And>a. x = Inr a \<Longrightarrow> returns_or_throws (f a)) \<Longrightarrow> returns_or_throws (and_then x f)"
  by (cases x rule: returns_or_throws.cases) auto

lemma returns_or_throws_map_result [intro]:
  "(\<And>x. x \<in> set xs \<Longrightarrow> returns_or_throws (f x)) \<Longrightarrow> returns_or_throws (map_result f xs)"
  by (induction xs) (auto intro!: returns_or_throws_and_then)

lemma map_result_all:
  assumes "map_result f xs = Inr ys" "\<And>x y. x \<in> set xs \<Longrightarrow> f x = Inr y \<Longrightarrow> Q y" shows "\<forall>y \<in> set ys. Q y"
  using assms by (auto simp: map_result_Inr in_set_conv_nth) (metis nth_mem)

lemma fold_insert_fset: "fset (Abs_fset (fold insert xs {})) = set xs"
  by (simp add: fold_insert_set Abs_fset_inverse)

lemma fold_map_insert_ran: "\<forall>kx \<in> set kvs. Q (snd kx) \<Longrightarrow> \<forall>x \<in> ran m. Q x \<Longrightarrow> \<forall>x \<in> ran (fold map_insert kvs m). Q x"
proof (induction kvs arbitrary: m)
  case (Cons kx kvs)
  have "\<forall>x \<in> ran (map_insert kx m). Q x"
    using Cons.prems by (auto simp: map_insert_def ran_def split: option.splits)
  with Cons show ?case by simp
qed simp

text \<open>The elements that a container instance reads are results of the element instance.\<close>

lemma seq_from_string_all:
  "seq_from_string Y f s = Inr xs \<Longrightarrow> (\<And>s x. f s = Inr x \<Longrightarrow> Q x) \<Longrightarrow> \<forall>x \<in> set xs. Q x"
  by (auto simp: seq_from_string_def dest!: map_result_all [where Q = Q])

lemma set_from_string_all:
  "set_from_string Y f s = Inr A \<Longrightarrow> (\<And>s x. f s = Inr x \<Longrightarrow> Q x) \<Longrightarrow> finite A \<and> (\<forall>x \<in> A. Q x)"
  by (auto simp: set_from_string_def fold_insert_set dest!: map_result_all [where Q = Q])

lemma map_from_string_all:
  assumes "map_from_string Y f s = Inr m" "\<And>s x. f s = Inr x \<Longrightarrow> Q x" shows "\<forall>x \<in> ran m. Q x"
proof -
  obtain entries kvs where e: "map_result (\<lambda>(k, n). and_then (f (y_emit Y n)) (\<lambda>x. Inr (Scalar k, x))) entries = Inr kvs"
    and m: "m = fold map_insert kvs Map.empty"
    using assms(1) by (auto simp: map_from_string_def)
  have "\<forall>kx \<in> set kvs. Q (snd kx)"
    by (rule map_result_all [OF e]) (auto dest: assms(2))
  then show ?thesis unfolding m by (rule fold_map_insert_ran) simp
qed


text \<open>The conversions from strings are type-correct, for every nesting of containers.\<close>

lemma cast_from_string_typed:
  assumes "lexical_ok prim L"
  shows "cast_from_string L T s = Inr v \<Longrightarrow> has_type prim T v"
proof (induction T arbitrary: s v)
  case (TPrim n)
  then show ?case using assms by (auto simp: lexical_ok_def)
next
  case (TVector T)
  then show ?case by (auto dest: seq_from_string_all [where Q = "has_type prim T"])
next
  case (TList T)
  then show ?case by (auto simp: container_loops dest: seq_from_string_all [where Q = "has_type prim T"])
next
  case (TSet T)
  then show ?case by (auto dest!: set_from_string_all [where Q = "has_type prim T"] simp: Abs_fset_inverse)
next
  case (TUSet T)
  then show ?case by (auto dest!: set_from_string_all [where Q = "has_type prim T"] simp: Abs_fset_inverse container_loops)
next
  case (TUMap T)
  then show ?case by (auto dest: map_from_string_all [where Q = "has_type prim T"])
qed

lemma cast_from_string_returns:
  assumes "lexical_ok prim L"
  shows "returns_or_throws (cast_from_string L T s)"
proof (induction T arbitrary: s)
  case (TPrim n)
  then show ?case using assms by (auto simp: lexical_ok_def)
next
  case (TUMap T)
  have "returns_or_throws (node_entries n)" for n by (cases n rule: node_entries.cases) simp_all
  with TUMap assms show ?case
    by (auto simp: lexical_ok_def map_from_string_def intro!: returns_or_throws_and_then returns_or_throws_map_result)
qed (use assms in \<open>auto simp: lexical_ok_def seq_from_string_def set_from_string_def container_loops
        intro!: returns_or_throws_and_then returns_or_throws_map_result\<close>)

text \<open>A value of its type is converted to a string, or the conversion throws.\<close>

lemma seq_to_string_returns:
  "(\<And>x. x \<in> set xs \<Longrightarrow> returns_or_throws (f x)) \<Longrightarrow> (\<And>s. returns_or_throws (y_load Y s)) \<Longrightarrow>
    returns_or_throws (seq_to_string Y f xs)"
  by (auto simp: seq_to_string_def intro!: returns_or_throws_and_then returns_or_throws_map_result)

lemma cast_to_string_returns:
  assumes L: "lexical_ok prim L"
  shows "has_type prim T v \<Longrightarrow> returns_or_throws (cast_to_string L T v)"
proof (induction T arbitrary: v)
  case (TPrim n)
  then show ?case using L by (cases v) (auto simp: lexical_ok_def)
next
  case (TUMap T)
  then obtain m where v: "v = VUMap m" by (cases v) auto
  have "m k = Some x" if "(k, x) \<in> set (lx_umap_order L m)" for k x
    using L that unfolding lexical_ok_def by blast
  then have "returns_or_throws (cast_to_string L T x)" if "(k, x) \<in> set (lx_umap_order L m)" for k x
    using TUMap that v by (simp add: ran_def) blast
  then show ?case
    using L unfolding v by (auto simp: lexical_ok_def map_to_string_def intro!: returns_or_throws_and_then returns_or_throws_map_result)
next
  case (TVector T)
  then show ?case using L by (cases v) (auto simp: lexical_ok_def intro!: seq_to_string_returns)
next
  case (TList T)
  then show ?case using L by (cases v) (auto simp: container_loops lexical_ok_def intro!: seq_to_string_returns)
next
  case (TSet T)
  then obtain A where v: "v = VSet A" by (cases v) auto
  have "x |\<in>| A" if "x \<in> set (lx_set_order L (fset A))" for x using L that unfolding lexical_ok_def by blast
  with TSet L show ?case unfolding v by (auto simp: set_to_string_def lexical_ok_def intro!: seq_to_string_returns)
next
  case (TUSet T)
  then obtain A where v: "v = VUSet A" by (cases v) auto
  have "x |\<in>| A" if "x \<in> set (lx_uset_order L (fset A))" for x using L that unfolding lexical_ok_def by blast
  with TUSet L show ?case unfolding v by (auto simp: container_loops set_to_string_def lexical_ok_def intro!: seq_to_string_returns)
qed

section \<open>Clients of the registry\<close>

text \<open>
  The registry and the pointers \<open>ConfigVar<T>::ptr\<close> that clients hold, each with the name of its static
  type. Values and listeners that a client hands over have the static type of the pointer; a
  listener is a \<open>std::function\<close> over values of the type \<open>cb_type cb\<close>. Any thread may act; a call that
  does not return has no step.
\<close>

record ('b, 'cb) type_env =
  te_lexical :: "'b lexical"
  te_types :: "string \<Rightarrow> cty option"
  te_eqs :: "cty \<Rightarrow> 'b cval \<Rightarrow> 'b cval \<Rightarrow> bool"
  te_prim :: "string \<Rightarrow> 'b \<Rightarrow> bool"
  te_throws :: "'cb \<Rightarrow> 'b cval \<Rightarrow> 'b cval \<Rightarrow> bool"
  te_cb_type :: "'cb \<Rightarrow> string"

type_synonym ('b, 'cb) client_state = "('b cval, 'cb) config \<times> (string \<times> nat) set"

definition te_casts :: "('b, 'cb) type_env \<Rightarrow> 'b cval casts" where
  "te_casts E = typed_casts (te_lexical E) (te_types E) (te_eqs E)"

definition value_of :: "('b, 'cb) type_env \<Rightarrow> string \<Rightarrow> 'b cval \<Rightarrow> bool" where
  "value_of E ty v = (case te_types E ty of None \<Rightarrow> False | Some T \<Rightarrow> has_type (te_prim E) T v)"

definition put_var :: "nat \<Rightarrow> ('v, 'cb) config_var \<Rightarrow> ('v, 'cb) call list \<Rightarrow> ('v, 'cb) config \<Rightarrow> ('v, 'cb) config" where
  "put_var p cv calls cfg = cfg\<lparr>cvars := (cvars cfg)(p \<mapsto> cv), called := called cfg @ calls\<rparr>"

inductive client_step :: "('b, 'cb) type_env \<Rightarrow> ('b, 'cb) client_state \<Rightarrow> ('b, 'cb) client_state \<Rightarrow> bool" for E where
  lookup: "value_of E ty v \<Longrightarrow> Lookup t ty name v d cfg = (Inr p, cfg') \<Longrightarrow>
    client_step E (cfg, ps) (cfg', insert (ty, p) ps)"
| lookup_throws: "value_of E ty v \<Longrightarrow> Lookup t ty name v d cfg = (Inl (Exn e), cfg') \<Longrightarrow>
    client_step E (cfg, ps) (cfg', ps)"
| lookup_typed: "Lookup_typed t ty name cfg = Inr (r, cfg') \<Longrightarrow>
    client_step E (cfg, ps) (cfg', ps \<union> (case r of None \<Rightarrow> {} | Some p \<Rightarrow> {(ty, p)}))"
| set: "(ty, p) \<in> ps \<Longrightarrow> value_of E ty v \<Longrightarrow> cvars cfg p = Some cv \<Longrightarrow>
    setValue (snd (snd (te_casts E ty))) (te_throws E) t v cv = (r, calls, cv') \<Longrightarrow> returns_or_throws r \<Longrightarrow>
    client_step E (cfg, ps) (put_var p cv' calls cfg, ps)"
| from_string: "cvars cfg p = Some cv \<Longrightarrow> fromString (te_casts E) (te_throws E) t s cv = (Inr b, calls, cv') \<Longrightarrow>
    client_step E (cfg, ps) (put_var p cv' calls cfg, ps)"
| listen: "(ty, p) \<in> ps \<Longrightarrow> te_cb_type E cb = ty \<Longrightarrow> cvars cfg p = Some cv \<Longrightarrow> addListener t cb cv = Inr (k, cv') \<Longrightarrow>
    client_step E (cfg, ps) (put_var p cv' [] cfg, ps)"
| listen_key: "(ty, p) \<in> ps \<Longrightarrow> te_cb_type E cb = ty \<Longrightarrow> cvars cfg p = Some cv \<Longrightarrow>
    addListener_key t k cb cv = (r, cv') \<Longrightarrow> returns_or_throws r \<Longrightarrow>
    client_step E (cfg, ps) (put_var p cv' [] cfg, ps)"
| clear: "(ty, p) \<in> ps \<Longrightarrow> cvars cfg p = Some cv \<Longrightarrow> clearListener t cv = Inr cv' \<Longrightarrow>
    client_step E (cfg, ps) (put_var p cv' [] cfg, ps)"
| load: "LoadFromYaml (lx_yaml (te_lexical E)) (te_casts E) (te_throws E) t root cfg = Inr cfg' \<Longrightarrow>
    client_step E (cfg, ps) (cfg', ps)"

inductive_cases client_stepE: "client_step E (cfg, ps) (cfg', ps')"

section \<open>The type invariant\<close>

text \<open>
  A variable holds a value of its type and its listeners expect that type; what the registry and
  the typed pointers point to exists, and what a typed pointer points to has the pointer's type; and
  every listener called so far was given values of the type it expects.
\<close>

definition var_typed :: "('b, 'cb) type_env \<Rightarrow> ('b cval, 'cb) config_var \<Rightarrow> bool" where
  "var_typed E cv \<longleftrightarrow> value_of E (cv_type cv) (m_val cv) \<and> (\<forall>(k, cb) \<in> set (m_cbs cv). te_cb_type E cb = cv_type cv)"

definition call_typed :: "('b, 'cb) type_env \<Rightarrow> ('b cval, 'cb) call \<Rightarrow> bool" where
  "call_typed E c = (case c of (cb, old, v) \<Rightarrow> value_of E (te_cb_type E cb) old \<and> value_of E (te_cb_type E cb) v)"

definition vars_typed :: "('b, 'cb) type_env \<Rightarrow> ('b cval, 'cb) config \<Rightarrow> bool" where
  "vars_typed E cfg \<longleftrightarrow> (\<forall>p cv. cvars cfg p = Some cv \<longrightarrow> p < next_cvar cfg \<and> var_typed E cv)"

definition registry_points :: "('v, 'cb) config \<Rightarrow> bool" where
  "registry_points cfg \<longleftrightarrow> (\<forall>name p. s_datas cfg name = Some p \<longrightarrow> cvars cfg p \<noteq> None)"

definition ptrs_typed :: "('v, 'cb) config \<Rightarrow> (string \<times> nat) set \<Rightarrow> bool" where
  "ptrs_typed cfg ps \<longleftrightarrow> (\<forall>(ty, p) \<in> ps. \<exists>cv. cvars cfg p = Some cv \<and> cv_type cv = ty)"

definition well_typed :: "('b, 'cb) type_env \<Rightarrow> ('b, 'cb) client_state \<Rightarrow> bool" where
  "well_typed E st = (case st of (cfg, ps) \<Rightarrow>
     vars_typed E cfg \<and> registry_points cfg \<and> ptrs_typed cfg ps \<and> (\<forall>c \<in> set (called cfg). call_typed E c))"

lemmas well_typed_defs = well_typed_def vars_typed_def registry_points_def ptrs_typed_def

lemma well_typed_var: "well_typed E (cfg, ps) \<Longrightarrow> cvars cfg p = Some cv \<Longrightarrow> var_typed E cv"
  by (simp add: well_typed_defs)

text \<open>Putting back a variable of the same type.\<close>

lemma put_var_typed:
  assumes "well_typed E (cfg, ps)" "cvars cfg p = Some cv" "var_typed E cv'" "cv_type cv' = cv_type cv" "\<forall>c \<in> set calls. call_typed E c"
  shows "well_typed E (put_var p cv' calls cfg, ps)"
proof -
  let ?cfg = "put_var p cv' calls cfg"
  have f: "cvars ?cfg = (cvars cfg)(p \<mapsto> cv')" "s_datas ?cfg = s_datas cfg" "called ?cfg = called cfg @ calls"
    "next_cvar ?cfg = next_cvar cfg" by (simp_all add: put_var_def)
  have "vars_typed E ?cfg" using assms unfolding f well_typed_defs by auto
  moreover have "registry_points ?cfg" using assms(1) unfolding f well_typed_defs by auto
  moreover have "ptrs_typed ?cfg ps"
    using assms(1,2,4) unfolding f well_typed_defs by (auto simp: split_beta)
  moreover have "\<forall>c \<in> set (called ?cfg). call_typed E c" using assms(1,5) unfolding f well_typed_defs by auto
  ultimately show ?thesis by (simp add: well_typed_def)
qed

lemma setValue_typed:
  assumes "var_typed E cv" "value_of E (cv_type cv) v" "setValue eq throws t v cv = (r, calls, cv')"
  shows "var_typed E cv' \<and> cv_type cv' = cv_type cv \<and> (\<forall>c \<in> set calls. call_typed E c)"
proof -
  obtain calls' thrown where c: "call_listeners throws (m_cbs cv) (m_val cv) v = (calls', thrown)" by (metis surj_pair)
  then obtain n where "calls' = map (\<lambda>(k, cb). (cb, m_val cv, v)) (take n (m_cbs cv))"
    using call_listeners_prefix [OF c] by blast
  then have "set calls' \<subseteq> (\<lambda>(k, cb). (cb, m_val cv, v)) ` set (m_cbs cv)"
    using set_take_subset [of n "m_cbs cv"] by auto
  moreover have "call_typed E (cb, m_val cv, v)" if "(k, cb) \<in> set (m_cbs cv)" for k cb
    using assms(1,2) that unfolding var_typed_def call_typed_def by fastforce
  ultimately have "\<forall>c \<in> set calls'. call_typed E c" by fast
  moreover have "m_cbs cv' = m_cbs cv \<and> cv_type cv' = cv_type cv \<and> m_val cv' \<in> {m_val cv, v} \<and> set calls \<subseteq> set calls'"
    using assms(3) c by (auto simp: setValue_def Let_def split: sum.splits if_splits)
  ultimately show ?thesis using assms(1,2) unfolding var_typed_def by (metis insertE singletonD subsetD)
qed

lemma value_of_types: "value_of E ty v \<Longrightarrow> \<exists>T. te_types E ty = Some T \<and> has_type (te_prim E) T v"
  by (auto simp: value_of_def split: option.splits)

lemma fromString_typed:
  assumes L: "lexical_ok (te_prim E) (te_lexical E)" and cv: "var_typed E cv"
    and f: "fromString (te_casts E) throws t s cv = (r, calls, cv')"
  shows "var_typed E cv' \<and> cv_type cv' = cv_type cv \<and> (\<forall>c \<in> set calls. call_typed E c)"
proof (cases "fst (snd (te_casts E (cv_type cv))) s")
  case (Inl e)
  then have "cv' = cv \<and> calls = []" using f by (cases e) (auto simp: fromString_def)
  then show ?thesis using cv by simp
next
  case (Inr v)
  obtain r1 calls1 cv1 where sv: "setValue (snd (snd (te_casts E (cv_type cv)))) throws t v cv = (r1, calls1, cv1)"
    by (metis prod_cases3)
  with Inr f have "cv' = cv1 \<and> calls = calls1"
    by (auto simp: fromString_def split: sum.splits failure.splits)
  moreover have "value_of E (cv_type cv) v"
    using Inr cv cast_from_string_typed [OF L] by (auto simp: value_of_def te_casts_def typed_casts_def var_typed_def split: option.splits)
  ultimately show ?thesis using setValue_typed [OF cv _ sv] by simp
qed

text \<open>What a lookup may do: nothing but to the lock, or a new variable.\<close>

lemma Lookup_cases:
  assumes "Lookup t ty name v d cfg = (r, cfg')"
  obtains l where "cfg' = cfg\<lparr>cfg_mutex := l\<rparr>" "\<And>p. r = Inr p \<Longrightarrow> \<exists>cv. cvars cfg p = Some cv \<and> cv_type cv = ty"
  | l where "r = Inr (next_cvar cfg)" "cfg' = snd (Config_insert name (ConfigVar ty name v d) (cfg\<lparr>cfg_mutex := l\<rparr>))"
proof (cases "write_scope t (cfg_mutex cfg)")
  case (Inl e)
  then have "cfg' = cfg\<lparr>cfg_mutex := cfg_mutex cfg\<rparr>" "r = Inl e" using assms by (simp_all add: Lookup_def)
  then show ?thesis using that(1) by blast
next
  case (Inr l)
  let ?cfg1 = "cfg\<lparr>cfg_mutex := l\<rparr>"
  show ?thesis
  proof (cases "\<exists>p cv. s_datas cfg name = Some p \<and> cvars cfg p = Some cv \<and> cv_type cv = ty")
    case True
    then show ?thesis using that(1) [of l] assms Inr by (auto simp: Lookup_def Let_def)
  next
    case False
    then have "Lookup t ty name v d cfg = (if \<not> valid_name name then (Inl (Exn name), ?cfg1)
        else (Inr (next_cvar cfg), snd (Config_insert name (ConfigVar ty name v d) ?cfg1)))"
      using Inr by (auto simp: Lookup_def Let_def Config_insert_def split: option.splits)
    then show ?thesis using that assms by (cases "valid_name name") auto
  qed
qed

lemma Config_insert_typed:
  assumes "well_typed E (cfg, ps)" "var_typed E cv"
  shows "well_typed E (snd (Config_insert name cv cfg), insert (cv_type cv, next_cvar cfg) ps)"
proof -
  let ?p = "next_cvar cfg"
  let ?cfg = "snd (Config_insert name cv cfg)"
  have f: "cvars ?cfg = (cvars cfg)(?p \<mapsto> cv)" "called ?cfg = called cfg" "next_cvar ?cfg = ?p + 1"
    "\<And>n q. s_datas ?cfg n = Some q \<Longrightarrow> s_datas cfg n = Some q \<or> q = ?p"
    by (auto simp: Config_insert_def Let_def split: option.splits if_splits)
  have fresh: "cvars cfg ?p = None"
    using assms(1) by (cases "cvars cfg ?p") (auto simp: well_typed_defs)
  have "vars_typed E ?cfg" using assms unfolding f vars_typed_def well_typed_def by (auto simp: less_Suc_eq)
  moreover have "registry_points ?cfg" using assms(1) f(4) unfolding f(1) registry_points_def well_typed_def by force
  moreover have "ptrs_typed ?cfg (insert (cv_type cv, ?p) ps)"
    using assms(1) fresh unfolding f(1) ptrs_typed_def well_typed_def by fastforce
  ultimately show ?thesis using assms(1) f(2) by (simp add: well_typed_def)
qed

lemma well_typed_lock: "well_typed E (cfg\<lparr>cfg_mutex := l\<rparr>, ps) = well_typed E (cfg, ps)"
  by (simp add: well_typed_defs)

lemma well_typed_ptr:
  "well_typed E (cfg, ps) \<Longrightarrow> cvars cfg p = Some cv \<Longrightarrow> cv_type cv = ty \<Longrightarrow> well_typed E (cfg, insert (ty, p) ps)"
  by (auto simp: well_typed_def ptrs_typed_def)

lemma Lookup_typed_step:
  assumes "well_typed E (cfg, ps)" "value_of E ty v" "Lookup t ty name v d cfg = (r, cfg')"
  shows "well_typed E (cfg', ps \<union> (case r of Inr p \<Rightarrow> {(ty, p)} | Inl e \<Rightarrow> {}))"
  using assms(3)
proof (cases rule: Lookup_cases)
  case (1 l)
  then show ?thesis
    using assms(1) well_typed_ptr by (cases r) (fastforce simp: well_typed_lock)+
next
  case (2 l)
  have "var_typed E (ConfigVar ty name v d)" using assms(2) by (simp add: var_typed_def ConfigVar_def)
  from Config_insert_typed [OF _ this, where cfg = "cfg\<lparr>cfg_mutex := l\<rparr>"] show ?thesis
    using assms(1) 2 by (simp add: well_typed_lock ConfigVar_def)
qed

lemma load_member_typed:
  assumes L: "lexical_ok (te_prim E) (te_lexical E)" and "well_typed E (cfg, ps)"
    and "load_member Y (te_casts E) throws t i cfg = Inr cfg'"
  shows "well_typed E (cfg', ps)"
proof (cases "fst i = []")
  case True
  then show ?thesis using assms by (simp add: load_member_def)
next
  case False
  then obtain var cfg1 where base: "LookupBase t (map tolower (fst i)) cfg = Inr (var, cfg1)"
    using assms(3) by (auto simp: load_member_def)
  then have load: "load_member Y (te_casts E) throws t i cfg = (case var of None \<Rightarrow> Inr cfg1
        | Some p \<Rightarrow> (case cvars cfg1 p of None \<Rightarrow> Inl (UB ''dangling variable'')
           | Some cv \<Rightarrow> (case fromString (te_casts E) throws t (case snd i of YScalar s \<Rightarrow> s | n \<Rightarrow> y_emit Y n) cv of
                (Inl e, calls, cv1) \<Rightarrow> Inl e
              | (Inr b, calls, cv1) \<Rightarrow> Inr (cfg1\<lparr>cvars := (cvars cfg1)(p \<mapsto> cv1), called := called cfg1 @ calls\<rparr>))))"
    using False unfolding load_member_def Let_def by simp
  have wt: "well_typed E (cfg1, ps)"
    using assms(2) base by (auto simp: LookupBase_def well_typed_lock)
  show ?thesis
  proof (cases var)
    case None
    then show ?thesis using wt load assms(3) by simp
  next
    case (Some p)
    then obtain cv where cv: "cvars cfg1 p = Some cv" using load assms(3) by (cases "cvars cfg1 p") auto
    obtain r calls cv1 where f: "fromString (te_casts E) throws t (case snd i of YScalar s \<Rightarrow> s | n \<Rightarrow> y_emit Y n) cv = (r, calls, cv1)"
      by (metis prod_cases3)
    have "var_typed E cv" using wt cv by (auto simp: well_typed_defs)
    from fromString_typed [OF L this f] put_var_typed [OF wt cv] have "well_typed E (put_var p cv1 calls cfg1, ps)" by blast
    moreover have "cfg' = put_var p cv1 calls cfg1"
      using load assms(3) Some cv f by (cases r) (auto simp: put_var_def)
    ultimately show ?thesis by simp
  qed
qed

lemma load_members_typed:
  assumes "lexical_ok (te_prim E) (te_lexical E)"
  shows "well_typed E (cfg, ps) \<Longrightarrow> load_members Y (te_casts E) throws t is cfg = Inr cfg' \<Longrightarrow> well_typed E (cfg', ps)"
  by (induction "is" arbitrary: cfg) (auto dest: load_member_typed [OF assms])

lemma LoadFromYaml_typed:
  assumes "lexical_ok (te_prim E) (te_lexical E)" "well_typed E (cfg, ps)" "LoadFromYaml Y (te_casts E) throws t root cfg = Inr cfg'"
  shows "well_typed E (cfg', ps)"
proof -
  obtain a ns g cfg1 l1 where "load_members Y (te_casts E) throws t ns (cfg\<lparr>cfg_mutex := g\<rparr>) = Inr cfg1" "cfg' = cfg1\<lparr>cfg_mutex := l1\<rparr>"
    using assms(3) by (auto simp: LoadFromYaml_def)
  moreover have "well_typed E (cfg\<lparr>cfg_mutex := g\<rparr>, ps)" using assms(2) by (simp add: well_typed_lock)
  ultimately show ?thesis using load_members_typed [OF assms(1)] well_typed_lock by metis
qed

text \<open>Installing and removing listeners.\<close>

lemma put_listeners_typed:
  assumes "well_typed E (cfg, ps)" "cvars cfg p = Some cv" "m_val cv' = m_val cv" "cv_type cv' = cv_type cv"
    "\<forall>(k, cb) \<in> set (m_cbs cv'). (k, cb) \<in> set (m_cbs cv) \<or> te_cb_type E cb = cv_type cv"
  shows "well_typed E (put_var p cv' [] cfg, ps)"
proof (rule put_var_typed [OF assms(1,2) _ assms(4)])
  have "var_typed E cv" using assms(1,2) by (simp add: well_typed_defs)
  then show "var_typed E cv'" using assms(3-5) unfolding var_typed_def by fastforce
qed simp

lemma addListener_frame:
  "addListener t cb cv = Inr (k, cv') \<Longrightarrow> m_val cv' = m_val cv \<and> cv_type cv' = cv_type cv \<and> set (m_cbs cv') = insert (k, cb) (set (m_cbs cv))"
  by (auto simp: addListener_def Let_def split: option.splits if_splits)

lemma addListener_key_frame:
  "addListener_key t k cb cv = (r, cv') \<Longrightarrow>
    m_val cv' = m_val cv \<and> cv_type cv' = cv_type cv \<and> set (m_cbs cv') \<subseteq> insert (k, cb) (set (m_cbs cv))"
  by (auto simp: addListener_key_def Let_def split: sum.splits if_splits)

lemma ptr_var: "well_typed E (cfg, ps) \<Longrightarrow> (ty, p) \<in> ps \<Longrightarrow> cvars cfg p = Some cv \<Longrightarrow> cv_type cv = ty"
  by (auto simp: well_typed_defs)

lemma client_step_typed:
  assumes L: "lexical_ok (te_prim E) (te_lexical E)" and wt: "well_typed E st" and st: "client_step E st st'"
  shows "well_typed E st'"
  using st wt
proof cases
  case (lookup ty v t name d cfg p cfg' ps)
  then show ?thesis using Lookup_typed_step [of E cfg ps ty v t name d "Inr p" cfg'] wt by simp
next
  case (lookup_throws ty v t name d cfg e cfg' ps)
  then show ?thesis using Lookup_typed_step [of E cfg ps ty v t name d "Inl (Exn e)" cfg'] wt by simp
next
  case (lookup_typed t ty name cfg r cfg' ps)
  obtain l where cfg': "cfg' = cfg\<lparr>cfg_mutex := l\<rparr>" and r: "\<And>p. r = Some p \<Longrightarrow> \<exists>cv. cvars cfg p = Some cv \<and> cv_type cv = ty"
    using lookup_typed(3) by (auto simp: Lookup_typed_def split: option.splits if_splits)
  show ?thesis
    using wt well_typed_ptr [of E cfg ps] r unfolding lookup_typed(1,2) cfg' by (cases r) (auto simp: well_typed_lock)
next
  case (set ty p ps v cfg cv t r calls cv')
  then show ?thesis
    using wt setValue_typed [of E cv v "snd (snd (te_casts E ty))" "te_throws E" t r calls cv'] ptr_var [of E cfg ps ty p cv]
    by (auto dest: well_typed_var intro!: put_var_typed)
next
  case (from_string cfg p cv t s b calls cv' ps)
  then show ?thesis
    using wt fromString_typed [OF L, of cv "te_throws E" t s "Inr b" calls cv']
    by (auto dest: well_typed_var intro!: put_var_typed)
next
  case (listen ty p ps cb cfg cv t k cv')
  then show ?thesis
    using wt addListener_frame [of t cb cv k cv'] ptr_var [of E cfg ps ty p cv] by (auto intro!: put_listeners_typed)
next
  case (listen_key ty p ps cb cfg cv t k r cv')
  then show ?thesis
    using wt addListener_key_frame [of t k cb cv r cv'] ptr_var [of E cfg ps ty p cv] by (auto intro!: put_listeners_typed)
next
  case (clear ty p ps cfg cv t cv')
  then show ?thesis using wt by (auto simp: clearListener_def intro!: put_listeners_typed)
next
  case (load t root cfg cfg' ps)
  then show ?thesis using wt LoadFromYaml_typed [OF L] by auto
qed

definition no_clients :: "('b, 'cb) client_state" where
  "no_clients = (no_config, {})"

lemma no_clients_typed: "well_typed E no_clients"
  by (simp add: no_clients_def no_config_def well_typed_defs)

lemma reachable_typed:
  "lexical_ok (te_prim E) (te_lexical E) \<Longrightarrow> (client_step E)\<^sup>*\<^sup>* no_clients st \<Longrightarrow> well_typed E st"
  by (erule rtranclp_induct) (auto intro: no_clients_typed client_step_typed)

text \<open>Numbers and vectors of numbers, for examples.\<close>

definition bit_yaml :: yaml_api where
  "bit_yaml = table_yaml [(YScalar ''1'', ''1''), (YSeq [YScalar ''1''], ''[1]'')]"

definition bit_env :: "(nat, unit) type_env" where
  "bit_env = \<lparr>te_lexical = \<lparr>lx_yaml = bit_yaml,
       lx_from = (\<lambda>n s. if n = ''int'' \<and> s = ''1'' then Inr 1 else Inl (Exn ''bad_lexical_cast'')),
       lx_to = (\<lambda>n b. Inr (if b = 1 then ''1'' else ''0'')),
       lx_set_order = (\<lambda>A. filter (\<lambda>x. x \<in> A) [VPrim 0, VPrim 1]),
       lx_uset_order = (\<lambda>A. filter (\<lambda>x. x \<in> A) [VPrim 1, VPrim 0]),
       lx_umap_order = (\<lambda>m. case m ''a'' of None \<Rightarrow> [] | Some x \<Rightarrow> [(''a'', x)])\<rparr>,
     te_types = [''int'' \<mapsto> TPrim ''int'', ''vec'' \<mapsto> TVector (TPrim ''int'')],
     te_eqs = (\<lambda>T x y. False), te_prim = (\<lambda>n b. n = ''int''), te_throws = (\<lambda>cb x y. False), te_cb_type = (\<lambda>cb. ''vec'')\<rparr>"

lemma bit_env_ok: "lexical_ok (te_prim bit_env) (te_lexical bit_env)"
  by (simp add: lexical_ok_def bit_env_def bit_yaml_def table_yaml_def split: if_splits option.splits)

lemma bit_env_reads: "cast_from_string (te_lexical bit_env) (TVector (TPrim ''int'')) ''[1]'' = Inr (VVector [VPrim 1])"
  by (simp add: bit_env_def bit_yaml_def seq_from_string_def table_yaml_def)

definition vec_var :: "(nat cval, unit) config_var" where
  "vec_var = ConfigVar ''vec'' ''a'' (VVector []) []"

text \<open>A client looks up a vector with the default value \<open>[]\<close> and reads it from a text.\<close>

lemma bit_env_run:
  fixes cfg :: "(nat cval, unit) config" and vec1 :: "(nat cval, unit) config_var"
  defines "cfg \<equiv> snd (Config_insert ''a'' vec_var (no_config\<lparr>cfg_mutex := rw_free\<lparr>writer := Some 7\<rparr>\<rparr>))"
    and "vec1 \<equiv> vec_var\<lparr>m_rwmutex := rw_free\<lparr>writer := Some 7\<rparr>, m_val := VVector [VPrim 1]\<rparr>"
  shows "(client_step bit_env)\<^sup>*\<^sup>* no_clients (put_var 0 vec1 [] cfg, {(''vec'', 0)})"
proof -
  have "Lookup 7 ''vec'' ''a'' (VVector []) [] no_config = (Inr 0, cfg)"
    by (simp add: Lookup_def no_config_def lock_simps rw_free_def Let_def Config_insert_def cfg_def valid_name_def kValidSet_def vec_var_def)
  moreover have "value_of bit_env ''vec'' (VVector [])" by (simp add: value_of_def bit_env_def)
  ultimately have 1: "client_step bit_env no_clients (cfg, {(''vec'', 0)})"
    unfolding no_clients_def using client_step.lookup [of bit_env "''vec''" "VVector []" 7 "''a''" "[]" no_config 0 cfg "{}"] by simp
  have var: "cvars cfg 0 = Some vec_var" by (simp add: cfg_def Config_insert_def no_config_def Let_def)
  have "fst (snd (te_casts bit_env ''vec'')) = cast_from_string (te_lexical bit_env) (TVector (TPrim ''int''))"
    by (simp add: te_casts_def typed_casts_def bit_env_def)
  then have "fromString (te_casts bit_env) (te_throws bit_env) 7 ''[1]'' vec_var = (Inr True, [], vec1)"
    using bit_env_reads
    by (simp add: fromString_def setValue_def vec_var_def ConfigVar_def vec1_def lock_simps rw_free_def Let_def te_casts_def typed_casts_def bit_env_def)
  from client_step.from_string [OF var this] have "client_step bit_env (cfg, {(''vec'', 0)}) (put_var 0 vec1 [] cfg, {(''vec'', 0)})" .
  with 1 show ?thesis by (meson rtranclp.rtrancl_into_rtrancl r_into_rtranclp)
qed

section \<open>Properties\<close>

text \<open>
  C11: types survive the type-erased registry. After any calls of any threads, a pointer
  \<open>ConfigVar<T>::ptr\<close> that a client got from \<open>Lookup\<close> points to a variable of type \<open>T\<close> with a value of
  type \<open>T\<close>, for every nesting of containers, whatever documents and texts were loaded; every name in
  the registry denotes a variable; and every listener that was called was given two values of the
  type it was written for.
\<close>

theorem config_types_sound:
  assumes "lexical_ok (te_prim E) (te_lexical E)" and "(client_step E)\<^sup>*\<^sup>* no_clients (cfg, ps)"
  shows "(\<forall>(ty, p) \<in> ps. \<exists>cv. cvars cfg p = Some cv \<and> cv_type cv = ty \<and> value_of E ty (m_val cv))
    \<and> (\<forall>name p. s_datas cfg name = Some p \<longrightarrow> (\<exists>cv. cvars cfg p = Some cv \<and> value_of E (cv_type cv) (m_val cv)))
    \<and> (\<forall>(cb, old, v) \<in> set (called cfg). value_of E (te_cb_type E cb) old \<and> value_of E (te_cb_type E cb) v)"
proof -
  have "well_typed E (cfg, ps)" by (rule reachable_typed [OF assms])
  then have v: "vars_typed E cfg" and r: "registry_points cfg" and p: "ptrs_typed cfg ps" and c: "\<forall>c \<in> set (called cfg). call_typed E c"
    by (simp_all add: well_typed_def)
  have val: "value_of E (cv_type cv) (m_val cv)" if "cvars cfg q = Some cv" for q cv
    using v that by (simp add: vars_typed_def var_typed_def)
  then have "\<forall>(ty, q) \<in> ps. \<exists>cv. cvars cfg q = Some cv \<and> cv_type cv = ty \<and> value_of E ty (m_val cv)"
    using p unfolding ptrs_typed_def by fastforce
  moreover have "\<forall>name q. s_datas cfg name = Some q \<longrightarrow> (\<exists>cv. cvars cfg q = Some cv \<and> value_of E (cv_type cv) (m_val cv))"
    using r val unfolding registry_points_def by fast
  ultimately show ?thesis using c unfolding call_typed_def by auto
qed

theorem config_types_sound_witness:
  "\<exists>cfg. (client_step bit_env)\<^sup>*\<^sup>* no_clients (cfg, {(''vec'', 0)})
    \<and> (\<exists>cv. cvars cfg 0 = Some cv \<and> m_val cv = VVector [VPrim 1] \<and> value_of bit_env ''vec'' (m_val cv))"
  using config_types_sound [OF bit_env_ok bit_env_run] bit_env_run
  by (auto simp: put_var_def)

text \<open>
  No operation on a variable meets a value of another type. In every reachable state a variable
  can be printed, and reading a text into it returns whether the text was accepted, unless the variable's
  lock is held by another thread: no text and no conversion of a nested container leads to
  undefined behaviour or to an exception that leaves the call.
\<close>

theorem variables_convert:
  assumes "lexical_ok (te_prim E) (te_lexical E)" and "(client_step E)\<^sup>*\<^sup>* no_clients (cfg, ps)" and "cvars cfg p = Some cv"
  shows "(\<exists>s. toString (te_casts E) cv = Inr s)
    \<and> fst (fromString (te_casts E) throws t input cv) \<in> {Inr True, Inr False, Inl Blocked}"
proof -
  have "vars_typed E cfg" using reachable_typed [OF assms(1,2)] by (simp add: well_typed_def)
  then obtain T where T: "te_types E (cv_type cv) = Some T" "has_type (te_prim E) T (m_val cv)"
    using assms(3) value_of_types unfolding vars_typed_def var_typed_def by blast
  have casts: "te_casts E (cv_type cv) = (cast_to_string (te_lexical E) T, cast_from_string (te_lexical E) T, te_eqs E T)"
    using T(1) by (simp add: te_casts_def typed_casts_def)
  from cast_to_string_returns [OF assms(1) T(2)] have "\<exists>s. toString (te_casts E) cv = Inr s"
    unfolding toString_def casts returns_or_throws_iff by auto
  moreover have sv: "fst (setValue eq throws t v cv) \<in> {Inr (), Inl (Exn ''listener''), Inl Blocked}" for eq v
    by (cases "write_scope t (m_rwmutex cv)") (auto simp: setValue_def Let_def split_beta dest: write_scope_Inl)
  have "fst (fromString (te_casts E) throws t input cv) \<in> {Inr True, Inr False, Inl Blocked}"
  proof (cases "cast_from_string (te_lexical E) T input")
    case (Inl e)
    then show ?thesis using cast_from_string_returns [OF assms(1), of T input]
      by (auto simp: fromString_def casts returns_or_throws_iff)
  next
    case (Inr v)
    obtain r calls cv1 where s: "setValue (te_eqs E T) throws t v cv = (r, calls, cv1)" by (metis prod_cases3)
    show ?thesis using sv [of "te_eqs E T" v] by (auto simp: fromString_def casts Inr s)
  qed
  ultimately show ?thesis ..
qed

theorem variables_convert_witness:
  "\<exists>cfg cv. (client_step bit_env)\<^sup>*\<^sup>* no_clients (cfg, {(''vec'', 0)}) \<and> cvars cfg 0 = Some cv
    \<and> m_val cv = VVector [VPrim 1] \<and> (\<exists>s. toString (te_casts bit_env) cv = Inr s)"
  using variables_convert [OF bit_env_ok bit_env_run, of 0] bit_env_run by (fastforce simp: put_var_def)

end
