(* ===== verification/LogsText.thy ===== *)
theory LogsText
  imports LogsConfig
begin

text \<open>
  The text that the logging system prints of itself (\<open>toYamlString\<close> and \<open>toString\<close> of loggers, appenders and
  the manager in \<open>ddg/log.cc\<close>), read as a value of the variable \<open>logs\<close>.
\<close>

section \<open>The other names of the texts\<close>

definition Appender_toString :: "yaml_api \<Rightarrow> tid \<Rightarrow> aid \<Rightarrow> 'z log_world_scheme \<Rightarrow> (string \<times> 'z log_world_scheme) result" where
  "Appender_toString Y t a w = Appender_toYamlString Y t a w"

definition Logger_toString :: "yaml_api \<Rightarrow> tid \<Rightarrow> lid \<Rightarrow> 'z log_world_scheme \<Rightarrow> (string \<times> 'z log_world_scheme) result" where
  "Logger_toString Y t l w = Logger_toYamlString Y t l w"

definition Manager_toString ::
  "yaml_api \<Rightarrow> ((string \<Rightarrow> lid option) \<Rightarrow> lid list) \<Rightarrow> tid \<Rightarrow> log_manager \<Rightarrow> (string \<times> log_manager) result" where
  "Manager_toString Y order t w = Manager_toYamlString Y order t w"

definition LogAppenderDefine_getString :: "yaml_api \<Rightarrow> appender_define \<Rightarrow> string" where
  "LogAppenderDefine_getString Y d = appender_define_to_string Y d"

definition LogDefine_getString :: "yaml_api \<Rightarrow> log_define \<Rightarrow> string result" where
  "LogDefine_getString Y d = log_define_to_string Y d"

section \<open>The nodes that are printed\<close>

definition pattern_of :: "'z log_world_scheme \<Rightarrow> nat option \<Rightarrow> string" where
  "pattern_of w fo = (case Option.bind fo (fmts w) of None \<Rightarrow> [] | Some fm \<Rightarrow> m_pattern fm)"

definition ap_node :: "'z log_world_scheme \<Rightarrow> aid \<Rightarrow> yaml" where
  "ap_node w a = (case aps w a of None \<Rightarrow> YNull | Some x \<Rightarrow> appender_node x (pattern_of w (ap_formatter x)))"

definition lg_node :: "'z log_world_scheme \<Rightarrow> logger \<Rightarrow> yaml" where
  "lg_node w x = YMap
     ([entry ''name'' (lg_name x)]
      @ (if lg_level x \<noteq> UNKNOW then [entry ''level'' (LogLevel_ToString (lg_level x))] else [])
      @ [entry ''formatter'' (pattern_of w (lg_formatter x))]
      @ (if lg_appenders x \<noteq> [] then [(YScalar ''appenders'', YSeq (map (ap_node w) (lg_appenders x)))] else []))"

lemma nodes_put [simp]:
  "pattern_of (put_lg l x w) = pattern_of w" "ap_node (put_lg l x w) = ap_node w"
  by (simp_all add: ap_node_def pattern_of_def fun_eq_iff put_lg_def split: option.splits)

lemma nodes_mgr [simp]:
  "pattern_of (w\<lparr>mgr_rwmutex := m\<rparr>) = pattern_of w" "ap_node (w\<lparr>mgr_rwmutex := m\<rparr>) = ap_node w" "lg_node (w\<lparr>mgr_rwmutex := m\<rparr>) = lg_node w"
  by (simp_all add: ap_node_def lg_node_def pattern_of_def fun_eq_iff put_lg_def split: option.splits)

text \<open>The definitions that these nodes denote: every appender is one on the standard output.\<close>

definition file_of :: "appender_class \<Rightarrow> string" where
  "file_of c = (case c of StdoutLogAppender \<Rightarrow> [] | FileLogAppender name good \<Rightarrow> name)"

definition ap_define :: "'z log_world_scheme \<Rightarrow> aid \<Rightarrow> appender_define" where
  "ap_define w a = (case aps w a of None \<Rightarrow> LogAppenderDefine | Some x \<Rightarrow>
     \<lparr>ad_type = STDOUT_LOG_APPENDER, ad_level = ap_level x, ad_formatter = pattern_of w (ap_formatter x), ad_file = file_of (ap_class x)\<rparr>)"

definition lg_define :: "'z log_world_scheme \<Rightarrow> logger \<Rightarrow> log_define" where
  "lg_define w x = \<lparr>ld_name = lg_name x, ld_level = lg_level x, ld_formatter = pattern_of w (lg_formatter x),
     ld_appenders = map (ap_define w) (lg_appenders x)\<rparr>"

section \<open>Printing\<close>

text \<open>A store in which no lock is held and no pointer of a logger or an appender dangles.\<close>

definition unlocked :: "'z log_world_scheme \<Rightarrow> bool" where
  "unlocked w \<longleftrightarrow> (\<forall>l x. lgs w l = Some x \<longrightarrow> writer (lg_rwmutex x) = None)
     \<and> (\<forall>a x. aps w a = Some x \<longrightarrow> writer (ap_rwmutex x) = None)
     \<and> (\<forall>f x. fmts w f = Some x \<longrightarrow> writer (fm_rwmutex x) = None)"

lemma unlockedD:
  assumes "unlocked w"
  shows "lgs w l = Some x \<Longrightarrow> writer (lg_rwmutex x) = None" "aps w a = Some y \<Longrightarrow> writer (ap_rwmutex y) = None"
    "fmts w f = Some z \<Longrightarrow> writer (fm_rwmutex z) = None"
  using assms by (auto simp: unlocked_def)

lemma Appender_text:
  assumes w: "unlocked w" and a: "can_print w a"
  shows "Appender_toYamlString Y t a w = Inr (y_emit Y (ap_node w a), w)"
proof -
  obtain x f fm where x: "aps w a = Some x" "ap_formatter x = Some f" "fmts w f = Some fm" using a by (auto simp: can_print_def)
  then show ?thesis
    using unlockedD [OF w]
    by (simp add: Appender_toYamlString_def rdlock_in rdlock_out fmt_getPattern_def getPattern_def read_scope_free ap_node_def pattern_of_def)
qed

lemma appender_nodes_text:
  assumes w: "unlocked w"
  shows "\<forall>a \<in> set as. can_print w a \<and> yaml_reads_back Y (ap_node w a) \<Longrightarrow> appender_nodes Y t as w = Inr (map (ap_node w) as, w)"
  by (induction as) (simp_all add: Appender_text [OF w] yaml_reads_back_def)

lemma lg_same: "lgs w l = Some x \<Longrightarrow> put_lg l x w = w"
  by (simp add: put_lg_def fun_upd_idem)

lemma unlocked_reading: "unlocked w \<Longrightarrow> lgs w l = Some x \<Longrightarrow> unlocked (put_lg l (x\<lparr>lg_rwmutex := (lg_rwmutex x)\<lparr>readers := rs\<rparr>\<rparr>) w)"
  by (auto simp: unlocked_def)

lemma Logger_text:
  assumes w: "unlocked w" and x: "lgs w l = Some x" "lg_ok w x" and Y: "\<forall>a \<in> set (lg_appenders x). yaml_reads_back Y (ap_node w a)"
  shows "Logger_toYamlString Y t l w = Inr (y_emit Y (lg_node w x), w)"
proof -
  let ?x = "x\<lparr>lg_rwmutex := (lg_rwmutex x)\<lparr>readers := t # readers (lg_rwmutex x)\<rparr>\<rparr>"
  let ?w = "put_lg l ?x w"
  have w1: "unlocked ?w" by (rule unlocked_reading [OF w x(1)])
  obtain f fm where f: "lg_formatter x = Some f" "fmts w f = Some fm" using x(2) by (auto simp: lg_ok_def)
  have "appender_nodes Y t (lg_appenders x) ?w = Inr (map (ap_node w) (lg_appenders x), ?w)"
    using appender_nodes_text [OF w1, of "lg_appenders x" Y t] x(2) Y by (simp add: lg_ok_def)
  moreover have "fmt_getPattern t f ?w = Inr (m_pattern fm, ?w)"
    using f(2) unlockedD(3) [OF w f(2)] by (simp add: fmt_getPattern_def getPattern_def read_scope_free)
  moreover have "put_lg l (x\<lparr>lg_rwmutex := lg_rwmutex x\<rparr>) ?w = w" using x(1) by (simp add: put_lg_def fun_upd_idem)
  ultimately show ?thesis
    using x(1) f unlockedD(1) [OF w x(1)]
    by (simp add: Logger_toYamlString_def rdlock_in rdlock_out lg_node_def pattern_of_def entry_def)
qed

text \<open>What is asked of yaml-cpp for a logger's text: the nodes that are printed on the way are read back.\<close>

definition text_readable :: "yaml_api \<Rightarrow> 'z log_world_scheme \<Rightarrow> logger \<Rightarrow> bool" where
  "text_readable Y w x \<longleftrightarrow> yaml_reads_back Y (lg_node w x) \<and> (\<forall>a \<in> set (lg_appenders x). yaml_reads_back Y (ap_node w a))"

lemma logger_nodes_text:
  assumes w: "unlocked w" and Y: "\<forall>l \<in> set ls. \<exists>x. lgs w l = Some x \<and> lg_ok w x \<and> text_readable Y w x"
  shows "logger_nodes Y t ls w = Inr (map (\<lambda>l. lg_node w (the (lgs w l))) ls, w)"
  using Y
proof (induction ls)
  case (Cons l ls)
  then obtain x where x: "lgs w l = Some x" "lg_ok w x" "text_readable Y w x" by auto
  then have "Logger_toYamlString Y t l w = Inr (y_emit Y (lg_node w x), w)" by (intro Logger_text [OF w]) (auto simp: text_readable_def)
  then show ?case using Cons x by (simp add: text_readable_def yaml_reads_back_def)
qed simp

lemma Manager_text:
  fixes w :: log_manager
  assumes w: "unlocked w" "writer (mgr_rwmutex w) = None" and ls: "order (mgr_loggers w) \<noteq> []"
    and Y: "\<forall>l \<in> set (order (mgr_loggers w)). \<exists>x. lgs w l = Some x \<and> lg_ok w x \<and> text_readable Y w x"
  shows "Manager_toYamlString Y order t w = Inr (y_emit Y (YSeq (map (\<lambda>l. lg_node w (the (lgs w l))) (order (mgr_loggers w)))), w)"
proof -
  let ?w = "w\<lparr>mgr_rwmutex := (mgr_rwmutex w)\<lparr>readers := t # readers (mgr_rwmutex w)\<rparr>\<rparr>"
  have "unlocked ?w" using w(1) by (simp add: unlocked_def)
  moreover have "\<forall>l \<in> set (order (mgr_loggers w)). \<exists>x. lgs ?w l = Some x \<and> lg_ok ?w x \<and> text_readable Y ?w x"
    using Y by (simp add: text_readable_def lg_ok_def can_print_def)
  ultimately have "logger_nodes Y t (order (mgr_loggers w)) ?w = Inr (map (\<lambda>l. lg_node w (the (lgs w l))) (order (mgr_loggers w)), ?w)"
    using logger_nodes_text [of ?w "order (mgr_loggers w)" Y t] by simp
  then show ?thesis using w(2) ls by (simp add: Manager_toYamlString_def rdlock_in rdlock_out)
qed

section \<open>Reading the texts\<close>

lemma ap_node_back:
  assumes "can_print w a" and "named_level (ad_level (ap_define w a))" and "yaml_reads_back Y (ap_node w a)"
  shows "appender_define_from_string Y (y_emit Y (ap_node w a)) = Inr (ap_define w a)"
proof -
  obtain x where x: "aps w a = Some x" using assms(1) by (auto simp: can_print_def)
  then show ?thesis
    using assms(2,3) level_back [of "ap_level x"]
    by (cases "ap_class x") (simp_all add: appender_define_from_string_def yaml_reads_back_def ap_node_def appender_node_def
        ap_define_def set_appender_key_def LogAppenderDefine_def file_of_def)
qed

text \<open>A logger whose text is a definition: it has a name, levels with names, and a pattern that is valid.\<close>

definition describable :: "'z log_world_scheme \<Rightarrow> logger \<Rightarrow> bool" where
  "describable w x \<longleftrightarrow> lg_ok w x \<and> lg_name x \<noteq> [] \<and> named_level (lg_level x) \<and> checkValid (pattern_of w (lg_formatter x)) = Inr True
     \<and> (\<forall>a \<in> set (lg_appenders x). named_level (ad_level (ap_define w a)))"

lemma lg_node_back:
  assumes d: "describable w x" and Y: "text_readable Y w x"
  shows "log_define_from_string Y (y_emit Y (lg_node w x)) = Inr (inherit (lg_define w x))"
proof -
  let ?ns = "map (ap_node w) (lg_appenders x)" and ?d = "lg_define w x"
  have "map_result (\<lambda>a. appender_define_from_string Y (y_emit Y (ap_node w a))) (lg_appenders x) = Inr (map (ap_define w) (lg_appenders x))"
    by (rule map_result_map) (use d Y in \<open>auto simp: describable_def lg_ok_def text_readable_def intro!: ap_node_back\<close>)
  then have as: "map_result (appender_define_from_string Y) (element_texts Y (YSeq ?ns)) = Inr (ld_appenders ?d)"
    by (simp add: lg_define_def map_result_Inr)
  obtain kvs where kvs: "lg_node w x = YMap kvs" by (simp add: lg_node_def)
  have get: "node_get kvs ''appenders'' = YSeq ?ns" if "lg_appenders x \<noteq> []"
    using kvs that by (auto simp: lg_node_def node_get_def entry_def)
  have "set_log_keys Y kvs kvs LogDefine = Inr ?d"
    using kvs d as get level_back [of "lg_level x"]
    by (cases "lg_level x = UNKNOW"; cases "lg_appenders x = []")
      (auto simp: lg_node_def lg_define_def describable_def entry_def set_log_key_def LogDefine_def)
  then show ?thesis
    using Y kvs by (simp add: log_define_from_string_def text_readable_def yaml_reads_back_def)
qed

text \<open>Inserting definitions with different names loses none.\<close>

lemma string_less_total: "\<not> string_less a b \<Longrightarrow> \<not> string_less b a \<Longrightarrow> a = b"
  by (induction a b rule: string_less.induct) auto

lemma define_insert_new: "ld_name d \<notin> ld_name ` set ds \<Longrightarrow> set (define_insert d ds) = insert d (set ds)"
  using string_less_total by (induction ds) (auto simp: log_define_less_def)

lemma foldl_define_insert_all:
  "distinct (map ld_name xs) \<Longrightarrow> ld_name ` set xs \<inter> ld_name ` set ds = {} \<Longrightarrow>
    set (foldl (\<lambda>st d. define_insert d st) ds xs) = set ds \<union> set xs"
proof (induction xs arbitrary: ds)
  case (Cons x xs)
  then have "set (define_insert x ds) = insert x (set ds)" by (intro define_insert_new) auto
  moreover from this have "ld_name ` set xs \<inter> ld_name ` set (define_insert x ds) = {}" using Cons.prems by auto
  ultimately show ?case using Cons.IH [of "define_insert x ds"] Cons.prems(1) by auto
qed simp

lemma inherit_name [simp]: "ld_name (inherit d) = ld_name d"
  by (simp add: inherit_def)

section \<open>Properties\<close>

lemma registered_loggers:
  assumes names: "\<forall>n l. loggers n = Some l \<longrightarrow> (\<exists>x. get l = Some x \<and> lg_name x = n)"
    and ls: "distinct ls" "set ls = ran loggers"
  shows "distinct (map (\<lambda>l. lg_name (the (get l))) ls)"
  unfolding distinct_map
proof (intro conjI inj_onI)
  fix k l assume "k \<in> set ls" "l \<in> set ls" "lg_name (the (get k)) = lg_name (the (get l))"
  then obtain m n where "loggers m = Some k" "loggers n = Some l" using ls(2) by (auto simp: ran_def)
  moreover from this have "lg_name (the (get k)) = m" "lg_name (the (get l)) = n" using names by force+
  ultimately show "k = l" using \<open>lg_name (the (get k)) = lg_name (the (get l))\<close> by simp
qed (rule ls(1))

text \<open>
  C35: the text of the whole logging system. In a state in which no lock is held and every logger can be described,
  what \<open>LoggerManager::toString\<close> prints is read as a value of the variable \<open>logs\<close>: a set with one definition
  for each registered logger, with its name, level, pattern and appenders, where an appender has its own level
  and pattern. Every appender comes back as one on the standard output, so a system with files does not
  describe itself.
\<close>

theorem manager_text_reads_back:
  assumes w: "unlocked w" "writer (mgr_rwmutex w) = None"
    and ls: "distinct (order (mgr_loggers w))" "set (order (mgr_loggers w)) = ran (mgr_loggers w)" "mgr_loggers w \<noteq> Map.empty"
    and reg: "\<forall>n l. mgr_loggers w n = Some l \<longrightarrow> (\<exists>x. lgs w l = Some x \<and> lg_name x = n \<and> describable w x \<and> text_readable Y w x)"
    and Y: "yaml_indexes Y" "yaml_reads_back Y (YSeq (map (\<lambda>l. lg_node w (the (lgs w l))) (order (mgr_loggers w))))"
  shows "\<exists>s ds. Manager_toString Y order t w = Inr (s, w) \<and> logs_from_string Y s = Inr ds \<and> sorted_wrt log_define_less ds
    \<and> set ds = (\<lambda>l. inherit (lg_define w (the (lgs w l)))) ` ran (mgr_loggers w)
    \<and> (\<forall>d \<in> set ds. \<forall>a \<in> set (ld_appenders d). ad_type a = STDOUT_LOG_APPENDER)"
proof -
  let ?ls = "order (mgr_loggers w)" and ?node = "\<lambda>l. lg_node w (the (lgs w l))" and ?def = "\<lambda>l. inherit (lg_define w (the (lgs w l)))"
  let ?s = "y_emit Y (YSeq (map ?node ?ls))"
  have each: "\<exists>x. lgs w l = Some x \<and> describable w x \<and> text_readable Y w x" if "l \<in> set ?ls" for l
  proof -
    from that obtain n where "mgr_loggers w n = Some l" using ls(2) by (auto simp: ran_def)
    then show ?thesis using reg by blast
  qed
  have "?ls \<noteq> []" using ls(2,3) by (auto simp: ran_def fun_eq_iff)
  then have printed: "Manager_toString Y order t w = Inr (?s, w)"
    unfolding Manager_toString_def using each by (intro Manager_text [OF w]) (auto simp: describable_def)
  have "map_result (\<lambda>j. log_define_from_string Y (y_emit Y (y_at Y (YSeq (map ?node ?ls)) j))) [0..<length ?ls] = Inr (map ?def ?ls)"
    unfolding map_result_Inr
  proof (intro conjI allI impI)
    fix j assume j: "j < length [0..<length ?ls]"
    then obtain x where "lgs w (?ls ! j) = Some x" "describable w x" "text_readable Y w x" using each [of "?ls ! j"] by auto
    moreover have "y_at Y (YSeq (map ?node ?ls)) j = ?node (?ls ! j)" using j Y(1) by (simp add: yaml_indexes_def)
    ultimately show "log_define_from_string Y (y_emit Y (y_at Y (YSeq (map ?node ?ls)) ([0..<length ?ls] ! j))) = Inr (map ?def ?ls ! j)"
      using j lg_node_back [of w x Y] by simp
  qed simp
  then have read: "logs_from_string Y ?s = Inr (foldl (\<lambda>st d. define_insert d st) [] (map ?def ?ls))"
    using Y(2) by (simp add: logs_from_string_def read_loop_map yaml_reads_back_def del: read_loop.simps)
  have "\<forall>n l. mgr_loggers w n = Some l \<longrightarrow> (\<exists>x. lgs w l = Some x \<and> lg_name x = n)" using reg by blast
  then have "distinct (map (\<lambda>l. lg_name (the (lgs w l))) ?ls)" by (rule registered_loggers [OF _ ls(1,2)])
  moreover have "map ld_name (map ?def ?ls) = map (\<lambda>l. lg_name (the (lgs w l))) ?ls" by (simp add: lg_define_def)
  ultimately have "distinct (map ld_name (map ?def ?ls))" by (simp only:)
  then have all: "set (foldl (\<lambda>st d. define_insert d st) [] (map ?def ?ls)) = ?def ` ran (mgr_loggers w)"
    using foldl_define_insert_all [of "map ?def ?ls" "[]"] ls(2) by simp
  have "ad_type a = STDOUT_LOG_APPENDER" if l: "l \<in> set ?ls" "a \<in> set (ld_appenders (?def l))" for l a
  proof -
    obtain x where x: "lgs w l = Some x" "describable w x" using each [OF l(1)] by blast
    then obtain b where b: "b \<in> set (lg_appenders x)" "a = inherit_appender (lg_define w x) (ap_define w b)"
      using l(2) by (auto simp: inherit_def lg_define_def)
    then have "can_print w b" using x(2) by (simp add: describable_def lg_ok_def)
    then have "ad_type (ap_define w b) = STDOUT_LOG_APPENDER" by (auto simp: can_print_def ap_define_def)
    then show ?thesis unfolding b(2) by (simp add: inherit_appender_def Let_def)
  qed
  then show ?thesis using printed read all logs_from_string_sorted [OF read] ls(2) by (intro exI [of _ ?s] exI conjI) auto
qed

definition dump_world :: log_manager where
  "dump_world = \<lparr>fmts = [0 \<mapsto> \<lparr>fm_rwmutex = rw_free, m_pattern = ''%m'', m_items = [], m_error = False\<rparr>],
     aps = [2 \<mapsto> \<lparr>ap_class = FileLogAppender ''f'' True, ap_rwmutex = rw_free, ap_mutex = None, ap_level = UNKNOW, ap_formatter = Some 0\<rparr>],
     lgs = [1 \<mapsto> \<lparr>lg_rwmutex = rw_free, lg_name = ''root'', lg_level = INFO, lg_appenders = [2], lg_formatter = Some 0, lg_root = None\<rparr>],
     next_obj = 3, outs = [], mgr_rwmutex = rw_free, mgr_root = Some 1, mgr_loggers = [''root'' \<mapsto> 1]\<rparr>"

definition dump_yaml :: yaml_api where
  "dump_yaml = table_yaml [(ap_node dump_world 2, ''level: UNKNOW''), (lg_node dump_world (the (lgs dump_world 1)), ''name: root''),
     (YSeq [lg_node dump_world (the (lgs dump_world 1))], ''- name: root'')]"

theorem manager_text_reads_back_witness:
  "\<exists>s. Manager_toString dump_yaml (\<lambda>m. [1]) 7 dump_world = Inr (s, dump_world)
    \<and> logs_from_string dump_yaml s = Inr [\<lparr>ld_name = ''root'', ld_level = INFO, ld_formatter = ''%m'',
        ld_appenders = [\<lparr>ad_type = STDOUT_LOG_APPENDER, ad_level = INFO, ad_formatter = ''%m'', ad_file = ''f''\<rparr>]\<rparr>]"
proof -
  let ?x = "the (lgs dump_world 1)"
  have x: "lgs dump_world 1 = Some ?x" "lg_name ?x = ''root''" by (simp_all add: dump_world_def)
  have d: "describable dump_world ?x"
    by (simp add: describable_def dump_world_def lg_ok_def can_print_def ap_define_def pattern_of_def named_level_def level_defs message_pattern_valid)
  have r: "yaml_reads_back dump_yaml (ap_node dump_world 2)" "yaml_reads_back dump_yaml (lg_node dump_world ?x)"
      "yaml_reads_back dump_yaml (YSeq [lg_node dump_world ?x])"
    by (simp_all add: yaml_reads_back_def dump_yaml_def table_yaml_def dump_world_def lg_node_def ap_node_def appender_node_def
      pattern_of_def entry_def level_defs)
  have t: "text_readable dump_yaml dump_world ?x" using r by (simp add: text_readable_def) (simp add: dump_world_def)
  have "\<exists>s ds. Manager_toString dump_yaml (\<lambda>m. [1]) 7 dump_world = Inr (s, dump_world) \<and> logs_from_string dump_yaml s = Inr ds
      \<and> sorted_wrt log_define_less ds \<and> set ds = (\<lambda>l. inherit (lg_define dump_world (the (lgs dump_world l)))) ` ran (mgr_loggers dump_world)
      \<and> (\<forall>d \<in> set ds. \<forall>a \<in> set (ld_appenders d). ad_type a = STDOUT_LOG_APPENDER)"
    by (rule manager_text_reads_back) (use x d t r in \<open>simp_all add: dump_yaml_def\<close>, simp_all add: dump_world_def unlocked_def rw_free_def)
  then obtain s ds where s: "Manager_toString dump_yaml (\<lambda>m. [1]) 7 dump_world = Inr (s, dump_world)" "logs_from_string dump_yaml s = Inr ds"
      "sorted_wrt log_define_less ds" "set ds = {inherit (lg_define dump_world ?x)}"
    by (auto simp: dump_world_def)
  have "ds = [inherit (lg_define dump_world ?x)]"
    using s(3,4) by (cases ds; cases "tl ds") (auto simp: log_define_less_def)
  moreover have "inherit (lg_define dump_world ?x) = \<lparr>ld_name = ''root'', ld_level = INFO, ld_formatter = ''%m'',
        ld_appenders = [\<lparr>ad_type = STDOUT_LOG_APPENDER, ad_level = INFO, ad_formatter = ''%m'', ad_file = ''f''\<rparr>]\<rparr>"
    by (simp add: inherit_def inherit_appender_def lg_define_def ap_define_def dump_world_def pattern_of_def file_of_def level_defs)
  ultimately show ?thesis using s by (intro exI [of _ s]) simp
qed

end
