(* ===== verification/Thread.thy ===== *)
theory Thread
  imports Mutex
begin

text \<open>
  \<open>ddg/thread.h\<close> and \<open>thread.cc\<close>: the objects of class \<open>Thread\<close>, the thread-local variables, and the
  kernel threads that \<open>pthread_create\<close> starts, as a system of interleaved steps. A kernel thread's
  \<open>pthread_t\<close> is its thread id. The messages of the error paths are not modelled; a callback returns.
\<close>

section \<open>Data\<close>

record 'cb thread_obj =
  th_id :: u32
  th_handle :: tid
  th_cb :: "'cb option"
  th_name :: string
  th_sem :: nat

text \<open>
  Where a kernel thread is in \<open>run\<close>: at its begin, at \<open>m_sem.post()\<close> with the callback it took, at the
  call of the callback, or over.
\<close>

datatype 'cb run_pc = Entry nat | Posting nat "'cb option" | Calling "'cb option" | Finished

text \<open>
  The objects by address, the thread-local \<open>t_thread\<close> and \<open>t_thread_name\<close>, the kernel's names, the
  kernel threads, the objects whose constructor has not returned yet with the thread that runs it, the
  kernel threads that were joined or detached, and the callbacks called so far.
\<close>

record 'cb threads =
  objs :: "nat \<Rightarrow> 'cb thread_obj option"
  t_thread :: "tid \<Rightarrow> nat option"
  t_thread_name :: "tid \<Rightarrow> string"
  k_name :: "tid \<Rightarrow> string"
  pcs :: "tid \<Rightarrow> 'cb run_pc option"
  building :: "nat \<Rightarrow> tid option"
  unjoinable :: "tid set"
  cb_calls :: "(tid \<times> 'cb) list"

definition obj_at :: "nat \<Rightarrow> 'cb threads \<Rightarrow> 'cb thread_obj result" where
  "obj_at a w = (case objs w a of None \<Rightarrow> Inl (UB ''destroyed Thread'') | Some x \<Rightarrow> Inr x)"

definition put_obj :: "nat \<Rightarrow> 'cb thread_obj \<Rightarrow> 'cb threads \<Rightarrow> 'cb threads" where
  "put_obj a x w = w\<lparr>objs := (objs w)(a \<mapsto> x)\<rparr>"

definition set_pc :: "tid \<Rightarrow> 'cb run_pc \<Rightarrow> 'cb threads \<Rightarrow> 'cb threads" where
  "set_pc k p w = w\<lparr>pcs := (pcs w)(k \<mapsto> p)\<rparr>"

section \<open>The pthread calls\<close>

definition EINVAL :: int where "EINVAL = 22"

definition pthread_join :: "tid \<Rightarrow> tid \<Rightarrow> 'cb threads \<Rightarrow> (int \<times> 'cb threads) result" where
  "pthread_join u k w =
     (if k = u then Inr (EDEADLK, w)
      else if k \<in> unjoinable w then Inr (EINVAL, w)
      else if pcs w k = Some Finished then Inr (0, w\<lparr>unjoinable := insert k (unjoinable w)\<rparr>)
      else Inl Blocked)"

definition pthread_detach :: "tid \<Rightarrow> 'cb threads \<Rightarrow> int \<times> 'cb threads" where
  "pthread_detach k w =
     (if k \<in> unjoinable w then (EINVAL, w) else (0, w\<lparr>unjoinable := insert k (unjoinable w)\<rparr>))"

section \<open>The members of the class\<close>

definition Thread_GetThis :: "tid \<Rightarrow> 'cb threads \<Rightarrow> nat option" where
  "Thread_GetThis t w = t_thread w t"

definition Thread_GetName :: "tid \<Rightarrow> 'cb threads \<Rightarrow> string" where
  "Thread_GetName t w = t_thread_name w t"

definition Thread_SetName :: "tid \<Rightarrow> string \<Rightarrow> 'cb threads \<Rightarrow> 'cb threads result" where
  "Thread_SetName t name w =
     (if name = [] then Inr w
      else and_then (case t_thread w t of
          None \<Rightarrow> Inr w
        | Some a \<Rightarrow> and_then (obj_at a w) (\<lambda>x. Inr (put_obj a (x\<lparr>th_name := name\<rparr>) w))) (\<lambda>w1.
        Inr (w1\<lparr>t_thread_name := (t_thread_name w1)(t := name)\<rparr>)))"

text \<open>
  The constructor, up to the creation of the kernel thread \<open>k\<close> (\<open>ret\<close> is the result of \<open>pthread_create\<close>),
  and then its wait for the semaphore.
\<close>

definition Thread_create :: "int \<Rightarrow> string \<Rightarrow> 'cb \<Rightarrow> tid \<Rightarrow> nat \<Rightarrow> tid \<Rightarrow> 'cb threads \<Rightarrow> 'cb threads result" where
  "Thread_create ret name cb u a k w =
     and_then (Semphore 0) (\<lambda>v.
     let x = \<lparr>th_id = -1, th_handle = 0, th_cb = Some cb, th_name = (if name = [] then ''UNKNOW'' else name), th_sem = v\<rparr>
     in if ret \<noteq> 0 then Inl (Exn ''pthread_create error'')
        else Inr ((set_pc k (Entry a) (put_obj a (x\<lparr>th_handle := k\<rparr>) w))\<lparr>building := (building w)(a \<mapsto> u)\<rparr>))"

definition Thread_wait :: "bool \<Rightarrow> nat \<Rightarrow> 'cb threads \<Rightarrow> 'cb threads result" where
  "Thread_wait intr a w =
     and_then (obj_at a w) (\<lambda>x.
     and_then (Semphore_wait intr (th_sem x)) (\<lambda>v.
     Inr ((put_obj a (x\<lparr>th_sem := v\<rparr>) w)\<lparr>building := (building w)(a := None)\<rparr>)))"

definition Thread_dtor :: "nat \<Rightarrow> 'cb threads \<Rightarrow> 'cb threads result" where
  "Thread_dtor a w =
     and_then (obj_at a w) (\<lambda>x.
     let w1 = (if th_handle x \<noteq> 0 then snd (pthread_detach (th_handle x) w) else w)
     in Inr (w1\<lparr>objs := (objs w1)(a := None)\<rparr>))"

definition Thread_join :: "tid \<Rightarrow> nat \<Rightarrow> 'cb threads \<Rightarrow> 'cb threads result" where
  "Thread_join u a w =
     and_then (obj_at a w) (\<lambda>x.
     if th_handle x \<noteq> 0
     then and_then (pthread_join u (th_handle x) w) (\<lambda>(ret, w1).
          if ret \<noteq> 0 then Inl (Exn ''pthread_join error'')
          else Inr (put_obj a (x\<lparr>th_handle := 0\<rparr>) w1))
     else Inr w)"

definition Thread_detach :: "nat \<Rightarrow> 'cb threads \<Rightarrow> 'cb threads result" where
  "Thread_detach a w =
     and_then (obj_at a w) (\<lambda>x.
     if th_handle x \<noteq> 0
     then let (ret, w1) = pthread_detach (th_handle x) w
       in if ret \<noteq> 0 then Inl (Exn ''pthread_join error'')
          else Inr (put_obj a (x\<lparr>th_handle := 0\<rparr>) w1)
     else Inr w)"

text \<open>\<open>run\<close>, in the kernel thread \<open>k\<close>: up to the post, the post, and the call.\<close>

definition run_entry :: "tid \<Rightarrow> nat \<Rightarrow> 'cb threads \<Rightarrow> 'cb threads result" where
  "run_entry k a w =
     and_then (obj_at a w) (\<lambda>x.
     let w1 = w\<lparr>t_thread := (t_thread w)(k \<mapsto> a), t_thread_name := (t_thread_name w)(k := th_name x),
           k_name := (k_name w)(k := take 10 (th_name x))\<rparr>;
         x1 = x\<lparr>th_id := ucast k, th_cb := None\<rparr>
     in Inr (set_pc k (Posting a (th_cb x)) (put_obj a x1 w1)))"

definition run_post :: "tid \<Rightarrow> nat \<Rightarrow> 'cb option \<Rightarrow> 'cb threads \<Rightarrow> 'cb threads result" where
  "run_post k a cb w =
     and_then (obj_at a w) (\<lambda>x. Inr (set_pc k (Calling cb) (put_obj a (x\<lparr>th_sem := Semphore_post (th_sem x)\<rparr>) w)))"

definition run_call :: "tid \<Rightarrow> 'cb option \<Rightarrow> 'cb threads \<Rightarrow> 'cb threads result" where
  "run_call k cb w = (case cb of
       None \<Rightarrow> Inl (Exn ''bad_function_call'')
     | Some f \<Rightarrow> Inr (set_pc k Finished (w\<lparr>cb_calls := cb_calls w @ [(k, f)]\<rparr>)))"

section \<open>The interleavings\<close>

text \<open>
  The steps of all threads. The members of an object are called after its constructor returned and
  not after its destructor. \<open>sig\<close> says that a signal may interrupt the wait of the constructor.
\<close>

inductive thread_step :: "bool \<Rightarrow> 'cb threads \<Rightarrow> 'cb threads \<Rightarrow> bool" for sig where
  create: "objs w a = None \<Longrightarrow> pcs w k = None \<Longrightarrow> k \<noteq> 0 \<Longrightarrow> Thread_create 0 name cb u a k w = Inr w' \<Longrightarrow> thread_step sig w w'"
| wait: "building w a = Some u \<Longrightarrow> intr \<longrightarrow> sig \<Longrightarrow> Thread_wait intr a w = Inr w' \<Longrightarrow> thread_step sig w w'"
| entry: "pcs w k = Some (Entry a) \<Longrightarrow> run_entry k a w = Inr w' \<Longrightarrow> thread_step sig w w'"
| post: "pcs w k = Some (Posting a cb) \<Longrightarrow> run_post k a cb w = Inr w' \<Longrightarrow> thread_step sig w w'"
| run_cb: "pcs w k = Some (Calling cb) \<Longrightarrow> run_call k cb w = Inr w' \<Longrightarrow> thread_step sig w w'"
| set_name: "Thread_SetName t name w = Inr w' \<Longrightarrow> thread_step sig w w'"
| join: "building w a = None \<Longrightarrow> Thread_join u a w = Inr w' \<Longrightarrow> thread_step sig w w'"
| detach: "building w a = None \<Longrightarrow> Thread_detach a w = Inr w' \<Longrightarrow> thread_step sig w w'"
| dtor: "building w a = None \<Longrightarrow> Thread_dtor a w = Inr w' \<Longrightarrow> thread_step sig w w'"

definition no_threads :: "'cb threads" where
  "no_threads = \<lparr>objs = Map.empty, t_thread = Map.empty, t_thread_name = (\<lambda>_. ''UNKNOW''), k_name = (\<lambda>_. []), pcs = Map.empty,
     building = Map.empty, unjoinable = {}, cb_calls = []\<rparr>"

inductive thread_reachable :: "bool \<Rightarrow> 'cb threads \<Rightarrow> bool" for sig where
  start: "thread_reachable sig no_threads"
| step: "thread_reachable sig w \<Longrightarrow> thread_step sig w w' \<Longrightarrow> thread_reachable sig w'"

section \<open>Rules\<close>

lemma obj_at_Inr [simp]: "obj_at a w = Inr x \<longleftrightarrow> objs w a = Some x"
  by (simp add: obj_at_def split: option.splits)

lemma put_obj_sel [simp]:
  "objs (put_obj a x w) = (objs w)(a \<mapsto> x)" "t_thread (put_obj a x w) = t_thread w" "t_thread_name (put_obj a x w) = t_thread_name w"
  "k_name (put_obj a x w) = k_name w" "pcs (put_obj a x w) = pcs w" "building (put_obj a x w) = building w"
  "unjoinable (put_obj a x w) = unjoinable w" "cb_calls (put_obj a x w) = cb_calls w"
  by (simp_all add: put_obj_def)

lemma set_pc_sel [simp]:
  "objs (set_pc k p w) = objs w" "t_thread (set_pc k p w) = t_thread w" "t_thread_name (set_pc k p w) = t_thread_name w"
  "k_name (set_pc k p w) = k_name w" "pcs (set_pc k p w) = (pcs w)(k \<mapsto> p)" "building (set_pc k p w) = building w"
  "unjoinable (set_pc k p w) = unjoinable w" "cb_calls (set_pc k p w) = cb_calls w"
  by (simp_all add: set_pc_def)

lemma Semphore_0: "Semphore 0 = Inr 0"
  by (simp add: Semphore_def sem_init_def SEM_VALUE_MAX_def)

lemma Semphore_ops: "Semphore_post 0 = 1" "Semphore_wait False v = Inr v' \<longleftrightarrow> v > 0 \<and> v' = v - 1"
  by (auto simp: Semphore_post_def sem_post_def SEM_VALUE_MAX_def discard_error_def Semphore_wait_def sem_wait_def)

section \<open>The invariant\<close>

text \<open>The kernel thread \<open>k\<close> has run the part of \<open>run\<close> that uses the object \<open>a\<close>.\<close>

definition served :: "tid \<Rightarrow> nat \<Rightarrow> 'cb thread_obj \<Rightarrow> 'cb threads \<Rightarrow> bool" where
  "served k a x w \<longleftrightarrow> th_id x = ucast k \<and> t_thread w k = Some a \<and> th_cb x = None
     \<and> (pcs w k = Some Finished \<or> (\<exists>f. pcs w k = Some (Calling (Some f))))"

definition obj_ok :: "nat \<Rightarrow> 'cb thread_obj \<Rightarrow> 'cb threads \<Rightarrow> bool" where
  "obj_ok a x w \<longleftrightarrow> (case building w a of
       None \<Rightarrow> th_sem x = 0 \<and> (\<exists>k. served k a x w \<and> (th_handle x = 0 \<or> th_handle x = k))
     | Some u \<Rightarrow> th_handle x \<noteq> 0 \<and>
         (pcs w (th_handle x) = Some (Entry a) \<and> th_sem x = 0 \<and> th_cb x \<noteq> None
          \<or> (\<exists>f. pcs w (th_handle x) = Some (Posting a (Some f))) \<and> th_sem x = 0 \<and> th_id x = ucast (th_handle x)
              \<and> t_thread w (th_handle x) = Some a \<and> th_cb x = None
          \<or> served (th_handle x) a x w \<and> th_sem x = 1))"

definition pc_ok :: "tid \<Rightarrow> 'cb run_pc \<Rightarrow> 'cb threads \<Rightarrow> bool" where
  "pc_ok k p w \<longleftrightarrow> (case p of
       Entry a \<Rightarrow> building w a \<noteq> None \<and> (\<exists>x. objs w a = Some x \<and> th_handle x = k)
     | Posting a cb \<Rightarrow> building w a \<noteq> None \<and> (\<exists>x. objs w a = Some x \<and> th_handle x = k)
     | Calling cb \<Rightarrow> cb \<noteq> None
     | Finished \<Rightarrow> True)"

definition handles_ok :: "'cb threads \<Rightarrow> bool" where
  "handles_ok w \<longleftrightarrow> (\<forall>a x. objs w a = Some x \<longrightarrow> th_handle x \<noteq> 0 \<longrightarrow> pcs w (th_handle x) \<noteq> None \<and> th_handle x \<notin> unjoinable w)
     \<and> (\<forall>a b x y. objs w a = Some x \<longrightarrow> objs w b = Some y \<longrightarrow> th_handle x \<noteq> 0 \<longrightarrow> th_handle x = th_handle y \<longrightarrow> a = b)
     \<and> (\<forall>k \<in> unjoinable w. pcs w k \<noteq> None)"

definition calls_ok :: "'cb threads \<Rightarrow> bool" where
  "calls_ok w \<longleftrightarrow> (\<forall>k. length (filter (\<lambda>c. fst c = k) (cb_calls w)) = (if pcs w k = Some Finished then 1 else 0))"

definition threads_ok :: "'cb threads \<Rightarrow> bool" where
  "threads_ok w \<longleftrightarrow> (\<forall>a x. objs w a = Some x \<longrightarrow> obj_ok a x w) \<and> (\<forall>k p. pcs w k = Some p \<longrightarrow> pc_ok k p w)
     \<and> handles_ok w \<and> calls_ok w \<and> (\<forall>a. objs w a = None \<longrightarrow> building w a = None)"

lemma threads_okI:
  assumes "\<And>a x. objs w a = Some x \<Longrightarrow> obj_ok a x w" and "\<And>k p. pcs w k = Some p \<Longrightarrow> pc_ok k p w"
    and "handles_ok w" and "calls_ok w" and "\<And>a. objs w a = None \<Longrightarrow> building w a = None"
  shows "threads_ok w"
  using assms by (simp add: threads_ok_def)

lemma threads_okD:
  assumes "threads_ok w"
  shows "objs w a = Some x \<Longrightarrow> obj_ok a x w" and "pcs w k = Some p \<Longrightarrow> pc_ok k p w"
    and "handles_ok w" and "calls_ok w" and "objs w a = None \<Longrightarrow> building w a = None"
  using assms by (simp_all add: threads_ok_def)

text \<open>What an object and a thread of the invariant look at.\<close>

lemma obj_ok_frame:
  assumes o: "obj_ok a x w" and b: "building w' a = building w a"
    and keep: "\<And>k p. pcs w k = Some p \<Longrightarrow> th_handle x \<noteq> 0 \<and> k = th_handle x \<or> served k a x w \<Longrightarrow>
      t_thread w' k = t_thread w k \<and> (pcs w' k = Some p \<or> (\<exists>f. p = Calling f) \<and> pcs w' k = Some Finished)"
  shows "obj_ok a x w'"
proof -
  have s: "served k a x w'" if "served k a x w" for k
  proof -
    have "\<exists>p. pcs w k = Some p \<and> (p = Finished \<or> (\<exists>f. p = Calling (Some f)))" using that by (auto simp: served_def)
    then obtain p where "pcs w k = Some p" "p = Finished \<or> (\<exists>f. p = Calling (Some f))" by blast
    then show ?thesis using keep [of k p] that by (auto simp: served_def)
  qed
  show ?thesis
  proof (cases "building w a")
    case None
    then show ?thesis using o b s by (auto simp: obj_ok_def)
  next
    case (Some u)
    then have h: "th_handle x \<noteq> 0" using o by (simp add: obj_ok_def)
    have e: "pcs w' (th_handle x) = Some p \<and> t_thread w' (th_handle x) = t_thread w (th_handle x)"
      if "pcs w (th_handle x) = Some p" "\<And>f. p \<noteq> Calling f" for p
      using keep [OF that(1)] h that(2) by auto
    show ?thesis using o b Some s e by (auto simp: obj_ok_def)
  qed
qed

lemma handlesD:
  assumes "handles_ok w" and "objs w a = Some x" and "th_handle x \<noteq> 0"
  shows "pcs w (th_handle x) \<noteq> None" "th_handle x \<notin> unjoinable w" "objs w b = Some y \<Longrightarrow> th_handle y = th_handle x \<Longrightarrow> b = a"
  using assms unfolding handles_ok_def by (metis)+

lemma calls_set_pc:
  assumes "calls_ok w" and "pcs w k \<noteq> Some Finished" and "p \<noteq> Finished" and "cb_calls w' = cb_calls w" and "pcs w' = (pcs w)(k \<mapsto> p)"
  shows "calls_ok w'"
  using assms by (simp add: calls_ok_def)

lemma create_ok:
  assumes i: "threads_ok w" and a: "objs w a = None" and k: "pcs w k = None" "k \<noteq> 0"
    and r: "Thread_create 0 name cb u a k w = Inr w'"
  shows "threads_ok w'"
proof -
  let ?x = "\<lparr>th_id = -1, th_handle = k, th_cb = Some cb, th_name = (if name = [] then ''UNKNOW'' else name), th_sem = 0\<rparr>"
  have w': "w' = (set_pc k (Entry a) (put_obj a ?x w))\<lparr>building := (building w)(a \<mapsto> u)\<rparr>"
    using r by (simp add: Thread_create_def Semphore_0 Let_def)
  show ?thesis
  proof (rule threads_okI)
    show "obj_ok b y w'" if "objs w' b = Some y" for b y
    proof (cases "b = a")
      case False
      then have y: "objs w b = Some y" using that w' by simp
      show ?thesis by (rule obj_ok_frame [OF threads_okD(1) [OF i y]]) (use False w' k(1) in auto)
    next
      case True
      then have "y = ?x" using that w' by simp
      then show ?thesis using True w' k(2) by (simp add: obj_ok_def)
    qed
    show "pc_ok j p w'" if "pcs w' j = Some p" for j p
    proof (cases "j = k")
      case True
      then have "p = Entry a" using that w' by simp
      then show ?thesis using True w' by (simp add: pc_ok_def)
    next
      case False
      then show ?thesis using threads_okD(2) [OF i, of j p] that w' a by (auto simp: pc_ok_def split: run_pc.splits)
    qed
    have "th_handle y \<noteq> k" if "objs w b = Some y" for b y
      using handlesD(1) [OF threads_okD(3) [OF i] that] k by auto
    then show "handles_ok w'"
      using threads_okD(3) [OF i] k w' unfolding handles_ok_def by (auto split: if_splits)
    show "calls_ok w'" by (rule calls_set_pc [OF threads_okD(4) [OF i], of k "Entry a"]) (use k w' in simp_all)
  qed (use threads_okD(5) [OF i] w' in \<open>auto split: if_splits\<close>)
qed

lemma wait_ok:
  assumes i: "threads_ok w" and b: "building w a = Some u" and r: "Thread_wait False a w = Inr w'"
  shows "threads_ok w'"
proof -
  obtain x where x: "objs w a = Some x" "th_sem x > 0" "w' = (put_obj a (x\<lparr>th_sem := th_sem x - 1\<rparr>) w)\<lparr>building := (building w)(a := None)\<rparr>"
    using r by (auto simp: Thread_wait_def Semphore_ops)
  have s: "served (th_handle x) a x w" "th_sem x = 1" "th_handle x \<noteq> 0"
    using threads_okD(1) [OF i x(1)] x(2) b by (auto simp: obj_ok_def)
  show ?thesis
  proof (rule threads_okI)
    show "obj_ok c y w'" if "objs w' c = Some y" for c y
    proof (cases "c = a")
      case True
      then show ?thesis using that s x(3) by (auto simp: obj_ok_def served_def)
    next
      case False
      show ?thesis by (rule obj_ok_frame [OF threads_okD(1) [OF i, of c y]]) (use that False x(3) in auto)
    qed
    show "pc_ok j p w'" if j: "pcs w' j = Some p" for j p
    proof -
      have p: "pc_ok j p w" using threads_okD(2) [OF i] j x(3) by simp
      moreover have "p \<noteq> Entry a \<and> (\<forall>c. p \<noteq> Posting a c)" using p s x(1) j x(3) by (auto simp: pc_ok_def served_def)
      ultimately show ?thesis using x(1,3) by (auto simp: pc_ok_def split: run_pc.splits)
    qed
    show "handles_ok w'" using threads_okD(3) [OF i] x by (auto simp: handles_ok_def split: if_splits)
    show "calls_ok w'" using threads_okD(4) [OF i] x(3) by (simp add: calls_ok_def)
  qed (use threads_okD(5) [OF i] x(3) in \<open>auto split: if_splits\<close>)
qed

lemma entry_ok:
  assumes i: "threads_ok w" and p: "pcs w k = Some (Entry a)" and r: "run_entry k a w = Inr w'"
  shows "threads_ok w'"
proof -
  obtain x u where x: "objs w a = Some x" "th_handle x = k" "building w a = Some u"
    using threads_okD(2) [OF i p] by (auto simp: pc_ok_def)
  have s: "th_sem x = 0" "th_cb x \<noteq> None" "k \<noteq> 0"
    using threads_okD(1) [OF i x(1)] x p by (auto simp: obj_ok_def served_def)
  let ?x = "x\<lparr>th_id := ucast k, th_cb := None\<rparr>"
  have w': "objs w' = (objs w)(a \<mapsto> ?x)" "t_thread w' = (t_thread w)(k \<mapsto> a)" "pcs w' = (pcs w)(k \<mapsto> Posting a (th_cb x))"
      "building w' = building w" "unjoinable w' = unjoinable w" "cb_calls w' = cb_calls w"
    using r x by (auto simp: run_entry_def Let_def)
  show ?thesis
  proof (rule threads_okI)
    show "obj_ok b y w'" if y: "objs w' b = Some y" for b y
    proof (cases "b = a")
      case True
      then show ?thesis using y s x(2,3) w' by (auto simp: obj_ok_def)
    next
      case False
      then have y: "objs w b = Some y" using y w' by simp
      have "th_handle y \<noteq> k" using handlesD(3) [OF threads_okD(3) [OF i] x(1) _ y] x(2) s(3) False by auto
      moreover have "\<not> served k b y w" using p by (simp add: served_def)
      ultimately show ?thesis by (intro obj_ok_frame [OF threads_okD(1) [OF i y]]) (auto simp: w')
    qed
    show "pc_ok j q w'" if j: "pcs w' j = Some q" for j q
    proof (cases "j = k")
      case True
      then show ?thesis using j w' x by (auto simp: pc_ok_def)
    next
      case False
      then show ?thesis using threads_okD(2) [OF i, of j q] j w' x by (auto simp: pc_ok_def split: run_pc.splits)
    qed
    show "handles_ok w'" using threads_okD(3) [OF i] x w' by (auto simp: handles_ok_def split: if_splits)
    show "calls_ok w'" by (rule calls_set_pc [OF threads_okD(4) [OF i] _ _ w'(6,3)]) (use p in simp_all)
  qed (use threads_okD(5) [OF i] w' in \<open>auto split: if_splits\<close>)
qed

lemma post_ok:
  assumes i: "threads_ok w" and p: "pcs w k = Some (Posting a cb)" and r: "run_post k a cb w = Inr w'"
  shows "threads_ok w'"
proof -
  obtain x u where x: "objs w a = Some x" "th_handle x = k" "building w a = Some u"
    using threads_okD(2) [OF i p] by (auto simp: pc_ok_def)
  have s: "th_sem x = 0" "cb \<noteq> None" "k \<noteq> 0" "th_id x = ucast k" "t_thread w k = Some a" "th_cb x = None"
    using threads_okD(1) [OF i x(1)] x p by (auto simp: obj_ok_def served_def)
  let ?x = "x\<lparr>th_sem := 1\<rparr>"
  have w': "objs w' = (objs w)(a \<mapsto> ?x)" "t_thread w' = t_thread w" "pcs w' = (pcs w)(k \<mapsto> Calling cb)"
      "building w' = building w" "unjoinable w' = unjoinable w" "cb_calls w' = cb_calls w"
    using r x s(1) by (auto simp: run_post_def Semphore_ops)
  show ?thesis
  proof (rule threads_okI)
    show "obj_ok b y w'" if y: "objs w' b = Some y" for b y
    proof (cases "b = a")
      case True
      then show ?thesis using y s x(2,3) w' by (auto simp: obj_ok_def served_def)
    next
      case False
      then have y: "objs w b = Some y" using y w' by simp
      have "th_handle y \<noteq> k" using handlesD(3) [OF threads_okD(3) [OF i] x(1) _ y] x(2) s(3) False by auto
      moreover have "\<not> served k b y w" using p by (simp add: served_def)
      ultimately show ?thesis by (intro obj_ok_frame [OF threads_okD(1) [OF i y]]) (auto simp: w')
    qed
    show "pc_ok j q w'" if j: "pcs w' j = Some q" for j q
    proof (cases "j = k")
      case True
      then show ?thesis using j w' s(2) by (auto simp: pc_ok_def)
    next
      case False
      then show ?thesis using threads_okD(2) [OF i, of j q] j w' x by (auto simp: pc_ok_def split: run_pc.splits)
    qed
    show "handles_ok w'" using threads_okD(3) [OF i] x w' by (auto simp: handles_ok_def split: if_splits)
    show "calls_ok w'" by (rule calls_set_pc [OF threads_okD(4) [OF i] _ _ w'(6,3)]) (use p in simp_all)
  qed (use threads_okD(5) [OF i] w' in \<open>auto split: if_splits\<close>)
qed

lemma run_cb_ok:
  assumes i: "threads_ok w" and p: "pcs w k = Some (Calling cb)" and r: "run_call k cb w = Inr w'"
  shows "threads_ok w'"
proof -
  obtain f where w': "cb = Some f" "objs w' = objs w" "t_thread w' = t_thread w" "pcs w' = (pcs w)(k \<mapsto> Finished)"
      "building w' = building w" "unjoinable w' = unjoinable w" "cb_calls w' = cb_calls w @ [(k, f)]"
    using r by (auto simp: run_call_def split: option.splits)
  show ?thesis
  proof (rule threads_okI)
    show "obj_ok b y w'" if y: "objs w' b = Some y" for b y
      by (rule obj_ok_frame [OF threads_okD(1) [OF i, of b y]]) (use y p in \<open>auto simp: w'\<close>)
    show "pc_ok j q w'" if j: "pcs w' j = Some q" for j q
      using threads_okD(2) [OF i, of j q] j w' by (auto simp: pc_ok_def split: run_pc.splits if_splits)
    show "handles_ok w'" using threads_okD(3) [OF i] w' by (auto simp: handles_ok_def split: if_splits)
    show "calls_ok w'" using threads_okD(4) [OF i] w' p by (auto simp: calls_ok_def)
  qed (use threads_okD(5) [OF i] w' in \<open>auto split: if_splits\<close>)
qed

text \<open>A change of an object that has been constructed, or of its name.\<close>

lemma change_ok:
  assumes i: "threads_ok w" and x: "objs w a = Some x" and x': "th_id x' = th_id x" "th_cb x' = th_cb x" "th_sem x' = th_sem x"
    and h: "th_handle x' = th_handle x \<or> th_handle x' = 0 \<and> building w a = None"
    and J: "J = {} \<or> J = {th_handle x} \<and> th_handle x' \<noteq> th_handle x"
    and w': "objs w' = (objs w)(a \<mapsto> x')" "t_thread w' = t_thread w" "pcs w' = pcs w"
      "building w' = building w" "unjoinable w' = J \<union> unjoinable w" "cb_calls w' = cb_calls w"
  shows "threads_ok w'"
proof (rule threads_okI)
  show "obj_ok b y w'" if y: "objs w' b = Some y" for b y
    using threads_okD(1) [OF i, of b] x y x' h w'
    by (auto simp: obj_ok_def served_def split: option.splits if_splits)
  show "pc_ok j q w'" if j: "pcs w' j = Some q" for j q
    using threads_okD(2) [OF i, of j q] x j h w' by (auto simp: pc_ok_def split: run_pc.splits if_splits)
  have "pcs w (th_handle x) \<noteq> None" if "J \<noteq> {}"
    using J h that handlesD(1) [OF threads_okD(3) [OF i] x] by auto
  then show "handles_ok w'"
    using threads_okD(3) [OF i] x h J w' unfolding handles_ok_def by (auto split: if_splits)
  show "calls_ok w'" using threads_okD(4) [OF i] w' by (simp add: calls_ok_def)
qed (use threads_okD(5) [OF i] w' in \<open>auto split: if_splits\<close>)

lemma dtor_ok:
  assumes i: "threads_ok w" and b: "building w a = None" and r: "Thread_dtor a w = Inr w'"
  shows "threads_ok w'"
proof -
  obtain x where x: "objs w a = Some x" using r by (auto simp: Thread_dtor_def)
  have w': "objs w' = (objs w)(a := None)" "t_thread w' = t_thread w" "pcs w' = pcs w" "building w' = building w" "cb_calls w' = cb_calls w"
      "unjoinable w' = (if th_handle x = 0 then unjoinable w else insert (th_handle x) (unjoinable w))"
    using r x handlesD(2) [OF threads_okD(3) [OF i] x] by (auto simp: Thread_dtor_def pthread_detach_def Let_def split: if_splits)
  show ?thesis
  proof (rule threads_okI)
    show "obj_ok c y w'" if y: "objs w' c = Some y" for c y
      by (rule obj_ok_frame [OF threads_okD(1) [OF i, of c y]]) (use y in \<open>auto simp: w' split: if_splits\<close>)
    show "pc_ok j q w'" if j: "pcs w' j = Some q" for j q
      using threads_okD(2) [OF i, of j q] j b w' by (auto simp: pc_ok_def split: run_pc.splits)
    show "handles_ok w'"
      using threads_okD(3) [OF i] x handlesD [OF threads_okD(3) [OF i] x] w' unfolding handles_ok_def by (auto split: if_splits)
    show "calls_ok w'" using threads_okD(4) [OF i] w' by (simp add: calls_ok_def)
    show "building w' c = None" if "objs w' c = None" for c
      using that threads_okD(5) [OF i, of c] b w' by (auto split: if_splits)
  qed
qed

lemma threads_ok_cong:
  assumes "objs w' = objs w" "t_thread w' = t_thread w" "pcs w' = pcs w" "building w' = building w" "unjoinable w' = unjoinable w"
    "cb_calls w' = cb_calls w"
  shows "threads_ok w' = threads_ok w"
proof -
  have "obj_ok a x w' = obj_ok a x w" for a x by (cases "building w a") (simp_all add: obj_ok_def served_def assms)
  moreover have "pc_ok k p w' = pc_ok k p w" for k p by (cases p) (simp_all add: pc_ok_def assms)
  ultimately show ?thesis by (simp add: threads_ok_def handles_ok_def calls_ok_def assms)
qed

lemma Thread_step_change:
  assumes i: "threads_ok w"
  shows "Thread_SetName t name w = Inr w' \<Longrightarrow> threads_ok w'"
    and "building w a = None \<Longrightarrow> Thread_join u a w = Inr w' \<Longrightarrow> threads_ok w'"
    and "building w a = None \<Longrightarrow> Thread_detach a w = Inr w' \<Longrightarrow> threads_ok w'"
proof -
  show "threads_ok w'" if r: "Thread_SetName t name w = Inr w'"
  proof (cases "name = [] \<or> t_thread w t = None")
    case True
    then have "objs w' = objs w" "t_thread w' = t_thread w" "pcs w' = pcs w" "building w' = building w" "unjoinable w' = unjoinable w"
      "cb_calls w' = cb_calls w" using r by (auto simp: Thread_SetName_def split: if_splits)
    then show ?thesis using threads_ok_cong i by blast
  next
    case False
    then obtain a x where a: "t_thread w t = Some a" "objs w a = Some x"
      using r by (auto simp: Thread_SetName_def split: if_splits)
    show ?thesis
      by (rule change_ok [OF i a(2), where x' = "x\<lparr>th_name := name\<rparr>" and J = "{}"]) (use r a False in \<open>auto simp: Thread_SetName_def\<close>)
  qed
  show "threads_ok w'" if b: "building w a = None" and r: "Thread_join u a w = Inr w'"
  proof -
    obtain x where x: "objs w a = Some x" using r by (auto simp: Thread_join_def)
    show ?thesis
    proof (cases "th_handle x = 0")
      case False
      show ?thesis
        by (rule change_ok [OF i x, where x' = "x\<lparr>th_handle := 0\<rparr>" and J = "{th_handle x}"])
          (use r x b False in \<open>auto simp: Thread_join_def pthread_join_def EDEADLK_def EINVAL_def split: if_splits\<close>)
    qed (use i r x in \<open>simp add: Thread_join_def\<close>)
  qed
  show "threads_ok w'" if b: "building w a = None" and r: "Thread_detach a w = Inr w'"
  proof -
    obtain x where x: "objs w a = Some x" using r by (auto simp: Thread_detach_def)
    show ?thesis
    proof (cases "th_handle x = 0")
      case False
      show ?thesis
        by (rule change_ok [OF i x, where x' = "x\<lparr>th_handle := 0\<rparr>" and J = "{th_handle x}"])
          (use r x b False in \<open>auto simp: Thread_detach_def pthread_detach_def EINVAL_def split: if_splits\<close>)
    qed (use i r x in \<open>simp add: Thread_detach_def\<close>)
  qed
qed

lemma thread_step_ok: "thread_step False w w' \<Longrightarrow> threads_ok w \<Longrightarrow> threads_ok w'"
proof (induction rule: thread_step.induct)
  case (create w a k name cb u w')
  then show ?case by (intro create_ok [OF create(5) create(1-4)])
next
  case (wait w a u intr w')
  then show ?case using wait_ok by auto
qed (auto intro: entry_ok post_ok run_cb_ok Thread_step_change dtor_ok)

lemma thread_reachable_ok: "thread_reachable False w \<Longrightarrow> threads_ok w"
proof (induction rule: thread_reachable.induct)
  case start
  then show ?case by (simp add: threads_ok_def no_threads_def handles_ok_def calls_ok_def)
qed (rule thread_step_ok)

lemma Thread_dtor_effect:
  assumes "objs w a = Some x"
  shows "\<exists>w'. Thread_dtor a w = Inr w' \<and> objs w' = (objs w)(a := None) \<and> pcs w' = pcs w \<and> t_thread w' = t_thread w"
  using assms by (simp add: Thread_dtor_def pthread_detach_def obj_at_def Let_def)

section \<open>Properties\<close>

text \<open>
  C17: the handshake of the constructor. When no signal interrupts it, an object whose constructor has
  returned has the id of a kernel thread that has taken the callback, has the object as its
  \<open>t_thread\<close> and will not use the object again on its own; and the part of \<open>run\<close> that uses the object
  only runs while the constructor waits, so it never meets a destroyed object.
\<close>

theorem thread_handshake:
  assumes "thread_reachable False w"
  shows "(objs w a = Some x \<and> building w a = None \<longrightarrow>
      (\<exists>k. th_id x = ucast k \<and> t_thread w k = Some a \<and> th_cb x = None \<and> (th_handle x = 0 \<or> th_handle x = k)
        \<and> (pcs w k = Some Finished \<or> (\<exists>f. pcs w k = Some (Calling (Some f))))))
    \<and> (pcs w k = Some (Entry a) \<or> pcs w k = Some (Posting a cb) \<longrightarrow> building w a \<noteq> None \<and> objs w a \<noteq> None)"
proof -
  have i: "threads_ok w" by (rule thread_reachable_ok [OF assms])
  have "\<exists>k. th_id x = ucast k \<and> t_thread w k = Some a \<and> th_cb x = None \<and> (th_handle x = 0 \<or> th_handle x = k)
        \<and> (pcs w k = Some Finished \<or> (\<exists>f. pcs w k = Some (Calling (Some f))))" if o: "objs w a = Some x" and b: "building w a = None"
  proof -
    obtain j where "served j a x w" "th_handle x = 0 \<or> th_handle x = j"
      using threads_okD(1) [OF i o] b by (auto simp: obj_ok_def)
    then show ?thesis unfolding served_def by blast
  qed
  moreover have "pc_ok k (Entry a) w" if "pcs w k = Some (Entry a)" by (rule threads_okD(2) [OF i that])
  moreover have "pc_ok k (Posting a cb) w" if "pcs w k = Some (Posting a cb)" by (rule threads_okD(2) [OF i that])
  ultimately show ?thesis by (auto simp: pc_ok_def)
qed

lemma wait_posted [simp]: "Semphore_wait False (Suc n) = Inr n"
  by (simp add: Semphore_wait_def sem_wait_def discard_error_def)

definition one_thread :: "string threads" where
  "one_thread = projr (and_then (Thread_create 0 [] ''f'' 1 0 7 no_threads) (\<lambda>w.
     and_then (run_entry 7 0 w) (\<lambda>w. and_then (run_post 7 0 (Some ''f'') w) (Thread_wait False 0))))"

lemma one_thread_eq:
  "one_thread = \<lparr>objs = [0 \<mapsto> \<lparr>th_id = 7, th_handle = 7, th_cb = None, th_name = ''UNKNOW'', th_sem = 0\<rparr>], t_thread = [7 \<mapsto> 0],
     t_thread_name = (\<lambda>_. ''UNKNOW'')(7 := ''UNKNOW''), k_name = (\<lambda>_. [])(7 := ''UNKNOW''), pcs = [7 \<mapsto> Calling (Some ''f'')],
     building = Map.empty, unjoinable = {}, cb_calls = []\<rparr>"
  by (simp add: one_thread_def Thread_create_def Semphore_0 Let_def run_entry_def run_post_def Thread_wait_def
      Semphore_ops put_obj_def set_pc_def no_threads_def obj_at_def)

lemma one_thread_reachable: "thread_reachable False one_thread"
proof -
  let ?w1 = "projr (Thread_create 0 [] ''f'' 1 0 7 (no_threads :: string threads))"
  let ?w2 = "projr (run_entry 7 0 ?w1)"
  let ?w3 = "projr (run_post 7 0 (Some ''f'') ?w2)"
  note run = Thread_create_def Semphore_0 Let_def run_entry_def run_post_def Thread_wait_def put_obj_def set_pc_def no_threads_def obj_at_def
  have "thread_reachable False ?w1"
    by (rule thread_reachable.step [OF thread_reachable.start thread_step.create [where a = 0 and k = 7 and cb = "''f''" and name = "[]" and u = 1]])
      (simp_all add: run)
  then have "thread_reachable False ?w2"
    by (rule thread_reachable.step [OF _ thread_step.entry [where k = 7 and a = 0]]) (simp_all add: run)
  then have "thread_reachable False ?w3"
    by (rule thread_reachable.step [OF _ thread_step.post [where k = 7 and a = 0 and cb = "Some ''f''"]]) (simp_all add: run)
  then show ?thesis
    by (rule thread_reachable.step [OF _ thread_step.wait [where a = 0 and u = 1 and intr = False]])
      (simp_all add: run Semphore_ops(1) one_thread_eq)
qed

theorem thread_handshake_witness:
  "\<exists>k. (7 :: u32) = ucast (k :: tid) \<and> t_thread one_thread k = Some 0"
  using thread_handshake [OF one_thread_reachable, of 0] by (auto simp: one_thread_eq split: if_splits)

text \<open>
  The callbacks. Every kernel thread calls its callback once, as its last step; before it no callback
  is called in that thread, and an empty callback is never called.
\<close>

theorem callback_called_once:
  assumes "thread_reachable False w"
  shows "length (filter (\<lambda>c. fst c = k) (cb_calls w)) = (if pcs w k = Some Finished then 1 else 0)
    \<and> (pcs w k = Some (Calling cb) \<longrightarrow> (\<exists>w'. run_call k cb w = Inr w' \<and> pcs w' k = Some Finished))"
proof -
  have i: "threads_ok w" by (rule thread_reachable_ok [OF assms])
  show ?thesis
    using threads_okD(4) [OF i] threads_okD(2) [OF i, of k "Calling cb"] by (auto simp: calls_ok_def pc_ok_def run_call_def)
qed

theorem callback_called_once_witness:
  "filter (\<lambda>c. fst c = 7) (cb_calls one_thread) = [] \<and> (\<exists>w'. run_call 7 (Some ''f'') one_thread = Inr w')"
  using callback_called_once [OF one_thread_reachable, of 7 "Some ''f''"] by (auto simp: one_thread_eq)

text \<open>
  \<open>join\<close>. On an object whose kernel thread was joined or detached before, it does nothing. Otherwise it
  fails only in the thread itself (\<open>EDEADLK\<close>), waits until the callback is over, and then leaves an
  object on which \<open>join\<close> and \<open>detach\<close> do nothing.
\<close>

theorem Thread_join_outcome:
  assumes "thread_reachable False w" and "objs w a = Some x"
  shows "if th_handle x = 0 then Thread_join u a w = Inr w
    else if th_handle x = u then Thread_join u a w = Inl (Exn ''pthread_join error'')
    else if pcs w (th_handle x) \<noteq> Some Finished then Thread_join u a w = Inl Blocked
    else \<exists>w'. Thread_join u a w = Inr w' \<and> objs w' = (objs w)(a \<mapsto> x\<lparr>th_handle := 0\<rparr>)
      \<and> Thread_join u a w' = Inr w' \<and> Thread_detach a w' = Inr w'"
proof -
  have h: "handles_ok w" by (rule threads_okD(3) [OF thread_reachable_ok [OF assms(1)]])
  show ?thesis
    using assms(2) handlesD(2) [OF h assms(2)]
    by (auto simp: Thread_join_def Thread_detach_def pthread_join_def obj_at_def put_obj_def EDEADLK_def)
qed

theorem Thread_join_outcome_witness:
  "Thread_join 1 0 one_thread = Inl Blocked"
  using Thread_join_outcome [OF one_thread_reachable, of 0 _ 1] by (simp add: one_thread_eq)

text \<open>
  An interrupted constructor. The wait for the semaphore does not look at the result of
  \<open>sem_wait\<close>: when a signal interrupts it, the constructor returns an object whose thread id is
  \<open>-1\<close> and whose callback has not been taken; and when the object is then destroyed, the kernel thread's
  \<open>run\<close> uses a destroyed object.
\<close>

theorem interrupted_constructor:
  assumes "Thread_create 0 name cb u a k w = Inr w1"
  shows "\<exists>w2 x w3. Thread_wait True a w1 = Inr w2 \<and> objs w2 a = Some x \<and> th_id x = -1 \<and> th_cb x = Some cb
    \<and> Thread_dtor a w2 = Inr w3 \<and> pcs w3 k = Some (Entry a) \<and> run_entry k a w3 = Inl (UB ''destroyed Thread'')"
proof -
  let ?x = "\<lparr>th_id = -1, th_handle = k, th_cb = Some cb, th_name = (if name = [] then ''UNKNOW'' else name), th_sem = 0\<rparr>"
  have w1: "w1 = (set_pc k (Entry a) (put_obj a ?x w))\<lparr>building := (building w)(a \<mapsto> u)\<rparr>"
    using assms(1) by (simp add: Thread_create_def Semphore_0 Let_def)
  let ?w2 = "(put_obj a ?x w1)\<lparr>building := (building w1)(a := None)\<rparr>"
  have "Semphore_wait True 0 = Inr 0" by (simp add: Semphore_wait_def sem_wait_def discard_error_def)
  then have 2: "Thread_wait True a w1 = Inr ?w2" by (simp add: Thread_wait_def w1 obj_at_def)
  have "objs ?w2 a = Some ?x" "pcs ?w2 k = Some (Entry a)" by (simp_all add: w1)
  moreover obtain w3 where 3: "Thread_dtor a ?w2 = Inr w3" "objs w3 a = None" "pcs w3 = pcs ?w2"
    using Thread_dtor_effect [OF calculation(1)] by auto
  moreover have "run_entry k a w3 = Inl (UB ''destroyed Thread'')" using 3(2) by (simp add: run_entry_def obj_at_def)
  ultimately show ?thesis using 2 by (intro exI [of _ ?w2] exI [of _ ?x] exI [of _ w3]) simp
qed

theorem interrupted_constructor_witness:
  "\<exists>w1 w2 w3. Thread_create 0 [] ''f'' 1 0 7 no_threads = Inr w1 \<and> Thread_wait True 0 w1 = Inr w2 \<and> Thread_dtor 0 w2 = Inr w3
    \<and> run_entry 7 0 w3 = Inl (UB ''destroyed Thread'')"
proof -
  obtain w1 :: "string threads" where w1: "Thread_create 0 [] ''f'' 1 0 7 no_threads = Inr w1" by (simp add: Thread_create_def Semphore_0 Let_def)
  from interrupted_constructor [OF w1] w1 show ?thesis by auto
qed

text \<open>
  \<open>SetName\<close>. In a thread without an object only the thread-local name changes, an empty name changes
  nothing; a thread that still runs its callback when its object is destroyed writes to the destroyed
  object.
\<close>

theorem SetName_outcome:
  "Thread_SetName t [] w = Inr w
    \<and> (name \<noteq> [] \<and> t_thread w t = None \<longrightarrow> Thread_SetName t name w = Inr (w\<lparr>t_thread_name := (t_thread_name w)(t := name)\<rparr>))
    \<and> (name \<noteq> [] \<and> t_thread w t = Some a \<and> objs w a = Some x \<longrightarrow>
        (\<exists>w'. Thread_SetName t name w = Inr w' \<and> objs w' = (objs w)(a \<mapsto> x\<lparr>th_name := name\<rparr>) \<and> Thread_GetName t w' = name))
    \<and> (name \<noteq> [] \<and> t_thread w t = Some a \<and> Thread_dtor a w = Inr w1 \<longrightarrow> Thread_SetName t name w1 = Inl (UB ''destroyed Thread''))"
proof (intro conjI impI, goal_cases)
  case 4
  then have "objs w a \<noteq> None" by (auto simp: Thread_dtor_def obj_at_def split: option.splits)
  then obtain x where "objs w a = Some x" by blast
  with Thread_dtor_effect 4 have "objs w1 a = None" "t_thread w1 t = Some a" by fastforce+
  then show ?case using 4 by (simp add: Thread_SetName_def obj_at_def)
qed (auto simp: Thread_SetName_def Thread_GetName_def put_obj_def obj_at_def)

theorem SetName_outcome_witness:
  "\<exists>w1. Thread_dtor 0 one_thread = Inr w1 \<and> Thread_SetName 7 ''n'' w1 = Inl (UB ''destroyed Thread'')"
proof -
  obtain w1 where d: "Thread_dtor 0 one_thread = Inr w1" by (simp add: one_thread_eq Thread_dtor_def obj_at_def Let_def)
  have "t_thread one_thread 7 = Some 0" by (simp add: one_thread_eq)
  then show ?thesis using SetName_outcome [of 7 one_thread "''n''" 0 _ w1] d by auto
qed

end
